(* ===== verification/Prelude.thy ===== *)
theory Prelude
  imports Main "HOL-Library.Word" "HOL-Library.Sublist"
begin

text \<open>
  Shared ground of the development: the failures a C++ operation of the library can end
  with, the machine types, the collections of simplification rules, and generic lemmas on
  lists, indices and words that several components use.
\<close>

unbundle bit_operations_syntax

section \<open>Failures and results\<close>

text \<open>
  The exceptions that \<^verbatim>\<open>src/src/common.hpp\<close> names, with their messages, the
  standard library's \<^verbatim>\<open>std::bad_variant_access\<close>, and a separate value for executions
  that the C++ standard leaves undefined (a read outside of an array, a signed overflow).
\<close>

datatype fault =
    Error string
  | Range string
  | Invalid string
  | Overflow string
  | Bad_variant_access
  | Undefined

type_synonym 'a res = "fault + 'a"

definition returns :: "'a res \<Rightarrow> bool" where
  "returns r = (case r of Inl _ \<Rightarrow> False | Inr _ \<Rightarrow> True)"

lemma returns_simps [simp]: "returns (Inr x)" "\<not> returns (Inl e)"
  by (simp_all add: returns_def)

lemma returns_iff: "returns r \<longleftrightarrow> (\<exists>x. r = Inr x)"
  by (cases r) simp_all

fun map_res :: "('a \<Rightarrow> 'b) \<Rightarrow> 'a res \<Rightarrow> 'b res" where
  "map_res f (Inl e) = Inl e"
| "map_res f (Inr x) = Inr (f x)"

lemma map_res_eq_Inr: "map_res f r = Inr y \<longleftrightarrow> (\<exists>x. r = Inr x \<and> y = f x)"
  by (cases r) auto

lemma map_res_eq_Inl [simp]: "map_res f r = Inl e \<longleftrightarrow> r = Inl e"
  by (cases r) auto

section \<open>Machine types\<close>

type_synonym byte = "8 word"
type_synonym u32 = "32 word"
type_synonym u64 = "64 word"

text \<open>A \<^verbatim>\<open>char\<close> is a byte; these are the casts to \<^verbatim>\<open>uint8_t\<close> and back.\<close>

definition u8 :: "char \<Rightarrow> byte" where
  "u8 c = of_char c"

definition chr8 :: "byte \<Rightarrow> char" where
  "chr8 b = char_of (unat b)"

lemma u8_nat: "u8 c = word_of_nat (of_char c)"
  by (simp add: u8_def of_char_def)

lemma unat_u8: "unat (u8 c) = of_char c"
proof -
  have "(of_char c :: nat) < 256" by simp
  then show ?thesis by (simp add: u8_nat unat_of_nat take_bit_nat_eq_self)
qed

lemma chr8_u8 [simp]: "chr8 (u8 c) = c"
  by (simp add: chr8_def unat_u8)

lemma unat_byte_lt [simp]: "unat (b :: byte) < 256"
proof -
  have "unat b < 2 ^ LENGTH(8)" by (rule unsigned_less)
  then show ?thesis by simp
qed

lemma unat_byte_of_nat: "n < 256 \<Longrightarrow> unat (word_of_nat n :: byte) = n"
  by (simp add: unat_of_nat)

lemma code_chr8_of_nat: "n < 256 \<Longrightarrow> of_char (chr8 (word_of_nat n)) = n"
  by (simp only: chr8_def unat_byte_of_nat of_char_of mod_less)

lemma u8_chr8 [simp]: "u8 (chr8 b) = b"
proof -
  have "unat (u8 (chr8 b)) = unat b mod 256"
    by (simp add: unat_u8 chr8_def)
  also have "\<dots> = unat b" by (simp add: unat_byte_lt)
  finally show ?thesis by (simp add: word_unat_eq_iff)
qed

lemma u8_eq_iff [simp]: "u8 c = u8 d \<longleftrightarrow> c = d"
  by (metis chr8_u8)

lemma map_chr8_u8 [simp]: "map (chr8 \<circ> u8) s = s"
  by (induction s) simp_all

lemma unat_shiftr: "unat (drop_bit n (w :: 'a::len word)) = unat w div 2 ^ n"
  by (subst unat_drop_bit_eq) (rule drop_bit_eq_div)

lemma unat_and_mask: "unat ((w :: 'a::len word) AND mask n) = unat w mod 2 ^ n"
  by (metis take_bit_eq_mask unsigned_take_bit_eq take_bit_eq_mod)

lemma odd_unat_iff: "odd (unat (w :: 'a::len word)) \<longleftrightarrow> odd w"
proof -
  have "bit (unat w) 0 \<longleftrightarrow> bit w 0" by (simp add: bit_unsigned_iff del: bit_0)
  then show ?thesis by (simp add: bit_0)
qed

lemma and_1_nonzero_iff: "(w :: 'a::len word) AND 1 \<noteq> 0 \<longleftrightarrow> odd (unat w)"
  by (simp only: and_one_eq odd_unat_iff mod_2_eq_odd) simp

lemma unat_power_word: "unat ((w :: 'a::len word) ^ n) = unat w ^ n mod 2 ^ LENGTH('a)"
proof -
  have "w ^ n = word_of_nat (unat w ^ n)" by simp
  then show ?thesis by (simp only: unat_of_nat)
qed

lemma unat_ucast_mod: "unat (ucast (w :: 'a::len word) :: 'b::len word) = unat w mod 2 ^ LENGTH('b)"
  by (simp add: unsigned_ucast_eq take_bit_eq_mod)

text \<open>Shifting left and filling the low bits is arithmetic while nothing overflows.\<close>

lemma or_shift_add:
  assumes "unat (w :: 'a::len word) < 2 ^ n"
  shows "push_bit n v OR w = push_bit n v + w"
proof -
  have "take_bit n w = w"
    using assms by (simp add: word_unat_eq_iff unsigned_take_bit_eq take_bit_nat_eq_self)
  then have "push_bit n v AND w = push_bit n v AND take_bit n w" by simp
  also have "\<dots> = 0" by (rule bit_word_eqI) (auto simp: bit_simps)
  finally show ?thesis by (simp add: disjunctive_add_eq_or)
qed

lemma unat_or_shift:
  assumes "unat (w :: 'a::len word) < 2 ^ n" and "unat v * 2 ^ n + unat w < 2 ^ LENGTH('a)"
  shows "unat (push_bit n v OR w) = unat v * 2 ^ n + unat w"
proof -
  have "push_bit n v + w = word_of_nat (unat v * 2 ^ n + unat w)"
    by (simp add: push_bit_eq_mult)
  then show ?thesis
    using assms by (simp only: or_shift_add unat_of_nat mod_less)
qed

text \<open>
  \<^verbatim>\<open>std::size_t\<close> has 64 bits. Lengths and positions are written as \<open>nat\<close>; the two places
  where the code's arithmetic on them can wrap use these.
\<close>

definition sz_add :: "nat \<Rightarrow> nat \<Rightarrow> nat" where
  "sz_add a b = (a + b) mod 2 ^ 64"

definition sz_sub :: "nat \<Rightarrow> nat \<Rightarrow> nat" where
  "sz_sub a b = (a + 2 ^ 64 - b) mod 2 ^ 64"

text \<open>The largest \<^verbatim>\<open>size_t\<close>, which is also \<^verbatim>\<open>std::string_view::npos\<close>.\<close>

definition npos :: nat where
  "npos = 2 ^ 64 - 1"

lemma sz_add_npos: "0 < n \<Longrightarrow> n < 2 ^ 64 \<Longrightarrow> sz_add n npos = n - 1"
proof -
  assume "0 < n" and "n < 2 ^ 64"
  then have "n + npos = (n - 1) + 2 ^ 64" by (simp add: npos_def)
  then show ?thesis using \<open>n < 2 ^ 64\<close> by (simp add: sz_add_def)
qed

lemma sz_add_small: "a + b < 2 ^ 64 \<Longrightarrow> sz_add a b = a + b"
  by (simp add: sz_add_def)

lemma sz_sub_le: "b \<le> a \<Longrightarrow> a < 2 ^ 64 \<Longrightarrow> sz_sub a b = a - b"
proof -
  assume le: "b \<le> a" and lt: "a < 2 ^ 64"
  from le have "a + 2 ^ 64 - b = (a - b) + 2 ^ 64" by simp
  moreover have "((a - b) + 2 ^ 64) mod 2 ^ 64 = a - b"
    using lt by (metis less_imp_diff_less mod_add_self2 mod_less)
  ultimately show ?thesis by (simp only: sz_sub_def)
qed

lemma sz_sub_gt: "a < b \<Longrightarrow> b \<le> 2 ^ 64 \<Longrightarrow> sz_sub a b = a + 2 ^ 64 - b"
  by (simp add: sz_sub_def)

section \<open>Rule collections\<close>

named_theorems step_simps \<open>equations of the step functions\<close>
named_theorems inv_intros \<open>preservation of the components' invariants\<close>
named_theorems abs_simps \<open>abstraction functions after one operation\<close>

section \<open>Lists\<close>

lemma nth_append_single [simp]: "(xs @ [x]) ! length xs = x"
  by simp

lemma takeWhile_eq_self_iff: "takeWhile P xs = xs \<longleftrightarrow> (\<forall>x \<in> set xs. P x)"
  by (induction xs) auto

lemma drop_eq_nth_Cons: "i < length xs \<Longrightarrow> drop i xs = xs ! i # drop (Suc i) xs"
  by (simp add: Cons_nth_drop_Suc)

lemma map_upt_shift: "map f [Suc a ..< Suc b] = map (f \<circ> Suc) [a ..< b]"
  by (metis map_Suc_upt map_map)

section \<open>Cyclic indices\<close>

text \<open>The window of \<open>n\<close> slots from \<open>h\<close> on in an array of \<open>S\<close> slots used as a ring.\<close>

definition window :: "'a list \<Rightarrow> nat \<Rightarrow> nat \<Rightarrow> 'a list" where
  "window d h n = map (\<lambda>i. d ! ((h + i) mod length d)) [0 ..< n]"

lemma length_window [simp]: "length (window d h n) = n"
  by (simp add: window_def)

lemma window_0 [simp]: "window d h 0 = []"
  by (simp add: window_def)

lemma window_Suc: "window d h (Suc n) = window d h n @ [d ! ((h + n) mod length d)]"
  by (simp add: window_def)

lemma window_Cons:
  assumes "d \<noteq> []"
  shows "window d h (Suc n) = d ! (h mod length d) # window d (Suc h mod length d) n"
proof -
  have "window d h (Suc n) = d ! ((h + 0) mod length d) # map (\<lambda>i. d ! ((h + i) mod length d)) [Suc 0 ..< Suc n]"
    by (simp add: window_def upt_conv_Cons del: upt_Suc)
  also have "map (\<lambda>i. d ! ((h + i) mod length d)) [Suc 0 ..< Suc n]
      = map (\<lambda>i. d ! ((Suc h + i) mod length d)) [0 ..< n]"
    by (simp add: map_upt_shift del: upt_Suc)
  also have "\<dots> = window d (Suc h mod length d) n"
    by (simp add: window_def mod_add_left_eq del: add_Suc)
  finally show ?thesis by simp
qed

text \<open>Two different offsets below the ring's size reach different slots.\<close>

lemma ring_offset_inj_le:
  assumes "(h + i) mod S = (h + j) mod (S :: nat)" and "i \<le> j" and "j < S"
  shows "i = j"
proof -
  have "S dvd (h + j) - (h + i)"
    using assms(1,2) by (subst mod_eq_dvd_iff_nat [symmetric]) auto
  then have "S dvd j - i" by simp
  moreover have "j - i < S" using assms(3) by simp
  ultimately have "j - i = 0" by (meson dvd_imp_le not_le not_gr_zero)
  then show ?thesis using assms(2) by simp
qed

lemma ring_offset_inj:
  assumes "(h + i) mod S = (h + j) mod (S :: nat)" and "i < S" and "j < S"
  shows "i = j"
  using assms ring_offset_inj_le [of h i S j] ring_offset_inj_le [of h j S i]
  by (cases "i \<le> j") auto

lemma window_update_outside:
  assumes "n \<le> k" and "k < length d"
  shows "window (d[(h + k) mod length d := x]) h n = window d h n"
proof -
  have "(h + k) mod length d \<noteq> (h + i) mod length d" if "i < n" for i
    using ring_offset_inj [of h i "length d" k] that assms by auto
  then show ?thesis by (auto simp: window_def)
qed

lemma window_push:
  assumes "n < length d"
  shows "window (d[(h + n) mod length d := x]) h (Suc n) = window d h n @ [x]"
proof -
  have "(h + n) mod length d < length d" using assms by (intro mod_less_divisor) auto
  then show ?thesis
    using assms by (simp add: window_Suc window_update_outside)
qed

lemma window_pop_update:
  assumes "n < length d" and "h < length d"
  shows "window (d[h := x]) (Suc h mod length d) n = window d (Suc h mod length d) n"
proof -
  have "h \<noteq> (Suc h mod length d + i) mod length d" if "i < n" for i
  proof
    assume "h = (Suc h mod length d + i) mod length d"
    then have "(h + Suc i) mod length d = (h + 0) mod length d"
      using assms(2) by (simp add: mod_simps)
    then have "Suc i = 0"
      by (rule ring_offset_inj) (use that assms(1) in auto)
    then show False by simp
  qed
  then show ?thesis by (auto simp: window_def)
qed

text \<open>One element of a list changes: how many still satisfy a predicate.\<close>

lemma filter_update:
  "t < length ts \<Longrightarrow> length (filter P (ts[t := p])) + of_bool (P (ts ! t)) = length (filter P ts) + of_bool (P p)"
proof (induction ts arbitrary: t)
  case (Cons x ts)
  then show ?case by (cases t) auto
qed simp

lemma list_all_update: "list_all P xs \<Longrightarrow> P x \<Longrightarrow> list_all P (xs[i := x])"
  using set_update_subset_insert [of xs i x] by (auto simp: list_all_iff)

end
