(* ===== verification/Common.thy ===== *)
theory Common
  imports Prelude
begin

text \<open>
  \<^verbatim>\<open>src/src/common.hpp\<close>: the truth tests, \<^verbatim>\<open>try_function\<close> and the helpers of
  \<^verbatim>\<open>hitycho::util\<close>. Its exception aliases are the constructors of \<open>fault\<close> in \<open>Prelude\<close>.
  \<open>pow_u\<close> is \<^verbatim>\<open>util::pow\<close> at an unsigned type of at least 32 bits, where C++ arithmetic
  wraps; \<open>pow_int\<close> is the same loop at \<^verbatim>\<open>int\<close>, where an overflow is undefined and a
  negative exponent is shifted arithmetically, so that the loop need not end.
\<close>

section \<open>Truth tests and fallbacks\<close>

text \<open>
  A pointer is an \<open>option\<close> (\<open>None\<close> is the null pointer); any other object is tested with
  its own conversion to \<^verbatim>\<open>bool\<close>, which is an argument.
\<close>

definition is_obj :: "('a \<Rightarrow> bool) \<Rightarrow> 'a \<Rightarrow> bool" where
  "is_obj to_bool x = to_bool x"

definition is_null_ptr :: "'a option \<Rightarrow> bool" where
  "is_null_ptr p = (p = None)"

definition is_null_obj :: "('a \<Rightarrow> bool) \<Rightarrow> 'a \<Rightarrow> bool" where
  "is_null_obj to_bool x = (\<not> to_bool x)"

text \<open>
  \<^verbatim>\<open>catch (...)\<close> catches every exception; an undefined execution is not an exception.
\<close>

definition try_function :: "('a \<Rightarrow> 'b res) \<Rightarrow> 'b \<Rightarrow> 'a \<Rightarrow> 'b res" where
  "try_function func fallback arg =
     (case func arg of
        Inr y \<Rightarrow> Inr y
      | Inl Undefined \<Rightarrow> Inl Undefined
      | Inl _ \<Rightarrow> Inr fallback)"

lemma try_function_returns:
  "func arg \<noteq> Inl Undefined \<Longrightarrow> returns (try_function func fallback arg)"
  by (auto simp: try_function_def split: sum.splits fault.splits)

lemma try_function_value:
  "func arg \<noteq> Inl Undefined \<Longrightarrow>
   try_function func fallback arg = Inr (case func arg of Inr y \<Rightarrow> y | Inl _ \<Rightarrow> fallback)"
  by (auto simp: try_function_def split: sum.splits fault.splits)

section \<open>Pointers and counting\<close>

text \<open>Addresses are numbers; \<open>T*\<close> arithmetic is in elements of \<open>sz\<close> bytes.\<close>

definition offset_ptr :: "nat \<Rightarrow> nat \<Rightarrow> nat" where
  "offset_ptr base offset = base + offset"

definition is_within_bounds :: "nat \<Rightarrow> nat \<Rightarrow> nat \<Rightarrow> nat \<Rightarrow> bool" where
  "is_within_bounds sz ptr base cnt = (ptr \<ge> base \<and> ptr < base + sz * cnt)"

lemma within_bounds_offset:
  "0 < sz \<Longrightarrow> is_within_bounds sz (offset_ptr base (sz * k)) base cnt \<longleftrightarrow> k < cnt"
  by (simp add: is_within_bounds_def offset_ptr_def)

fun count_range :: "'a list \<Rightarrow> 'a \<Rightarrow> nat \<Rightarrow> nat" where
  "count_range [] value result = result"
| "count_range (element # es) value result =
     count_range es value (result + (if element = value then 1 else 0))"

definition count_elems :: "'a list \<Rightarrow> 'a \<Rightarrow> nat" where
  "count_elems es value = count_range es value 0"

lemma count_range_eq: "count_range es v n = n + count_list es v"
  by (induction es arbitrary: n) auto

lemma count_elems_eq: "count_elems es v = count_list es v"
  by (simp add: count_elems_def count_range_eq)

section \<open>Power by repeated squaring\<close>

function pow_loop :: "'a::len word \<Rightarrow> 'a word \<Rightarrow> 'a word \<Rightarrow> 'a word" where
  "pow_loop result base exp =
     (if exp = 0 then result
      else pow_loop (if exp AND 1 \<noteq> 0 then result * base else result)
                    (base * base) (drop_bit 1 exp))"
  by pat_completeness auto
termination
proof (relation "measure (\<lambda>(result, base, exp). unat exp)", goal_cases)
  case 1
  then show ?case by simp
next
  case (2 result base exp)
  then have "0 < unat exp" by (simp add: unat_gt_0)
  then show ?case using unat_shiftr [of 1 exp] by (simp del: drop_bit_eq_div)
qed

declare pow_loop.simps [simp del]

definition pow_u :: "'a::len word \<Rightarrow> 'a word \<Rightarrow> 'a word" where
  "pow_u base exp = pow_loop 1 base exp"

lemma pow_loop_eq: "pow_loop result base exp = result * base ^ unat exp"
proof (induction result base exp rule: pow_loop.induct)
  case (1 result base exp)
  show ?case
  proof (cases "exp = 0")
    case True
    then show ?thesis by (simp add: pow_loop.simps)
  next
    case False
    define k where "k = unat exp div 2"
    have k: "unat (drop_bit 1 exp) = k"
      by (simp only: k_def unat_shiftr power_one_right)
    have sq: "(base * base) ^ k = base ^ (2 * k)"
      by (simp add: power_mult power2_eq_square)
    have n: "unat exp = (if odd (unat exp) then Suc (2 * k) else 2 * k)"
      by (simp add: k_def)
    have "pow_loop result base exp
        = (if exp AND 1 \<noteq> 0 then result * base else result) * (base * base) ^ k"
      using False 1 by (simp add: pow_loop.simps [of result base exp] k [unfolded One_nat_def])
    also have "\<dots> = result * base ^ unat exp"
      by (subst n) (simp only: and_1_nonzero_iff sq, simp add: mult.assoc)
    finally show ?thesis .
  qed
qed

text \<open>Every exponent ends the loop, and the result is the power modulo the type's size.\<close>

lemma pow_u_eq: "pow_u base exp = base ^ unat exp"
  by (simp add: pow_u_def pow_loop_eq)

lemma unat_pow_u:
  "unat (pow_u base exp :: 'a::len word) = unat base ^ unat exp mod 2 ^ LENGTH('a)"
  by (simp only: pow_u_eq unat_power_word)

text \<open>The loop at \<^verbatim>\<open>int\<close>.\<close>

definition in_int :: "int \<Rightarrow> bool" where
  "in_int x = (- (2 ^ 31) \<le> x \<and> x < 2 ^ 31)"

partial_function (option) pow_int_loop :: "int \<Rightarrow> int \<Rightarrow> int \<Rightarrow> int res option" where
  "pow_int_loop result base exp =
     (if exp = 0 then Some (Inr result)
      else if odd exp \<and> \<not> in_int (result * base) then Some (Inl Undefined)
      else if \<not> in_int (base * base) then Some (Inl Undefined)
      else pow_int_loop (if odd exp then result * base else result) (base * base) (exp div 2))"

definition pow_int :: "int \<Rightarrow> int \<Rightarrow> int res option" where
  "pow_int base exp = pow_int_loop 1 base exp"

lemma pow_int_loop_nonneg:
  assumes "pow_int_loop result base exp = Some (Inr v)"
  shows "0 \<le> exp"
proof -
  have "r = Inr v \<Longrightarrow> 0 \<le> exp" if "pow_int_loop result base exp = Some r" for r
  proof (rule pow_int_loop.raw_induct [where P = "\<lambda>_ _ exp r. r = Inr v \<longrightarrow> 0 \<le> exp",
        OF _ that, rule_format], goal_cases)
    case (1 f result base exp y)
    then show ?case by (auto split: if_splits) (metis pos_imp_zdiv_nonneg_iff zero_less_numeral)+
  qed
  then show ?thesis using assms by blast
qed

text \<open>No negative exponent gives a value: the loop is undefined or does not end.\<close>

lemma pow_int_negative: "exp < 0 \<Longrightarrow> pow_int base exp \<noteq> Some (Inr v)"
  using pow_int_loop_nonneg [of 1 base exp v] by (auto simp: pow_int_def)

lemma pow_int_loop_one_diverges:
  assumes "exp < 0" and "base \<in> {0, 1}" and "result \<in> {0, 1}"
  shows "pow_int_loop result base exp = None"
proof -
  have "\<not> (exp < 0 \<and> base \<in> {0, 1} \<and> result \<in> {0, 1})"
    if "pow_int_loop result base exp = Some r" for r
  proof (rule pow_int_loop.raw_induct
      [where P = "\<lambda>result base exp r. \<not> (exp < 0 \<and> base \<in> {0, 1} \<and> result \<in> {0, 1})", OF _ that],
      goal_cases)
    case (1 f result base exp y)
    then show ?case
      by (auto simp: in_int_def split: if_splits) (smt (verit) div_neg_pos_less0)+
  qed
  then show ?thesis using assms by (cases "pow_int_loop result base exp") auto
qed

text \<open>
  The loop squares the base once more after the last use, so a representable power can
  already be undefined.
\<close>

lemma pow_int_first_power_undefined: "pow_int 65536 1 = Some (Inl Undefined)"
  by (simp add: pow_int_def pow_int_loop.simps in_int_def)

lemma pow_int_3_5: "pow_int 3 5 = Some (Inr 243)"
  by (simp add: pow_int_def pow_int_loop.simps in_int_def)

lemma in_int_abs: "\<bar>x\<bar> < 2 ^ 31 \<Longrightarrow> in_int x"
  by (auto simp: in_int_def)

lemma pow_int_loop_exact:
  assumes "base \<noteq> 0" and "result \<noteq> 0" and "\<bar>result\<bar> * \<bar>base\<bar> ^ (2 * e) < 2 ^ 31"
  shows "pow_int_loop result base (int e) = Some (Inr (result * base ^ e))"
  using assms
proof (induction e arbitrary: result base rule: less_induct)
  case (less e)
  show ?case
  proof (cases "e = 0")
    case True
    then show ?thesis by (subst pow_int_loop.simps) simp
  next
    case False
    define h where "h = e div 2"
    have h: "h < e" "e = 2 * h + e mod 2" using False by (auto simp: h_def)
    have b: "1 \<le> \<bar>base\<bar>" "1 \<le> \<bar>result\<bar>" using less.prems(1,2) by auto
    have mono: "\<bar>result\<bar> * \<bar>base\<bar> ^ k \<le> \<bar>result\<bar> * \<bar>base\<bar> ^ (2 * e)" if "k \<le> 2 * e" for k
      using that b(1) by (intro mult_left_mono power_increasing) auto
    have "1 * \<bar>base\<bar> ^ 2 \<le> \<bar>result\<bar> * \<bar>base\<bar> ^ 2" using b(2) by (intro mult_right_mono) auto
    then have "\<bar>base * base\<bar> < 2 ^ 31"
      using mono [of 2] False less.prems(3) by (simp add: power2_eq_square abs_mult)
    then have square: "in_int (base * base)" by (rule in_int_abs)
    define r where "r = (if odd e then result * base else result)"
    have r_abs: "\<bar>r\<bar> = \<bar>result\<bar> * \<bar>base\<bar> ^ (e mod 2)" by (simp add: r_def abs_mult odd_iff_mod_2_eq_one)
    have used: "odd e \<Longrightarrow> in_int (result * base)"
      using mono [of 1] False less.prems(3) by (intro in_int_abs) (simp add: abs_mult)
    have "\<bar>base * base\<bar> ^ (2 * h) = (\<bar>base\<bar> ^ 2) ^ (2 * h)" by (simp only: power2_eq_square abs_mult)
    also have "\<dots> = \<bar>base\<bar> ^ (4 * h)" by (simp only: power_mult [symmetric]) simp
    finally have "\<bar>r\<bar> * \<bar>base * base\<bar> ^ (2 * h) = \<bar>result\<bar> * \<bar>base\<bar> ^ (e mod 2 + 4 * h)"
      by (simp only: r_abs power_add mult.assoc)
    also have "\<dots> < 2 ^ 31" using mono [of "e mod 2 + 4 * h"] h(2) less.prems(3) by linarith
    finally have IH: "pow_int_loop r (base * base) (int h) = Some (Inr (r * (base * base) ^ h))"
      using less.prems(1,2) by (intro less.IH [OF h(1)]) (auto simp: r_def)
    have "r * (base * base) ^ h = result * base ^ (e mod 2 + 2 * h)"
      by (simp add: r_def power_add power_mult odd_iff_mod_2_eq_one power2_eq_square)
    then have val: "r * (base * base) ^ h = result * base ^ e" using h(2) by (simp add: add.commute)
    have "int e div 2 = int h" by (simp add: h_def)
    then show ?thesis
      using IH val square used False by (subst pow_int_loop.simps) (auto simp: r_def)
  qed
qed

section \<open>Properties\<close>

text \<open>
  \<^verbatim>\<open>util::pow\<close> at an unsigned type of any width is the power modulo \<open>2 ^ w\<close>, and its loop
  ends for every exponent.
\<close>

theorem pow_unsigned_is_power:
  "unat (pow_u base expo :: 'a::len word) = unat base ^ unat expo mod 2 ^ LENGTH('a)"
  by (simp add: pow_u_eq unat_power_word)

text \<open>
  C37: \<^verbatim>\<open>util::pow\<close> at \<^verbatim>\<open>int\<close> gives the power when the square of the power still fits; it
  gives no value for any negative exponent, runs for ever for the bases 0 and 1 there, and
  squares its base once too often, of which one instance is stated: the first power of 65536 is
  undefined.
\<close>

theorem pow_int_behaviour:
  assumes "base \<noteq> 0" and "\<bar>base\<bar> ^ (2 * e) < 2 ^ 31"
  shows "pow_int base (int e) = Some (Inr (base ^ e))
    \<and> (expo < 0 \<longrightarrow> pow_int base expo \<noteq> Some (Inr v) \<and> pow_int 1 expo = None \<and> pow_int 0 expo = None)
    \<and> pow_int 65536 1 = Some (Inl Undefined)"
  using pow_int_loop_exact [of base 1 e] assms pow_int_negative [of expo base v] pow_int_first_power_undefined
    pow_int_loop_one_diverges [of expo 1 1] pow_int_loop_one_diverges [of expo 0 1]
  by (simp add: pow_int_def)

theorem pow_int_behaviour_witness: "pow_int 3 5 = Some (Inr 243) \<and> pow_int 1 (- 1) = None"
  using pow_int_behaviour [of 3 5 "- 1"] by simp

end
