(* ===== verification/Expected.thy ===== *)
theory Expected
  imports Prelude
begin

text \<open>
  \<^verbatim>\<open>src/src/expected.hpp\<close>: a value or an error, held in a \<^verbatim>\<open>std::variant\<close>. Access to
  the alternative that is not held throws \<^verbatim>\<open>std::bad_variant_access\<close>.
\<close>

datatype ('t, 'e) expected = Value 't | Unexpected 'e

text \<open>The default constructor holds a default value, which is an argument.\<close>

definition default_expected :: "'t \<Rightarrow> ('t, 'e) expected" where
  "default_expected dflt = Value dflt"

definition of_value :: "'t \<Rightarrow> ('t, 'e) expected" where
  "of_value v = Value v"

definition of_error :: "'e \<Rightarrow> ('t, 'e) expected" where
  "of_error e = Unexpected e"

fun has_value :: "('t, 'e) expected \<Rightarrow> bool" where
  "has_value (Value _) = True"
| "has_value (Unexpected _) = False"

fun get_value :: "('t, 'e) expected \<Rightarrow> 't res" where
  "get_value (Value v) = Inr v"
| "get_value (Unexpected _) = Inl Bad_variant_access"

fun get_error :: "('t, 'e) expected \<Rightarrow> 'e res" where
  "get_error (Value _) = Inl Bad_variant_access"
| "get_error (Unexpected e) = Inr e"

definition value_or :: "('t, 'e) expected \<Rightarrow> 't \<Rightarrow> 't res" where
  "value_or x alt = (if has_value x then get_value x else Inr alt)"

text \<open>\<^verbatim>\<open>operator*\<close>, \<^verbatim>\<open>operator bool\<close> and \<^verbatim>\<open>operator!\<close>.\<close>

definition deref_expected :: "('t, 'e) expected \<Rightarrow> 't res" where
  "deref_expected x = get_value x"

definition expected_bool :: "('t, 'e) expected \<Rightarrow> bool" where
  "expected_bool x = has_value x"

definition expected_not :: "('t, 'e) expected \<Rightarrow> bool" where
  "expected_not x = (\<not> has_value x)"

text \<open>Writing through the reference that \<^verbatim>\<open>value()\<close> returns.\<close>

fun set_value :: "('t, 'e) expected \<Rightarrow> 't \<Rightarrow> ('t, 'e) expected res" where
  "set_value (Value _) w = Inr (Value w)"
| "set_value (Unexpected _) w = Inl Bad_variant_access"

lemma get_value_returns: "returns (get_value x) \<longleftrightarrow> has_value x"
  by (cases x) simp_all

lemma get_error_returns: "returns (get_error x) \<longleftrightarrow> \<not> has_value x"
  by (cases x) simp_all

lemma value_or_returns: "returns (value_or x alt)"
  by (cases x) (simp_all add: value_or_def)

lemma exactly_one_accessor:
  "(\<exists>v. get_value x = Inr v \<and> get_error x = Inl Bad_variant_access \<and> value_or x alt = Inr v) \<noteq>
   (\<exists>e. get_error x = Inr e \<and> get_value x = Inl Bad_variant_access \<and> value_or x alt = Inr alt)"
  by (cases x) (simp_all add: value_or_def)

end
