(* ===== verification/Ascii.thy ===== *)
theory Ascii
  imports Prelude
begin

text \<open>
  The character functions of \<^verbatim>\<open><cctype>\<close> the sources call, in the C locale, on the value
  of a character as an \<^verbatim>\<open>unsigned char\<close>: \<^verbatim>\<open>isdigit\<close>, \<^verbatim>\<open>tolower\<close> and \<^verbatim>\<open>toupper\<close>; and the
  value of a character as a digit, the reference for the parsers and codecs.
\<close>

section \<open>Character classes\<close>

abbreviation code_of :: "char \<Rightarrow> nat" where
  "code_of c \<equiv> of_char c"

definition is_digit :: "char \<Rightarrow> bool" where
  "is_digit c = (48 \<le> code_of c \<and> code_of c \<le> 57)"

definition tolower :: "char \<Rightarrow> char" where
  "tolower c = (if 65 \<le> code_of c \<and> code_of c \<le> 90 then char_of (code_of c + 32) else c)"

definition toupper :: "char \<Rightarrow> char" where
  "toupper c = (if 97 \<le> code_of c \<and> code_of c \<le> 122 then char_of (code_of c - 32) else c)"

lemma code_of_lt [simp]: "code_of c < 256"
  by (fact nat_of_char_less_256)

lemma code_of_inj [simp]: "code_of c = code_of d \<longleftrightarrow> c = d"
  by (rule of_char_eq_iff)

lemma code_of_char_of: "n < 256 \<Longrightarrow> code_of (char_of n) = n"
  by simp

lemma code_tolower:
  "code_of (tolower c) = (if 65 \<le> code_of c \<and> code_of c \<le> 90 then code_of c + 32 else code_of c)"
  by (simp add: tolower_def)

lemma code_toupper:
  "code_of (toupper c) = (if 97 \<le> code_of c \<and> code_of c \<le> 122 then code_of c - 32 else code_of c)"
  by (auto simp: toupper_def less_imp_diff_less)

lemma tolower_idem [simp]: "tolower (tolower c) = tolower c"
  by (subst code_of_inj [symmetric], subst code_tolower) (simp add: code_tolower)

lemma toupper_idem [simp]: "toupper (toupper c) = toupper c"
  by (subst code_of_inj [symmetric], subst code_toupper) (auto simp: code_toupper)

lemma tolower_toupper [simp]: "tolower (toupper c) = tolower c"
  by (subst code_of_inj [symmetric]) (auto simp: code_toupper code_tolower)

lemma tolower_digit [simp]: "is_digit c \<Longrightarrow> tolower c = c"
  by (simp add: is_digit_def tolower_def)

lemma is_digit_tolower [simp]: "is_digit (tolower c) = is_digit c"
  by (auto simp: is_digit_def code_tolower)

section \<open>Digit values\<close>

definition digit_value :: "char \<Rightarrow> nat" where
  "digit_value c = code_of c - 48"

lemma digit_value_lt: "is_digit c \<Longrightarrow> digit_value c < 10"
  by (auto simp: is_digit_def digit_value_def)

definition hex_value :: "char \<Rightarrow> nat option" where
  "hex_value c =
     (let n = code_of c in
      if 48 \<le> n \<and> n \<le> 57 then Some (n - 48)
      else if 65 \<le> n \<and> n \<le> 70 then Some (n - 55)
      else if 97 \<le> n \<and> n \<le> 102 then Some (n - 87)
      else None)"

lemma hex_value_lt: "hex_value c = Some v \<Longrightarrow> v < 16"
  by (auto simp: hex_value_def Let_def split: if_splits)

lemma hex_value_tolower [simp]: "hex_value (tolower c) = hex_value c"
  by (simp add: hex_value_def code_tolower Let_def)

text \<open>A property of characters is a property of the numbers below 256.\<close>

lemma char_cases_upt:
  assumes "\<And>n :: nat. n < 256 \<Longrightarrow> P (char_of n)"
  shows "P c"
  using assms [of "code_of c"] by simp

text \<open>The characters of a run of \<open>k\<close> consecutive codes from \<open>a\<close> on.\<close>

lemma char_run:
  assumes "map code_of s = [a ..< a + k]"
  shows "c \<in> set s \<longleftrightarrow> a \<le> code_of c \<and> code_of c < a + k"
proof -
  have "c \<in> set s \<longleftrightarrow> code_of c \<in> set (map code_of s)" by (auto simp del: assms)
  then show ?thesis by (simp add: assms)
qed

lemma hex_value_upper:
  "hex_value c = Some v \<Longrightarrow> ''0123456789ABCDEF'' ! v = toupper c"
proof (subst code_of_inj [symmetric])
  assume v: "hex_value c = Some v"
  have "\<forall>v \<in> set [0 ..< 16]. code_of (''0123456789ABCDEF'' ! v) = (if v < 10 then v + 48 else v + 55)"
    by code_simp
  then have "code_of (''0123456789ABCDEF'' ! v) = (if v < 10 then v + 48 else v + 55)"
    using hex_value_lt [OF v] by simp
  then show "code_of (''0123456789ABCDEF'' ! v) = code_of (toupper c)"
    using v by (auto simp: hex_value_def code_toupper Let_def split: if_splits)
qed

lemma hex_value_digit: "v < 16 \<Longrightarrow> hex_value (''0123456789ABCDEF'' ! v) = Some v"
proof -
  assume v: "v < 16"
  have "\<forall>v \<in> set [0 ..< 16]. hex_value (''0123456789ABCDEF'' ! v) = Some v"
    by code_simp
  then show ?thesis using v by simp
qed

section \<open>Numerals\<close>

text \<open>The number a string of digits denotes, in base ten and in base sixteen.\<close>

definition dec_number :: "string \<Rightarrow> nat" where
  "dec_number s = foldl (\<lambda>n c. 10 * n + digit_value c) 0 s"

definition hex_number :: "string \<Rightarrow> nat" where
  "hex_number s = foldl (\<lambda>n c. 16 * n + the (hex_value c)) 0 s"

lemma dec_number_Nil [simp]: "dec_number [] = 0"
  by (simp add: dec_number_def)

lemma dec_number_snoc: "dec_number (s @ [c]) = 10 * dec_number s + digit_value c"
  by (simp add: dec_number_def)

lemma hex_number_Nil [simp]: "hex_number [] = 0"
  by (simp add: hex_number_def)

lemma hex_number_snoc: "hex_number (s @ [c]) = 16 * hex_number s + the (hex_value c)"
  by (simp add: hex_number_def)

lemma hex_number_lt: "\<forall>c \<in> set s. hex_value c \<noteq> None \<Longrightarrow> hex_number s < 16 ^ length s"
proof (induction s rule: rev_induct)
  case Nil
  then show ?case by simp
next
  case (snoc c s)
  then obtain v where v: "hex_value c = Some v" by auto
  with hex_value_lt have "v < 16" by blast
  with snoc v show ?case by (simp add: hex_number_snoc)
qed

lemma dec_number_mono: "dec_number s \<le> dec_number (s @ t)"
  by (induction t rule: rev_induct) (simp_all add: dec_number_snoc flip: append_assoc)

text \<open>\<open>std::to_string\<close> of a natural number.\<close>

fun to_decimal :: "nat \<Rightarrow> string" where
  "to_decimal n = (if n < 10 then [char_of (48 + n)] else to_decimal (n div 10) @ [char_of (48 + n mod 10)])"

declare to_decimal.simps [simp del]

lemma to_decimal_small: "n < 10 \<Longrightarrow> to_decimal n = [char_of (48 + n)]"
  by (simp add: to_decimal.simps [of n])

end
