(* ===== verification/Binary_Codec.thy ===== *)
theory Binary_Codec
  imports Ascii
begin

text \<open>
  The codecs of \<^verbatim>\<open>src/src/binary.hpp\<close> (\<^verbatim>\<open>hitycho::util\<close>): base 64 and hexadecimal, with
  their lookup tables. Characters are bytes; the 24-bit groups are 32-bit words as in the
  code. The encoders' index loops are recursions on the bytes that remain, which have the
  same branches: \<^verbatim>\<open>i + 2 < len\<close> is "at least three remain". A locale states what a codec
  promises; both codecs are interpretations of it.
\<close>

section \<open>What a codec promises\<close>

locale codec =
  fixes enc :: "'a \<Rightarrow> string"
    and dec :: "string \<Rightarrow> 'a res"
    and good :: "string \<Rightarrow> bool"
  assumes dec_enc: "dec (enc x) = Inr x"
    and dec_good: "good s \<Longrightarrow> returns (dec s)"
    and dec_bad: "\<not> good s \<Longrightarrow> \<exists>m. dec s = Inl (Invalid m)"
begin

lemma enc_inj: "enc x = enc y \<longleftrightarrow> x = y"
  by (metis dec_enc sum.inject(2))

lemma enc_good: "good (enc x)"
  using dec_enc [of x] dec_bad [of "enc x"] by auto

lemma dec_returns_iff: "returns (dec s) \<longleftrightarrow> good s"
  using dec_good [of s] dec_bad [of s] by (cases "good s") auto

lemma dec_never_undefined: "dec s \<noteq> Inl Undefined"
  using dec_good [of s] dec_bad [of s] by (cases "good s") (auto simp: returns_iff)

lemma dec_onto: "\<exists>s. dec s = Inr x \<and> good s"
  using dec_enc enc_good by blast

end

section \<open>Hexadecimal\<close>

text \<open>The lookup tables: 256 bytes, \<open>0xFF\<close> where the character is not a digit.\<close>

definition set_entry :: "char \<Rightarrow> byte \<Rightarrow> byte list \<Rightarrow> byte list" where
  "set_entry c v table = table[of_char c := v]"

definition make_hex_lookup :: "byte list" where
  "make_hex_lookup =
     (let table = replicate 256 0xFF;
          table = fold (\<lambda>c. set_entry c (u8 c - u8 CHR ''0'')) ''0123456789'' table;
          table = fold (\<lambda>c. set_entry c (u8 c - u8 CHR ''A'' + 10)) ''ABCDEF'' table;
          table = fold (\<lambda>c. set_entry c (u8 c - u8 CHR ''a'' + 10)) ''abcdef'' table
      in table)"

definition hex_digit :: "byte \<Rightarrow> char" where
  "hex_digit v = ''0123456789ABCDEF'' ! unat v"

fun encode_hex :: "string \<Rightarrow> string" where
  "encode_hex [] = []"
| "encode_hex (b # input) =
     (let val = u8 b in hex_digit (drop_bit 4 val) # hex_digit (val AND 0x0F) # encode_hex input)"

text \<open>An access past the end of \<^verbatim>\<open>in\<close> cannot happen behind the length check; it would be undefined.\<close>

fun decode_hex_loop :: "byte list \<Rightarrow> string \<Rightarrow> byte list res" where
  "decode_hex_loop table [] = Inr []"
| "decode_hex_loop table [c] = Inl Undefined"
| "decode_hex_loop table (c # d # rest) =
     (let hi = table ! of_char c; lo = table ! of_char d in
      if hi = 0xFF \<or> lo = 0xFF then Inl (Invalid ''Invalid hex character'')
      else map_res (\<lambda>out. (push_bit 4 hi OR lo) # out) (decode_hex_loop table rest))"

definition decode_hex :: "string \<Rightarrow> byte list res" where
  "decode_hex s =
     (if length s mod 2 \<noteq> 0 then Inl (Invalid ''Hex string must have even length'')
      else decode_hex_loop make_hex_lookup s)"

subsection \<open>The table\<close>

lemma length_set_entry [simp]: "length (set_entry c v t) = length t"
  by (simp add: set_entry_def)

lemma set_entry_nth:
  "length t = 256 \<Longrightarrow> set_entry c v t ! code_of d = (if d = c then v else t ! code_of d)"
  by (simp add: set_entry_def nth_list_update)

lemma length_fold_set_entry [simp]:
  "length (fold (\<lambda>i. set_entry (g i) (f i)) is t) = length t"
  by (induction "is" arbitrary: t) simp_all

lemma fold_set_entry_nth:
  "length t = 256 \<Longrightarrow>
   fold (\<lambda>c. set_entry c (f c)) cs t ! code_of d = (if d \<in> set cs then f d else t ! code_of d)"
  by (induction cs arbitrary: t) (auto simp: set_entry_nth)

lemma code_of_digit_chars: "c \<in> set ''0123456789'' \<longleftrightarrow> 48 \<le> code_of c \<and> code_of c < 58"
  using char_run [of "''0123456789''" 48 10] by (simp add: upt_conv_Cons)

lemma code_of_upper_hex: "c \<in> set ''ABCDEF'' \<longleftrightarrow> 65 \<le> code_of c \<and> code_of c < 71"
  using char_run [of "''ABCDEF''" 65 6] by (simp add: upt_conv_Cons)

lemma code_of_lower_hex: "c \<in> set ''abcdef'' \<longleftrightarrow> 97 \<le> code_of c \<and> code_of c < 103"
  using char_run [of "''abcdef''" 97 6] by (simp add: upt_conv_Cons)

lemma hex_lookup_sets:
  "make_hex_lookup ! code_of c =
     (if c \<in> set ''abcdef'' then u8 c - 97 + 10
      else if c \<in> set ''ABCDEF'' then u8 c - 65 + 10
      else if c \<in> set ''0123456789'' then u8 c - 48
      else 0xFF)"
proof -
  have "replicate 256 (0xFF :: byte) ! code_of c = 0xFF" by (rule nth_replicate) simp
  moreover have "u8 CHR ''0'' = 48" "u8 CHR ''A'' = 65" "u8 CHR ''a'' = 97"
    by (simp_all add: u8_def)
  ultimately show ?thesis
    by (simp only: make_hex_lookup_def Let_def fold_set_entry_nth length_fold_set_entry
        length_replicate)
qed

lemma hex_lookup_char:
  "make_hex_lookup ! code_of c = (case hex_value c of None \<Rightarrow> 0xFF | Some v \<Rightarrow> word_of_nat v)"
  by (simp only: hex_lookup_sets code_of_digit_chars code_of_upper_hex code_of_lower_hex
      hex_value_def Let_def u8_nat) (auto simp: of_nat_diff)

lemma hex_lookup_invalid: "make_hex_lookup ! code_of c = 0xFF \<longleftrightarrow> hex_value c = None"
proof (cases "hex_value c")
  case (Some v)
  then have "v < 16" by (rule hex_value_lt)
  then have "unat (word_of_nat v :: byte) = v" by (simp add: unat_of_nat)
  then have "word_of_nat v \<noteq> (0xFF :: byte)" using \<open>v < 16\<close> by auto
  then show ?thesis using Some by (simp add: hex_lookup_char)
qed (simp add: hex_lookup_char)

subsection \<open>Round trips\<close>

definition hex_good :: "string \<Rightarrow> bool" where
  "hex_good s = (even (length s) \<and> list_all (\<lambda>c. hex_value c \<noteq> None) s)"

lemma hex_digit_hi: "hex_digit (drop_bit 4 (u8 c)) = ''0123456789ABCDEF'' ! (code_of c div 16)"
  by (simp only: hex_digit_def unat_shiftr unat_u8) simp

lemma hex_digit_lo: "hex_digit (u8 c AND 0x0F) = ''0123456789ABCDEF'' ! (code_of c mod 16)"
proof -
  have "u8 c AND 0x0F = u8 c AND mask 4" by (simp add: mask_eq_exp_minus_1)
  then show ?thesis by (simp only: hex_digit_def unat_and_mask unat_u8) simp
qed

lemma encode_hex_Cons:
  "encode_hex (c # s) =
     ''0123456789ABCDEF'' ! (code_of c div 16) # ''0123456789ABCDEF'' ! (code_of c mod 16) # encode_hex s"
  by (simp only: encode_hex.simps Let_def hex_digit_hi hex_digit_lo)

lemma join_nibbles:
  assumes "a < 16" and "b < 16"
  shows "push_bit 4 (word_of_nat a) OR word_of_nat b = (word_of_nat (16 * a + b) :: byte)"
proof -
  have "\<forall>a \<in> set [0 ..< 16]. \<forall>b \<in> set [0 ..< 16].
      push_bit 4 (word_of_nat a) OR word_of_nat b = (word_of_nat (16 * a + b) :: byte)"
    by code_simp
  then show ?thesis using assms by simp
qed

lemma decode_hex_loop_pair:
  assumes "hex_value c = Some a" and "hex_value d = Some b"
  shows "decode_hex_loop make_hex_lookup (c # d # rest) =
     map_res (\<lambda>out. word_of_nat (16 * a + b) # out) (decode_hex_loop make_hex_lookup rest)"
proof -
  have ok: "make_hex_lookup ! code_of c \<noteq> 0xFF" "make_hex_lookup ! code_of d \<noteq> 0xFF"
    using assms by (simp_all add: hex_lookup_invalid)
  have "a < 16" and "b < 16" using assms by (auto dest: hex_value_lt)
  then have "push_bit 4 (make_hex_lookup ! code_of c) OR make_hex_lookup ! code_of d
      = word_of_nat (16 * a + b)"
    using assms by (simp only: hex_lookup_char option.case join_nibbles)
  with ok show ?thesis by (simp only: decode_hex_loop.simps Let_def if_False disj_not1) simp
qed

lemma length_encode_hex [simp]: "length (encode_hex s) = 2 * length s"
  by (induction s) (simp_all add: encode_hex_Cons del: encode_hex.simps(2))

lemma decode_hex_loop_encode: "decode_hex_loop make_hex_lookup (encode_hex s) = Inr (map u8 s)"
proof (induction s)
  case (Cons c s)
  have "hex_value (''0123456789ABCDEF'' ! (code_of c div 16)) = Some (code_of c div 16)"
    by (rule hex_value_digit) (use code_of_lt [of c] in linarith)
  moreover have "hex_value (''0123456789ABCDEF'' ! (code_of c mod 16)) = Some (code_of c mod 16)"
    by (rule hex_value_digit) simp
  ultimately show ?case
    using Cons.IH by (simp add: encode_hex_Cons decode_hex_loop_pair u8_nat
        del: encode_hex.simps(2) decode_hex_loop.simps(3))
qed simp

lemma decode_hex_encode: "decode_hex (encode_hex s) = Inr (map u8 s)"
  by (simp add: decode_hex_def decode_hex_loop_encode)

lemma decode_hex_loop_good:
  "hex_good s \<Longrightarrow> \<exists>bs. decode_hex_loop make_hex_lookup s = Inr bs \<and>
     encode_hex (map chr8 bs) = map toupper s"
proof (induction "make_hex_lookup" s rule: decode_hex_loop.induct)
  case (3 c d rest)
  from "3.prems" obtain a b where v: "hex_value c = Some a" "hex_value d = Some b"
    and good: "hex_good rest" by (auto simp: hex_good_def)
  have ab: "a < 16" "b < 16" using v by (auto dest: hex_value_lt)
  from good "3.hyps" v obtain bs where bs: "decode_hex_loop make_hex_lookup rest = Inr bs"
      "encode_hex (map chr8 bs) = map toupper rest"
    by (auto simp: hex_lookup_invalid)
  have "code_of (chr8 (word_of_nat (16 * a + b))) = 16 * a + b"
    by (rule code_chr8_of_nat) (use ab in linarith)
  moreover have "(16 * a + b) div 16 = a" "(16 * a + b) mod 16 = b" using ab by simp_all
  ultimately have "encode_hex (map chr8 (word_of_nat (16 * a + b) # bs)) = map toupper (c # d # rest)"
    using bs v by (simp only: list.map encode_hex_Cons hex_value_upper)
  then show ?case
    using bs v by (simp only: decode_hex_loop_pair map_res.simps) blast
qed (simp_all add: hex_good_def)

lemma decode_hex_loop_bad:
  "even (length s) \<Longrightarrow> \<not> list_all (\<lambda>c. hex_value c \<noteq> None) s \<Longrightarrow>
   decode_hex_loop make_hex_lookup s = Inl (Invalid ''Invalid hex character'')"
  by (induction "make_hex_lookup" s rule: decode_hex_loop.induct)
     (auto simp: hex_lookup_invalid Let_def)

interpretation hex_codec: codec "\<lambda>bs. encode_hex (map chr8 bs)" decode_hex hex_good
proof (unfold_locales, goal_cases)
  case (1 x)
  then show ?case by (simp add: decode_hex_encode comp_def)
next
  case (2 s)
  then show ?case
    using decode_hex_loop_good [of s] by (auto simp: decode_hex_def hex_good_def returns_iff)
next
  case (3 s)
  then show ?case
    using decode_hex_loop_bad [of s] by (auto simp: decode_hex_def hex_good_def)
qed

section \<open>Properties\<close>

text \<open>
  C25: decoding the hexadecimal encoding of any bytes gives the bytes back; a string is
  accepted exactly when its length is even and all its characters are hexadecimal digits,
  and otherwise the error says which of the two failed.
\<close>

theorem hex_round_trip:
  "decode_hex (encode_hex s) = Inr (map u8 s) \<and>
   (returns (decode_hex t) \<longleftrightarrow> even (length t) \<and> list_all (\<lambda>c. hex_value c \<noteq> None) t) \<and>
   (decode_hex t = Inl (Invalid ''Hex string must have even length'') \<longleftrightarrow> odd (length t)) \<and>
   (decode_hex t = Inl (Invalid ''Invalid hex character'') \<longleftrightarrow>
      even (length t) \<and> \<not> list_all (\<lambda>c. hex_value c \<noteq> None) t)"
proof -
  have "returns (decode_hex t) \<longleftrightarrow> hex_good t" by (rule hex_codec.dec_returns_iff)
  then show ?thesis
    using decode_hex_encode [of s] decode_hex_loop_bad [of t]
    by (auto simp: hex_good_def decode_hex_def)
qed

text \<open>
  What \<^verbatim>\<open>decode_hex\<close> accepts, it decodes to the bytes whose encoding is the input in
  upper case: decoding is one to one up to case.
\<close>

theorem hex_decode_canonical:
  assumes "decode_hex s = Inr bs"
  shows "encode_hex (map chr8 bs) = map toupper s"
proof -
  have "hex_good s" using assms hex_codec.dec_returns_iff [of s] by simp
  then show ?thesis
    using decode_hex_loop_good [of s] assms by (auto simp: decode_hex_def hex_good_def)
qed

theorem hex_decode_canonical_witness:
  "encode_hex (map chr8 [0x4F, 0xA9]) = map toupper ''4fa9''"
proof (rule hex_decode_canonical)
  show "decode_hex ''4fa9'' = Inr [0x4F, 0xA9]" by code_simp
qed

end
