(* ===== verification/Base64.thy ===== *)
theory Base64
  imports Binary_Codec
begin

text \<open>
  The base 64 codec of \<^verbatim>\<open>src/src/binary.hpp\<close>: \<^verbatim>\<open>make_b64_lookup\<close>, \<^verbatim>\<open>encode_b64\<close> and
  \<^verbatim>\<open>decode_b64\<close>. The 24-bit groups are 32-bit words, built and taken apart with the code's
  shifts and masks; the lemmas read them as numbers.
\<close>

section \<open>Definitions\<close>

definition b64_alphabet :: string where
  "b64_alphabet = ''ABCDEFGHIJKLMNOPQRSTUVWXYZabcdefghijklmnopqrstuvwxyz0123456789+/''"

definition make_b64_lookup :: "byte list" where
  "make_b64_lookup =
     fold (\<lambda>i. set_entry (b64_alphabet ! i) (word_of_nat i)) [0 ..< 64] (replicate 256 0xFF)"

definition b64_char :: "u32 \<Rightarrow> char" where
  "b64_char w = b64_alphabet ! unat (w AND 0x3F)"

definition widen :: "char \<Rightarrow> u32" where
  "widen c = ucast (u8 c)"

fun encode_b64 :: "string \<Rightarrow> string" where
  "encode_b64 [] = []"
| "encode_b64 [a] =
     (let triple = push_bit 16 (widen a)
      in [b64_char (drop_bit 18 triple), b64_char (drop_bit 12 triple), CHR ''='', CHR ''=''])"
| "encode_b64 [a, b] =
     (let triple = push_bit 16 (widen a) OR push_bit 8 (widen b)
      in [b64_char (drop_bit 18 triple), b64_char (drop_bit 12 triple),
          b64_char (drop_bit 6 triple), CHR ''=''])"
| "encode_b64 (a # b # c # input) =
     (let triple = push_bit 16 (widen a) OR push_bit 8 (widen b) OR widen c
      in [b64_char (drop_bit 18 triple), b64_char (drop_bit 12 triple),
          b64_char (drop_bit 6 triple), b64_char triple] @ encode_b64 input)"

text \<open>The inner loop over the four characters of a group, then the bytes it pushes.\<close>

fun decode_quad :: "byte list \<Rightarrow> string \<Rightarrow> u32 \<Rightarrow> nat \<Rightarrow> (u32 \<times> nat) res" where
  "decode_quad table [] val pad = Inr (val, pad)"
| "decode_quad table (c # cs) val pad =
     (if c = CHR ''='' then decode_quad table cs (push_bit 6 val) (Suc pad)
      else let v = table ! code_of c in
        if v = 0xFF then Inl (Invalid ''Invalid b64 character'')
        else decode_quad table cs (push_bit 6 val OR ucast v) pad)"

definition emit_bytes :: "u32 \<Rightarrow> nat \<Rightarrow> byte list" where
  "emit_bytes val pad =
     (if pad < 3 then [ucast (drop_bit 16 val)] else []) @
     (if pad < 2 then [ucast (drop_bit 8 val AND 0xFF)] else []) @
     (if pad < 1 then [ucast (val AND 0xFF)] else [])"

fun decode_b64_loop :: "byte list \<Rightarrow> string \<Rightarrow> byte list res" where
  "decode_b64_loop table [] = Inr []"
| "decode_b64_loop table (c0 # c1 # c2 # c3 # rest) =
     (case decode_quad table [c0, c1, c2, c3] 0 0 of
        Inl e \<Rightarrow> Inl e
      | Inr (val, pad) \<Rightarrow> map_res (\<lambda>out. emit_bytes val pad @ out) (decode_b64_loop table rest))"
| "decode_b64_loop table _ = Inl Undefined"

definition decode_b64 :: "string \<Rightarrow> byte list res" where
  "decode_b64 s =
     (if length s mod 4 \<noteq> 0 then Inl (Invalid ''Invalid b64 length'')
      else decode_b64_loop make_b64_lookup s)"

section \<open>The table\<close>

lemma length_alphabet [simp]: "length b64_alphabet = 64"
  by (simp add: b64_alphabet_def)

lemma distinct_alphabet: "distinct b64_alphabet"
  unfolding b64_alphabet_def by code_simp

lemma pad_not_in_alphabet: "CHR ''='' \<notin> set b64_alphabet"
  unfolding b64_alphabet_def by code_simp

lemma alphabet_nth_neq_pad: "i < 64 \<Longrightarrow> b64_alphabet ! i \<noteq> CHR ''=''"
  using pad_not_in_alphabet by (metis length_alphabet nth_mem)

lemma fold_alphabet_other:
  assumes "c \<notin> set b64_alphabet" and "n \<le> 64" and "length t = 256"
  shows "fold (\<lambda>i. set_entry (b64_alphabet ! i) (f i)) [0 ..< n] t ! code_of c = t ! code_of c"
  using assms
proof (induction n)
  case (Suc n)
  then have "c \<noteq> b64_alphabet ! n" by (metis Suc_le_lessD length_alphabet nth_mem)
  with Suc show ?case by (simp add: set_entry_nth)
qed simp

lemma fold_alphabet_nth:
  assumes "i < n" and "n \<le> 64" and "length t = 256"
  shows "fold (\<lambda>i. set_entry (b64_alphabet ! i) (f i)) [0 ..< n] t ! code_of (b64_alphabet ! i) = f i"
  using assms
proof (induction n)
  case (Suc n)
  have "b64_alphabet ! i = b64_alphabet ! n \<longleftrightarrow> i = n"
    using Suc.prems by (intro nth_eq_iff_index_eq distinct_alphabet) auto
  with Suc show ?case by (auto simp: set_entry_nth)
qed simp

lemma b64_lookup_nth: "i < 64 \<Longrightarrow> make_b64_lookup ! code_of (b64_alphabet ! i) = word_of_nat i"
  unfolding make_b64_lookup_def by (rule fold_alphabet_nth) simp_all

lemma b64_lookup_other:
  assumes "c \<notin> set b64_alphabet"
  shows "make_b64_lookup ! code_of c = 0xFF"
proof -
  have "replicate 256 (0xFF :: byte) ! code_of c = 0xFF" by (rule nth_replicate) simp
  moreover have "make_b64_lookup ! code_of c = replicate 256 0xFF ! code_of c"
    unfolding make_b64_lookup_def by (rule fold_alphabet_other) (use assms in simp_all)
  ultimately show ?thesis by simp
qed

lemma byte_index_not_invalid: "i < 64 \<Longrightarrow> word_of_nat i \<noteq> (0xFF :: byte)"
proof
  assume i: "i < 64" and "word_of_nat i = (0xFF :: byte)"
  then have "unat (word_of_nat i :: byte) = 255" by simp
  with i show False by (simp add: unat_byte_of_nat)
qed

section \<open>Groups as numbers\<close>

lemma code_of_nul: "code_of CHR 0x00 = 0"
  by code_simp

lemma unat_widen: "unat (widen c) = code_of c"
proof -
  have "code_of c < 2 ^ 32" by (rule less_trans [OF code_of_lt]) simp
  then have "take_bit 32 (code_of c) = code_of c" by (rule take_bit_nat_eq_self)
  then show ?thesis by (simp add: widen_def unsigned_ucast_eq unat_u8)
qed

lemma b64_char_shift: "b64_char (drop_bit k w) = b64_alphabet ! (unat w div 2 ^ k mod 64)"
proof -
  have "(0x3F :: u32) = mask 6" by (simp add: mask_eq_exp_minus_1)
  then show ?thesis by (simp only: b64_char_def unat_and_mask unat_shiftr) simp
qed

lemma b64_char_low: "b64_char w = b64_alphabet ! (unat w mod 64)"
  using b64_char_shift [of 0 w] by simp

lemma unat_shift_or_small:
  assumes "unat (x :: u32) < 256" and "unat (y :: u32) < 256" and "unat (z :: u32) < 256"
  shows "unat (push_bit 8 y OR z) = 256 * unat y + unat z"
    and "unat (push_bit 16 x OR push_bit 8 y OR z) = 65536 * unat x + 256 * unat y + unat z"
proof -
  show yz: "unat (push_bit 8 y OR z) = 256 * unat y + unat z"
    using assms by (subst unat_or_shift) simp_all
  have "unat (push_bit 16 x OR (push_bit 8 y OR z)) = unat x * 2 ^ 16 + unat (push_bit 8 y OR z)"
    by (rule unat_or_shift) (use assms in \<open>simp_all only: yz, simp_all\<close>)
  then show "unat (push_bit 16 x OR push_bit 8 y OR z) = 65536 * unat x + 256 * unat y + unat z"
    by (simp only: or.assoc yz) simp
qed

lemma widen_lt: "unat (widen c) < 256"
  by (simp add: unat_widen)

lemma unat_triple3:
  "unat (push_bit 16 (widen a) OR push_bit 8 (widen b) OR widen c)
   = 65536 * code_of a + 256 * code_of b + code_of c"
  using unat_shift_or_small(2) [OF widen_lt widen_lt widen_lt, of a b c] by (simp only: unat_widen)

lemma unat_triple2:
  "unat (push_bit 16 (widen a) OR push_bit 8 (widen b)) = 65536 * code_of a + 256 * code_of b"
  using unat_shift_or_small(2) [OF widen_lt [of a] widen_lt [of b], of 0] by (simp add: unat_widen)

lemma unat_triple1: "unat (push_bit 16 (widen a)) = 65536 * code_of a"
  using unat_shift_or_small(2) [OF widen_lt [of a], of 0 0] by (simp add: unat_widen)

text \<open>Four six-bit digits make the 24-bit number again.\<close>

definition sextets :: "nat \<Rightarrow> nat list" where
  "sextets n = [n div 2 ^ 18 mod 64, n div 2 ^ 12 mod 64, n div 2 ^ 6 mod 64, n mod 64]"

lemma sextets_join:
  assumes "(n :: nat) < 2 ^ 24"
  shows "((n div 2 ^ 18 mod 64 * 64 + n div 2 ^ 12 mod 64) * 64 + n div 2 ^ 6 mod 64) * 64 + n mod 64 = n"
proof -
  have step: "m div 64 * 64 + m mod 64 = m" for m :: nat by simp
  have d: "n div 2 ^ 6 = n div 64" "n div 2 ^ 12 = n div 64 div 64" "n div 2 ^ 18 = n div 64 div 64 div 64"
    by (simp_all add: div_mult2_eq [symmetric])
  have "n div 64 div 64 div 64 < 64" using assms by (simp add: div_mult2_eq [symmetric] less_mult_imp_div_less)
  then show ?thesis by (simp only: d mod_less step)
qed

lemma foldl_sextets: "n < 2 ^ 24 \<Longrightarrow> foldl (\<lambda>n d. 64 * n + d) 0 (sextets n) = n"
  using sextets_join [of n] by (simp add: sextets_def mult.commute)

lemma foldl_zeros: "foldl (\<lambda>n d. 64 * n + d) (x :: nat) (replicate k 0) = x * 64 ^ k"
  by (induction k arbitrary: x) simp_all

text \<open>Reading one digit of the alphabet, or a pad character.\<close>

lemma decode_quad_digit:
  assumes "d < 64" and "unat val < 2 ^ 24"
  shows "\<exists>val'. decode_quad make_b64_lookup (b64_alphabet ! d # cs) val pad
      = decode_quad make_b64_lookup cs val' pad \<and> unat val' = 64 * unat val + d"
proof -
  have d: "unat (ucast (word_of_nat d :: byte) :: u32) = d"
    using assms(1) by (simp add: unsigned_ucast_eq unat_byte_of_nat take_bit_nat_eq_self)
  have "unat (push_bit 6 val OR ucast (word_of_nat d :: byte)) = unat val * 2 ^ 6 + d"
    using assms by (subst unat_or_shift) (simp_all only: d, simp_all)
  then show ?thesis
    using assms(1) by (intro exI [of _ "push_bit 6 val OR ucast (word_of_nat d :: byte)"])
      (simp add: alphabet_nth_neq_pad b64_lookup_nth byte_index_not_invalid del: of_nat_eq_iff)
qed

lemma decode_quad_pad:
  assumes "unat val < 2 ^ 24"
  shows "\<exists>val'. decode_quad table (CHR ''='' # cs) val pad = decode_quad table cs val' (Suc pad)
      \<and> unat val' = 64 * unat val"
proof -
  have "unat (push_bit 6 val OR 0) = unat val * 2 ^ 6 + unat (0 :: u32)"
    using assms by (intro unat_or_shift) simp_all
  then show ?thesis by (intro exI [of _ "push_bit 6 val"]) simp
qed

text \<open>A whole group: digits, then pad characters.\<close>

lemma pow64_lt: "unat val < 64 ^ j \<Longrightarrow> j < 4 \<Longrightarrow> unat (val :: u32) < 2 ^ 24"
proof -
  assume v: "unat val < 64 ^ j" and "j < 4"
  then have "(64 :: nat) ^ j \<le> 64 ^ 3" by (intro power_increasing) simp_all
  with v show ?thesis by simp
qed

lemma decode_quad_pads:
  assumes "unat val < 64 ^ j" and "j + k \<le> 4"
  shows "\<exists>val'. decode_quad table (replicate k CHR ''='') val pad = Inr (val', pad + k)
      \<and> unat val' = unat val * 64 ^ k"
  using assms
proof (induction k arbitrary: val j pad)
  case (Suc k)
  then obtain v where v: "unat v = 64 * unat val"
    and step: "decode_quad table (replicate (Suc k) CHR ''='') val pad
      = decode_quad table (replicate k CHR ''='') v (Suc pad)"
    using decode_quad_pad [of val table "replicate k CHR ''=''" pad] pow64_lt [of val j] by auto
  have "unat v < 64 ^ Suc j" "Suc j + k \<le> 4" using v Suc.prems by simp_all
  from Suc.IH [OF this, of "Suc pad"] step v show ?case by auto
qed simp

lemma decode_quad_run:
  assumes "\<forall>d \<in> set ds. d < 64" and "unat val < 64 ^ j" and "j + length ds + k \<le> 4"
  shows "\<exists>val'. decode_quad make_b64_lookup (map ((!) b64_alphabet) ds @ replicate k CHR ''='') val pad
      = Inr (val', pad + k) \<and> unat val' = foldl (\<lambda>n d. 64 * n + d) (unat val) ds * 64 ^ k"
  using assms
proof (induction ds arbitrary: val j)
  case Nil
  then show ?case using decode_quad_pads [of val j k make_b64_lookup pad] by simp
next
  case (Cons d ds)
  then obtain v where v: "unat v = 64 * unat val + d"
    and step: "decode_quad make_b64_lookup (map ((!) b64_alphabet) (d # ds) @ replicate k CHR ''='') val pad
      = decode_quad make_b64_lookup (map ((!) b64_alphabet) ds @ replicate k CHR ''='') v pad"
    using decode_quad_digit [of d val "map ((!) b64_alphabet) ds @ replicate k CHR ''=''" pad]
      pow64_lt [of val j] by auto
  have "unat v < 64 ^ Suc j" using v Cons.prems by auto
  moreover have "Suc j + length ds + k \<le> 4" "\<forall>d \<in> set ds. d < 64" using Cons.prems by simp_all
  ultimately show ?case using Cons.IH [of v "Suc j"] step v by auto
qed

lemma bytes_of_triple:
  assumes "(a :: nat) < 256" and "(b :: nat) < 256" and "(c :: nat) < 256"
  shows "(65536 * a + 256 * b + c) div 65536 = a"
    and "(65536 * a + 256 * b + c) div 256 mod 256 = b"
    and "(65536 * a + 256 * b + c) mod 256 = c"
proof -
  have eq: "65536 * a + 256 * b + c = (a * 256 + b) * 256 + c" by simp
  have low: "(x * 256 + y) div 256 = x" "(x * 256 + y) mod 256 = y" if "y < 256" for x y :: nat
    using that by simp_all
  show "(65536 * a + 256 * b + c) div 256 mod 256 = b" "(65536 * a + 256 * b + c) mod 256 = c"
    unfolding eq low [OF assms(3)] by (rule low [OF assms(2)], rule refl)
  have "(65536 * a + 256 * b + c) div 65536 = (65536 * a + 256 * b + c) div 256 div 256"
    by (simp add: div_mult2_eq [symmetric])
  also have "\<dots> = a" unfolding eq low [OF assms(3)] by (rule low [OF assms(2)])
  finally show "(65536 * a + 256 * b + c) div 65536 = a" .
qed

lemma emit_three:
  assumes "unat (val :: u32) = 65536 * code_of a + 256 * code_of b + code_of c"
  shows "ucast (drop_bit 16 val) = u8 a" and "ucast (drop_bit 8 val AND 0xFF) = u8 b"
    and "ucast (val AND 0xFF) = u8 c"
proof -
  have m: "(0xFF :: u32) = mask 8" by (simp add: mask_eq_exp_minus_1)
  have cast: "unat (ucast (w :: u32) :: byte) = unat w mod 256" for w
    by (simp add: unsigned_ucast_eq take_bit_eq_mod)
  have lt: "code_of a < 256" "code_of b < 256" "code_of c < 256" by (fact code_of_lt)+
  have "unat val div 65536 mod 256 = code_of a" "unat val div 256 mod 256 = code_of b"
    "unat val mod 256 = code_of c"
    unfolding assms using bytes_of_triple [OF lt] by simp_all
  then show "ucast (drop_bit 16 val) = u8 a" "ucast (drop_bit 8 val AND 0xFF) = u8 b"
    "ucast (val AND 0xFF) = u8 c"
    by (simp_all only: word_unat_eq_iff cast unat_shiftr m unat_and_mask unat_u8) simp_all
qed

lemma sextets_lt: "\<forall>d \<in> set (take m (sextets n)). d < 64"
  by (auto simp: sextets_def dest!: in_set_takeD)

lemma decode_group:
  assumes n: "n = 65536 * code_of a + 256 * code_of b + code_of c"
    and k: "k = 2 \<and> b = CHR 0x00 \<and> c = CHR 0x00 \<or> k = 1 \<and> c = CHR 0x00 \<or> k = 0"
  shows "\<exists>val. decode_quad make_b64_lookup
        (map ((!) b64_alphabet) (take (4 - k) (sextets n)) @ replicate k CHR ''='') 0 0 = Inr (val, k)
      \<and> unat val = n"
proof -
  have "n < 16777216" unfolding n using code_of_lt [of a] code_of_lt [of b] code_of_lt [of c]
    by linarith
  then have n24: "n < 2 ^ 24" by simp
  have "length (take (4 - k) (sextets n)) + k = 4" using k by (auto simp: sextets_def)
  then obtain val where val: "decode_quad make_b64_lookup
        (map ((!) b64_alphabet) (take (4 - k) (sextets n)) @ replicate k CHR ''='') 0 0 = Inr (val, k)"
    and u: "unat val = foldl (\<lambda>n d. 64 * n + d) 0 (take (4 - k) (sextets n)) * 64 ^ k"
    using decode_quad_run [OF sextets_lt [of "4 - k" n], of 0 0 k 0] by auto
  have two: "replicate 2 (0 :: nat) = [0, 0]" by (simp add: numeral_2_eq_2)
  have "sextets n = take (4 - k) (sextets n) @ replicate k 0"
    using k by (auto simp: sextets_def n code_of_nul two)
  then have "foldl (\<lambda>n d. 64 * n + d) 0 (sextets n)
      = foldl (\<lambda>n d. 64 * n + d) 0 (take (4 - k) (sextets n)) * 64 ^ k"
    by (metis foldl_append foldl_zeros)
  then have "unat val = n" using u foldl_sextets [OF n24] by simp
  with val show ?thesis by blast
qed

section \<open>Round trip\<close>

lemma encode_b64_groups:
  "encode_b64 [a] = map ((!) b64_alphabet) (take 2 (sextets (65536 * code_of a))) @ ''==''"
  "encode_b64 [a, b] = map ((!) b64_alphabet) (take 3 (sextets (65536 * code_of a + 256 * code_of b))) @ ''=''"
  "encode_b64 (a # b # c # s) =
     map ((!) b64_alphabet) (sextets (65536 * code_of a + 256 * code_of b + code_of c)) @ encode_b64 s"
  by (simp_all only: encode_b64.simps Let_def b64_char_shift,
      simp_all only: b64_char_low unat_triple1 unat_triple2 unat_triple3, simp_all add: sextets_def)

lemma length_encode_b64: "length (encode_b64 s) = 4 * ((length s + 2) div 3)"
proof (induction s rule: encode_b64.induct)
  case (4 a b c s)
  have "(length (a # b # c # s) + 2) div 3 = Suc ((length s + 2) div 3)" by simp
  with 4 show ?case by (simp add: encode_b64_groups sextets_def del: encode_b64.simps)
qed (simp_all add: Let_def)

lemma dvd4_Suc4 [simp]: "4 dvd Suc (Suc (Suc (Suc n))) \<longleftrightarrow> 4 dvd n"
  by presburger

lemma decode_b64_loop_append:
  assumes "length g = 4" and "decode_quad table g 0 0 = Inr (val, pad)"
  shows "decode_b64_loop table (g @ rest) = map_res (\<lambda>out. emit_bytes val pad @ out) (decode_b64_loop table rest)"
proof -
  obtain c0 c1 c2 c3 where "g = [c0, c1, c2, c3]"
    using assms(1) by (auto simp: length_Suc_conv numeral_eq_Suc)
  then show ?thesis using assms(2) by simp
qed

lemma decode_b64_loop_group:
  assumes "n = 65536 * code_of a + 256 * code_of b + code_of c"
    and "k = 2 \<and> b = CHR 0x00 \<and> c = CHR 0x00 \<or> k = 1 \<and> c = CHR 0x00 \<or> k = 0"
  shows "decode_b64_loop make_b64_lookup
      ((map ((!) b64_alphabet) (take (4 - k) (sextets n)) @ replicate k CHR ''='') @ rest)
    = map_res (\<lambda>out. take (3 - k) [u8 a, u8 b, u8 c] @ out) (decode_b64_loop make_b64_lookup rest)"
proof -
  obtain val where val: "decode_quad make_b64_lookup
        (map ((!) b64_alphabet) (take (4 - k) (sextets n)) @ replicate k CHR ''='') 0 0 = Inr (val, k)"
      "unat val = n"
    using decode_group [OF assms] by blast
  have "length (map ((!) b64_alphabet) (take (4 - k) (sextets n)) @ replicate k CHR ''='') = 4"
    using assms(2) by (auto simp: sextets_def)
  moreover have "emit_bytes val k = take (3 - k) [u8 a, u8 b, u8 c]"
    using assms(2) emit_three [of val a b c] val(2) assms(1) by (auto simp: emit_bytes_def)
  ultimately show ?thesis using decode_b64_loop_append val(1) by metis
qed

lemma decode_b64_loop_encode: "decode_b64_loop make_b64_lookup (encode_b64 s) = Inr (map u8 s)"
proof (induction s rule: encode_b64.induct)
  case 1
  then show ?case by simp
next
  case (2 a)
  have "encode_b64 [a] = (map ((!) b64_alphabet) (take (4 - 2) (sextets (65536 * code_of a + 256 * code_of CHR 0x00
      + code_of CHR 0x00))) @ replicate 2 CHR ''='') @ []"
    by (simp only: encode_b64_groups code_of_nul) (simp add: numeral_2_eq_2)
  then have "decode_b64_loop make_b64_lookup (encode_b64 [a])
      = map_res (\<lambda>out. take (3 - 2) [u8 a, u8 CHR 0x00, u8 CHR 0x00] @ out) (decode_b64_loop make_b64_lookup [])"
    by (simp only:) (rule decode_b64_loop_group [OF refl], simp)
  then show ?case by simp
next
  case (3 a b)
  have "encode_b64 [a, b] = (map ((!) b64_alphabet) (take (4 - 1) (sextets (65536 * code_of a + 256 * code_of b
      + code_of CHR 0x00))) @ replicate 1 CHR ''='') @ []"
    by (simp only: encode_b64_groups code_of_nul) simp
  then have "decode_b64_loop make_b64_lookup (encode_b64 [a, b])
      = map_res (\<lambda>out. take (3 - 1) [u8 a, u8 b, u8 CHR 0x00] @ out) (decode_b64_loop make_b64_lookup [])"
    by (simp only:) (rule decode_b64_loop_group [OF refl], simp)
  then show ?case by simp
next
  case (4 a b c s)
  have "encode_b64 (a # b # c # s) = (map ((!) b64_alphabet) (take (4 - 0) (sextets (65536 * code_of a + 256 * code_of b
      + code_of c))) @ replicate 0 CHR ''='') @ encode_b64 s"
    by (simp only: encode_b64_groups) (simp add: sextets_def)
  then have "decode_b64_loop make_b64_lookup (encode_b64 (a # b # c # s))
      = map_res (\<lambda>out. take (3 - 0) [u8 a, u8 b, u8 c] @ out) (decode_b64_loop make_b64_lookup (encode_b64 s))"
    by (simp only:) (rule decode_b64_loop_group [OF refl], simp)
  with 4 show ?case by simp
qed

lemma decode_b64_encode: "decode_b64 (encode_b64 s) = Inr (map u8 s)"
  by (simp add: decode_b64_def length_encode_b64 decode_b64_loop_encode)

section \<open>Which strings are accepted\<close>

definition b64_good :: "string \<Rightarrow> bool" where
  "b64_good s = (4 dvd length s \<and> list_all (\<lambda>c. c = CHR ''='' \<or> c \<in> set b64_alphabet) s)"

lemma decode_quad_good:
  "list_all (\<lambda>c. c = CHR ''='' \<or> c \<in> set b64_alphabet) cs \<Longrightarrow>
   returns (decode_quad make_b64_lookup cs val pad)"
proof (induction cs arbitrary: val pad)
  case (Cons c cs)
  then show ?case
    by (auto simp: in_set_conv_nth b64_lookup_nth byte_index_not_invalid alphabet_nth_neq_pad Let_def)
qed simp

lemma decode_quad_bad:
  "\<not> list_all (\<lambda>c. c = CHR ''='' \<or> c \<in> set b64_alphabet) cs \<Longrightarrow>
   decode_quad make_b64_lookup cs val pad = Inl (Invalid ''Invalid b64 character'')"
  by (induction cs arbitrary: val pad) (auto simp: b64_lookup_other Let_def)

lemma decode_b64_loop_good:
  "b64_good s \<Longrightarrow> returns (decode_b64_loop make_b64_lookup s)"
proof (induction "make_b64_lookup" s rule: decode_b64_loop.induct)
  case (2 c0 c1 c2 c3 rest)
  then have "returns (decode_quad make_b64_lookup [c0, c1, c2, c3] 0 0)"
    by (intro decode_quad_good) (simp add: b64_good_def)
  then obtain val pad where q: "decode_quad make_b64_lookup [c0, c1, c2, c3] 0 0 = Inr (val, pad)"
    by (auto simp: returns_iff simp del: decode_quad.simps)
  have "b64_good rest" using 2 by (simp add: b64_good_def)
  then obtain out where "decode_b64_loop make_b64_lookup rest = Inr out"
    using "2.hyps" [OF q refl] by (auto simp: returns_iff)
  then show ?case using q by (simp del: decode_quad.simps)
qed (simp_all add: b64_good_def dvd_eq_mod_eq_0)

lemma decode_b64_loop_bad:
  "4 dvd length s \<Longrightarrow> \<not> list_all (\<lambda>c. c = CHR ''='' \<or> c \<in> set b64_alphabet) s \<Longrightarrow>
   decode_b64_loop make_b64_lookup s = Inl (Invalid ''Invalid b64 character'')"
proof (induction "make_b64_lookup" s rule: decode_b64_loop.induct)
  case (2 c0 c1 c2 c3 rest)
  show ?case
  proof (cases "list_all (\<lambda>c. c = CHR ''='' \<or> c \<in> set b64_alphabet) [c0, c1, c2, c3]")
    case True
    then obtain val pad where "decode_quad make_b64_lookup [c0, c1, c2, c3] 0 0 = Inr (val, pad)"
      using decode_quad_good [OF True, of 0 0] by (auto simp: returns_iff)
    moreover have "\<not> list_all (\<lambda>c. c = CHR ''='' \<or> c \<in> set b64_alphabet) rest"
      using "2.prems"(2) True by auto
    then have "decode_b64_loop make_b64_lookup rest = Inl (Invalid ''Invalid b64 character'')"
      using "2.hyps" [OF calculation refl] "2.prems"(1) by simp
    ultimately show ?thesis by simp
  next
    case False
    then show ?thesis using decode_quad_bad [OF False, of 0 0] by simp
  qed
qed (simp_all add: dvd_eq_mod_eq_0)

interpretation b64_codec: codec "\<lambda>bs. encode_b64 (map chr8 bs)" decode_b64 b64_good
proof (unfold_locales, goal_cases)
  case (1 x)
  then show ?case by (simp add: decode_b64_encode comp_def)
next
  case (2 s)
  then show ?case using decode_b64_loop_good [of s] by (auto simp: decode_b64_def b64_good_def)
next
  case (3 s)
  then show ?case
    using decode_b64_loop_bad [of s] by (auto simp: decode_b64_def b64_good_def dvd_eq_mod_eq_0)
qed

text \<open>
  Pad characters are accepted in every position of a group and are only counted, and the
  unused low bits of the last digit are dropped: decoding is not one to one.
\<close>

lemma decode_b64_pad_anywhere:
  "decode_b64 ''=QUI'' = Inr [1, 5]" "decode_b64 ''===='' = Inr []"
  "decode_b64 ''QQ=='' = decode_b64 ''QR==''"
  by code_simp+

section \<open>Properties\<close>

text \<open>
  C26: decoding the base64 encoding of any bytes gives the bytes back, and the encoding has
  four characters for every group of three bytes begun.
\<close>

theorem b64_round_trip:
  "decode_b64 (encode_b64 s) = Inr (map u8 s) \<and> length (encode_b64 s) = 4 * ((length s + 2) div 3)"
  by (simp add: decode_b64_encode length_encode_b64)

text \<open>
  \<^verbatim>\<open>decode_b64\<close> returns exactly on the strings whose length is a multiple of four and
  whose characters are alphabet or pad characters; it accepts pad characters anywhere and
  drops unused bits, so that different strings decode to the same bytes.
\<close>

theorem b64_acceptance:
  "(returns (decode_b64 s) \<longleftrightarrow>
     4 dvd length s \<and> list_all (\<lambda>c. c = CHR ''='' \<or> c \<in> set b64_alphabet) s) \<and>
   decode_b64 ''=QUI'' = Inr [1, 5] \<and> decode_b64 ''===='' = Inr [] \<and>
   decode_b64 ''QQ=='' = decode_b64 ''QR==''"
  using b64_codec.dec_returns_iff [of s] decode_b64_pad_anywhere by (simp add: b64_good_def)

end
