(* ===== verification/Byte_Array.thy ===== *)
theory Byte_Array
  imports Base64
begin

text \<open>
  The class \<^verbatim>\<open>byte_array\<close> of \<^verbatim>\<open>src/src/binary.hpp\<close>. Its only member is a
  \<^verbatim>\<open>std::vector<char>\<close>, so a byte array is the list of its characters; an operation that
  changes it returns the new list. Reads that the vector leaves undefined (an index past the
  end, \<^verbatim>\<open>front\<close>, \<^verbatim>\<open>back\<close> and \<^verbatim>\<open>pop_back\<close> of an empty vector) are \<open>Undefined\<close>.
\<close>

type_synonym byte_array = string

section \<open>Construction\<close>

text \<open>From \<open>sz\<close> bytes at an address, of which \<open>mem\<close> is the memory that follows it.\<close>

definition ba_of_memory :: "string \<Rightarrow> nat \<Rightarrow> byte_array res" where
  "ba_of_memory mem sz = (if sz \<le> length mem then Inr (take sz mem) else Inl Undefined)"

definition ba_new :: byte_array where
  "ba_new = []"

definition ba_of_view :: "string \<Rightarrow> byte_array" where
  "ba_of_view view = view"

text \<open>
  The copies share nothing. Constructing a vector by moving another leaves that empty; an assigned one is
  left in a state that is not specified, an argument.
\<close>

definition ba_copy :: "byte_array \<Rightarrow> byte_array" where
  "ba_copy other = other"

definition ba_move :: "byte_array \<Rightarrow> byte_array \<times> byte_array" where
  "ba_move other = (other, [])"

definition ba_move_assign :: "(byte_array \<Rightarrow> byte_array) \<Rightarrow> byte_array \<Rightarrow> byte_array \<times> byte_array" where
  "ba_move_assign left other = (other, left other)"

definition ba_of_size :: "nat \<Rightarrow> byte_array" where
  "ba_of_size sz = replicate sz CHR 0x00"

definition ba_of_bytes :: "byte list \<Rightarrow> byte_array" where
  "ba_of_bytes bytes = map chr8 bytes"

section \<open>Observers\<close>

definition ba_size :: "byte_array \<Rightarrow> nat" where
  "ba_size b = length b"

text \<open>The memory behind \<open>data\<close>, and the positions of \<open>begin\<close> and \<open>end\<close> in it.\<close>

definition ba_data :: "byte_array \<Rightarrow> string" where
  "ba_data b = b"

definition ba_begin :: "byte_array \<Rightarrow> nat" where
  "ba_begin b = 0"

definition ba_end :: "byte_array \<Rightarrow> nat" where
  "ba_end b = ba_begin b + length b"

definition ba_empty :: "byte_array \<Rightarrow> bool" where
  "ba_empty b = (b = [])"

definition ba_bool :: "byte_array \<Rightarrow> bool" where
  "ba_bool b = (\<not> ba_empty b)"

definition ba_eq :: "byte_array \<Rightarrow> byte_array \<Rightarrow> bool" where
  "ba_eq a b = (a = b)"

definition ba_neq :: "byte_array \<Rightarrow> byte_array \<Rightarrow> bool" where
  "ba_neq a b = (\<not> ba_eq a b)"

definition ba_at :: "byte_array \<Rightarrow> nat \<Rightarrow> char res" where
  "ba_at b i = (if i < length b then Inr (b ! i) else Inl Undefined)"

definition ba_front :: "byte_array \<Rightarrow> char res" where
  "ba_front b = (case b of [] \<Rightarrow> Inl Undefined | c # _ \<Rightarrow> Inr c)"

definition ba_back :: "byte_array \<Rightarrow> char res" where
  "ba_back b = (if b = [] then Inl Undefined else Inr (last b))"

text \<open>
  \<^verbatim>\<open>slice\<close> copies, \<^verbatim>\<open>subview\<close> refers to the same bytes; a view is given by its contents.
  Both default their second argument to the largest \<^verbatim>\<open>size_t\<close>.
\<close>

definition ba_slice :: "byte_array \<Rightarrow> nat \<Rightarrow> nat \<Rightarrow> byte_array res" where
  "ba_slice b start stop =
     (let actual_end = min stop (ba_size b) in
      if start > actual_end then Inl (Range ''Invalid slice range'')
      else Inr (take (actual_end - start) (drop start b)))"

definition ba_subview :: "byte_array \<Rightarrow> nat \<Rightarrow> nat \<Rightarrow> string res" where
  "ba_subview b offset cnt =
     (let actual_end = min (sz_add offset cnt) (ba_size b) in
      if offset > actual_end then Inl (Range ''Invalid subspan range'')
      else Inr (take (actual_end - offset) (drop offset b)))"

section \<open>Changes\<close>

definition ba_append_memory :: "byte_array \<Rightarrow> string \<Rightarrow> nat \<Rightarrow> byte_array res" where
  "ba_append_memory b mem n = (if n \<le> length mem then Inr (b @ take n mem) else Inl Undefined)"

definition ba_append :: "byte_array \<Rightarrow> byte_array \<Rightarrow> byte_array" where
  "ba_append b other = (if \<not> ba_empty other then b @ other else b)"

definition ba_plus_eq :: "byte_array \<Rightarrow> byte_array \<Rightarrow> byte_array" where
  "ba_plus_eq b other = ba_append b other"

definition ba_plus :: "byte_array \<Rightarrow> byte_array \<Rightarrow> byte_array" where
  "ba_plus b other = (let result = b in ba_append result other)"

definition ba_remove_prefix :: "byte_array \<Rightarrow> nat \<Rightarrow> byte_array" where
  "ba_remove_prefix b n = (if n \<ge> length b then [] else drop n b)"

definition ba_remove_suffix :: "byte_array \<Rightarrow> nat \<Rightarrow> byte_array" where
  "ba_remove_suffix b n = (if n \<ge> length b then [] else take (length b - n) b)"

definition ba_swap :: "byte_array \<Rightarrow> byte_array \<Rightarrow> byte_array \<times> byte_array" where
  "ba_swap a b = (b, a)"

definition swap_byte_arrays :: "byte_array \<Rightarrow> byte_array \<Rightarrow> byte_array \<times> byte_array" where
  "swap_byte_arrays a b = ba_swap a b"

definition ba_clear :: "byte_array \<Rightarrow> byte_array" where
  "ba_clear b = []"

definition ba_resize :: "byte_array \<Rightarrow> nat \<Rightarrow> byte_array" where
  "ba_resize b n = take n b @ replicate (n - length b) CHR 0x00"

definition ba_push_back :: "byte_array \<Rightarrow> char \<Rightarrow> byte_array" where
  "ba_push_back b c = b @ [c]"

definition ba_pop_back :: "byte_array \<Rightarrow> byte_array res" where
  "ba_pop_back b = (if b = [] then Inl Undefined else Inr (butlast b))"

definition ba_set :: "byte_array \<Rightarrow> nat \<Rightarrow> char \<Rightarrow> byte_array res" where
  "ba_set b i c = (if i < length b then Inr (b[i := c]) else Inl Undefined)"

definition ba_fill :: "byte_array \<Rightarrow> char \<Rightarrow> byte_array" where
  "ba_fill b v = map (\<lambda>_. v) b"

definition ba_replace :: "byte_array \<Rightarrow> char \<Rightarrow> char \<Rightarrow> byte_array" where
  "ba_replace b from to = map (\<lambda>c. if c = from then to else c) b"

section \<open>Conversions\<close>

definition ba_to_string :: "byte_array \<Rightarrow> string" where
  "ba_to_string b = encode_b64 b"

definition ba_to_hex :: "byte_array \<Rightarrow> string" where
  "ba_to_hex b = encode_hex b"

definition ba_from_hex :: "string \<Rightarrow> byte_array res" where
  "ba_from_hex hex = map_res ba_of_bytes (decode_hex hex)"

definition ba_from_b64 :: "string \<Rightarrow> byte_array res" where
  "ba_from_b64 b64 = map_res ba_of_bytes (decode_b64 b64)"

definition ba_string :: "byte_array \<Rightarrow> string" where
  "ba_string b = ba_to_hex b"

definition ba_view :: "byte_array \<Rightarrow> string" where
  "ba_view b = take (ba_size b) b"

text \<open>
  The overloads of \<^verbatim>\<open>to_byte\<close>. A \<^verbatim>\<open>std::byte\<close> is a byte, as a \<^verbatim>\<open>uint8_t\<close> is; the overloads on
  pointers give another view of the memory they point to, a list here.
\<close>

definition byte_to_u8 :: "byte \<Rightarrow> byte" where
  "byte_to_u8 b = b"

definition u8_to_byte :: "byte \<Rightarrow> byte" where
  "u8_to_byte u = u"

definition char_to_byte :: "char \<Rightarrow> byte" where
  "char_to_byte u = u8 u"

definition u8s_as_bytes :: "byte list \<Rightarrow> byte list" where
  "u8s_as_bytes mem = map u8_to_byte mem"

definition chars_as_u8s :: "string \<Rightarrow> byte list" where
  "chars_as_u8s mem = map u8 mem"

definition bytes_as_u8s :: "byte list \<Rightarrow> byte list" where
  "bytes_as_u8s mem = map byte_to_u8 mem"

lemma to_byte_views:
  "bytes_as_u8s (u8s_as_bytes mem) = mem" "map chr8 (chars_as_u8s s) = s"
  "bytes_as_u8s (map char_to_byte s) = chars_as_u8s s" "ba_of_bytes (chars_as_u8s s) = s"
  by (simp_all add: bytes_as_u8s_def u8s_as_bytes_def byte_to_u8_def u8_to_byte_def chars_as_u8s_def char_to_byte_def
      ba_of_bytes_def o_def)

text \<open>The bytes as \<^verbatim>\<open>uint8_t\<close>.\<close>

definition ba_u8data :: "byte_array \<Rightarrow> byte list" where
  "ba_u8data b = chars_as_u8s b"

text \<open>The free functions, on any object that is a run of bytes.\<close>

definition to_string_of :: "byte_array \<Rightarrow> string" where
  "to_string_of b = ba_to_hex b"

definition to_byte_view :: "string \<Rightarrow> string" where
  "to_byte_view obj = take (length obj) obj"

definition to_b64 :: "string \<Rightarrow> string" where
  "to_b64 obj = encode_b64 (to_byte_view obj)"

definition to_hex :: "string \<Rightarrow> string" where
  "to_hex obj = encode_hex (to_byte_view obj)"

text \<open>\<^verbatim>\<open>std::hash<byte_array>\<close>, over the standard library's hash of a view, an argument.\<close>

definition ba_hash :: "(string \<Rightarrow> nat) \<Rightarrow> byte_array \<Rightarrow> nat" where
  "ba_hash hash_view b = (if \<not> ba_bool b then 0 else hash_view b)"

section \<open>Lemmas\<close>

lemma ba_append_eq [simp]: "ba_append b other = b @ other"
  by (simp add: ba_append_def ba_empty_def)

lemma ba_remove_prefix_eq: "ba_remove_prefix b n = drop n b"
  by (simp add: ba_remove_prefix_def)

lemma ba_remove_suffix_eq: "ba_remove_suffix b n = take (length b - n) b"
  by (simp add: ba_remove_suffix_def)

lemma length_ba_resize [simp]: "length (ba_resize b n) = n"
  by (simp add: ba_resize_def)

lemma ba_from_hex_to_hex: "ba_from_hex (ba_to_hex b) = Inr b"
  by (simp add: ba_from_hex_def ba_to_hex_def decode_hex_encode ba_of_bytes_def)

lemma ba_from_b64_to_string: "ba_from_b64 (ba_to_string b) = Inr b"
  by (simp add: ba_from_b64_def ba_to_string_def decode_b64_encode ba_of_bytes_def)

lemma ba_hash_eq: "ba_eq a b \<Longrightarrow> ba_hash h a = ba_hash h b"
  by (simp add: ba_eq_def)

lemma ba_slice_returns: "returns (ba_slice b start stop) \<longleftrightarrow> start \<le> min stop (length b)"
  by (auto simp: ba_slice_def ba_size_def Let_def)

lemma ba_slice_split:
  assumes "k \<le> length b" and "length b \<le> npos"
  shows "\<exists>x y. ba_slice b 0 k = Inr x \<and> ba_slice b k npos = Inr y \<and> ba_plus x y = b"
  using assms by (simp add: ba_slice_def ba_size_def ba_plus_def min_def)

lemma ba_subview_small:
  "offset + cnt < 2 ^ 64 \<Longrightarrow>
   ba_subview b offset cnt =
     (if offset > length b then Inl (Range ''Invalid subspan range'') else Inr (take cnt (drop offset b)))"
  by (auto simp: ba_subview_def ba_size_def sz_add_small Let_def min_def)

lemma ba_subview_wraps:
  "0 < offset \<Longrightarrow> offset < 2 ^ 64 \<Longrightarrow>
   ba_subview b offset npos = Inl (Range ''Invalid subspan range'')"
  by (auto simp: ba_subview_def sz_add_npos Let_def)

section \<open>Properties\<close>

text \<open>A \<^verbatim>\<open>byte_array\<close> survives its text forms, in hexadecimal and in base64.\<close>

theorem byte_array_text_forms:
  "ba_from_hex (ba_to_hex b) = Inr b \<and> ba_from_b64 (ba_to_string b) = Inr b"
  by (simp add: ba_from_hex_to_hex ba_from_b64_to_string)

text \<open>
  \<^verbatim>\<open>slice\<close> fails exactly when its start is after its clamped end; cutting an array at any
  position and joining the two slices gives the array; \<^verbatim>\<open>subview\<close> takes the bytes it should
  while offset plus count fits a \<^verbatim>\<open>size_t\<close>. With its default count it does not: the sum wraps
  and every positive offset is refused.
\<close>

theorem byte_array_slices:
  assumes "k \<le> length b" and "length b \<le> npos" and "offset + cnt < 2 ^ 64" and "0 < offset"
  shows "(returns (ba_slice b start stop) \<longleftrightarrow> start \<le> min stop (length b))
    \<and> (\<exists>x y. ba_slice b 0 k = Inr x \<and> ba_slice b k npos = Inr y \<and> ba_plus x y = b)
    \<and> ba_subview b offset cnt =
        (if offset > length b then Inl (Range ''Invalid subspan range'') else Inr (take cnt (drop offset b)))
    \<and> ba_subview b offset npos = Inl (Range ''Invalid subspan range'')"
  using ba_slice_returns ba_slice_split [OF assms(1,2)] ba_subview_small [OF assms(3)]
    ba_subview_wraps [OF assms(4), of b] assms(3) by simp

theorem byte_array_slices_witness:
  "ba_subview ''abcd'' 1 2 = Inr ''bc'' \<and> ba_subview ''abcd'' 1 npos = Inl (Range ''Invalid subspan range'')"
  using byte_array_slices [of 2 "''abcd''" 1 2 3 2] by (simp add: npos_def)

end
