(* ===== verification/Atomic_Cells.thy ===== *)
theory Atomic_Cells
  imports Prelude
begin

text \<open>
  The single-word atomics of \<^verbatim>\<open>src/src/atomic.hpp\<close>: \<^verbatim>\<open>sequence_t\<close>, \<^verbatim>\<open>once_t\<close> and
  \<^verbatim>\<open>atomic_ref\<close>. Each member function is one indivisible read-modify-write, so the calls of
  any number of threads take effect as one sequence, and a theorem about every sequence of
  calls is a theorem about every interleaving. Memory orders are not modelled.
\<close>

section \<open>sequence_t\<close>

type_synonym 'w sequence = "'w word"

definition seq_default :: "'w::len sequence" where
  "seq_default = 0"

definition seq_init :: "'w::len word \<Rightarrow> 'w sequence" where
  "seq_init initial = initial"

definition seq_copy :: "'w::len sequence \<Rightarrow> 'w sequence" where
  "seq_copy from = from"

text \<open>\<^verbatim>\<open>operator*\<close> and the conversion to \<open>T\<close>: the value, and the next state.\<close>

definition seq_deref :: "'w::len sequence \<Rightarrow> 'w word \<times> 'w sequence" where
  "seq_deref s = (s, s + 1)"

definition seq_conv :: "'w::len sequence \<Rightarrow> 'w word \<times> 'w sequence" where
  "seq_conv s = (s, s + 1)"

definition seq_set :: "'w::len sequence \<Rightarrow> 'w word \<Rightarrow> 'w sequence" where
  "seq_set s v = v"

text \<open>The values that \<open>n\<close> calls in a row return, whichever threads make them.\<close>

fun seq_draw :: "nat \<Rightarrow> 'w::len sequence \<Rightarrow> 'w word list \<times> 'w sequence" where
  "seq_draw 0 s = ([], s)"
| "seq_draw (Suc n) s =
     (let (v, s1) = seq_deref s; (vs, s2) = seq_draw n s1 in (v # vs, s2))"

lemma seq_draw_eq: "seq_draw n s = (map (\<lambda>i. s + word_of_nat i) [0 ..< n], s + word_of_nat n)"
proof (induction n arbitrary: s)
  case (Suc n)
  have "map (\<lambda>i. s + word_of_nat i) [0 ..< Suc n]
      = s # map (\<lambda>i. s + word_of_nat i) (map Suc [0 ..< n])"
    by (simp add: map_Suc_upt upt_conv_Cons del: upt_Suc)
  also have "map (\<lambda>i. s + word_of_nat i) (map Suc [0 ..< n]) = map (\<lambda>i. s + 1 + word_of_nat i) [0 ..< n]"
    by (simp add: algebra_simps)
  finally show ?case by (simp add: seq_deref_def Suc.IH algebra_simps del: upt_Suc)
qed simp

lemma seq_draw_distinct:
  assumes "n \<le> 2 ^ LENGTH('w)"
  shows "distinct (fst (seq_draw n (s :: 'w::len sequence)))"
proof -
  have "inj_on (\<lambda>i. s + word_of_nat i) {0 ..< n}"
  proof (rule inj_onI)
    fix i j
    assume lt: "i \<in> {0 ..< n}" "j \<in> {0 ..< n}" and "s + word_of_nat i = s + word_of_nat j"
    then have "take_bit LENGTH('w) i = take_bit LENGTH('w) j" by (simp add: word_of_nat_eq_iff)
    moreover have "i < 2 ^ LENGTH('w)" "j < 2 ^ LENGTH('w)" using lt assms by auto
    ultimately show "i = j" by (simp add: take_bit_nat_eq_self)
  qed
  then show ?thesis by (simp add: seq_draw_eq distinct_map)
qed

section \<open>once_t\<close>

type_synonym once = bool

definition once_new :: once where
  "once_new = True"

definition once_bool :: "once \<Rightarrow> bool \<times> once" where
  "once_bool flag = (flag, False)"

definition once_not :: "once \<Rightarrow> bool \<times> once" where
  "once_not flag = (\<not> flag, False)"

definition once_reset :: "once \<Rightarrow> once" where
  "once_reset flag = True"

datatype once_call = Once_bool | Once_not | Once_reset

text \<open>Whether a call learns that it is the first one: \<^verbatim>\<open>true\<close> from the conversion, \<^verbatim>\<open>false\<close> from \<^verbatim>\<open>!\<close>.\<close>

fun once_step :: "once \<Rightarrow> once_call \<Rightarrow> bool \<times> once" where
  "once_step f Once_bool = once_bool f"
| "once_step f Once_not = (let (r, f') = once_not f in (\<not> r, f'))"
| "once_step f Once_reset = (False, once_reset f)"

fun once_run :: "once \<Rightarrow> once_call list \<Rightarrow> nat" where
  "once_run f [] = 0"
| "once_run f (c # cs) = (let (won, f') = once_step f c in (if won then 1 else 0) + once_run f' cs)"

lemma once_run_bound: "once_run f cs \<le> (if f then 1 else 0) + count_list cs Once_reset"
proof (induction cs arbitrary: f)
  case (Cons c cs)
  show ?case using Cons.IH [of False] Cons.IH [of True]
    by (cases c) (auto simp: once_bool_def once_not_def once_reset_def)
qed simp

lemma once_run_exactly_one:
  "Once_reset \<notin> set cs \<Longrightarrow> once_run f cs = (if f \<and> cs \<noteq> [] then 1 else 0)"
proof (induction cs arbitrary: f)
  case (Cons c cs)
  have "once_run False cs = 0" using once_run_bound [of False cs] Cons.prems by simp
  with Cons show ?case by (cases c) (auto simp: once_bool_def once_not_def)
qed simp

section \<open>atomic_ref\<close>

text \<open>
  A reference to an integer cell of \<open>'w\<close> bits, signed or not. The read-modify-writes are
  the compiler's atomic builtins, which wrap; the plain arithmetic that the increment
  operators do on their result follows the integer promotions.
\<close>

definition ref_value :: "bool \<Rightarrow> 'w::len word \<Rightarrow> int" where
  "ref_value sg w = (if sg then sint w else uint w)"

definition promoted :: "bool \<Rightarrow> nat \<Rightarrow> int \<Rightarrow> int res" where
  "promoted sg w x =
     (if w < 32 then Inr x
      else if \<not> sg then Inr (x mod 2 ^ w)
      else if - (2 ^ (w - 1)) \<le> x \<and> x < 2 ^ (w - 1) then Inr x
      else Inl Undefined)"

definition ref_load :: "'w::len word \<Rightarrow> 'w word" where
  "ref_load cell = cell"

definition ref_store :: "'w::len word \<Rightarrow> 'w word \<Rightarrow> 'w word" where
  "ref_store cell value = value"

definition ref_exchange :: "'w::len word \<Rightarrow> 'w word \<Rightarrow> 'w word \<times> 'w word" where
  "ref_exchange cell value = (cell, value)"

text \<open>The result, the new \<^verbatim>\<open>expected\<close> and the new cell.\<close>

definition ref_cas :: "'w::len word \<Rightarrow> 'w word \<Rightarrow> 'w word \<Rightarrow> bool \<times> 'w word \<times> 'w word" where
  "ref_cas cell expected value =
     (if cell = expected then (True, expected, value) else (False, cell, cell))"

definition ref_fetch_add :: "'w::len word \<Rightarrow> 'w word \<Rightarrow> 'w word \<times> 'w word" where
  "ref_fetch_add cell arg = (cell, cell + arg)"

definition ref_fetch_sub :: "'w::len word \<Rightarrow> 'w word \<Rightarrow> 'w word \<times> 'w word" where
  "ref_fetch_sub cell arg = (cell, cell - arg)"

definition ref_pre_inc :: "bool \<Rightarrow> 'w::len word \<Rightarrow> int res \<times> 'w word" where
  "ref_pre_inc sg cell =
     (let (old, cell') = ref_fetch_add cell 1
      in (promoted sg LENGTH('w) (ref_value sg old + 1), cell'))"

definition ref_post_inc :: "'w::len word \<Rightarrow> 'w word \<times> 'w word" where
  "ref_post_inc cell = ref_fetch_add cell 1"

definition ref_pre_dec :: "bool \<Rightarrow> 'w::len word \<Rightarrow> int res \<times> 'w word" where
  "ref_pre_dec sg cell =
     (let (old, cell') = ref_fetch_sub cell 1
      in (promoted sg LENGTH('w) (ref_value sg old - 1), cell'))"

definition ref_post_dec :: "'w::len word \<Rightarrow> 'w word \<times> 'w word" where
  "ref_post_dec cell = ref_fetch_sub cell 1"

definition ref_add_eq :: "'w::len word \<Rightarrow> 'w word \<Rightarrow> 'w word" where
  "ref_add_eq cell value = snd (ref_fetch_add cell value)"

definition ref_sub_eq :: "'w::len word \<Rightarrow> 'w word \<Rightarrow> 'w word" where
  "ref_sub_eq cell value = snd (ref_fetch_sub cell value)"

definition ref_bool :: "'w::len word \<Rightarrow> bool" where
  "ref_bool cell = (ref_load cell \<noteq> 0)"

definition ref_not :: "'w::len word \<Rightarrow> bool" where
  "ref_not cell = (ref_load cell = 0)"

definition ref_eq :: "'w::len word \<Rightarrow> 'w word \<Rightarrow> bool" where
  "ref_eq cell other = (ref_load cell = other)"

definition ref_less :: "bool \<Rightarrow> 'w::len word \<Rightarrow> 'w word \<Rightarrow> bool" where
  "ref_less sg cell other = (ref_value sg (ref_load cell) < ref_value sg other)"

definition ref_less_eq :: "bool \<Rightarrow> 'w::len word \<Rightarrow> 'w word \<Rightarrow> bool" where
  "ref_less_eq sg cell other = (ref_value sg (ref_load cell) \<le> ref_value sg other)"

definition ref_assign :: "'w::len word \<Rightarrow> 'w word \<Rightarrow> 'w word" where
  "ref_assign cell value = ref_store cell value"

definition ref_conv :: "'w::len word \<Rightarrow> 'w word" where
  "ref_conv cell = ref_load cell"

definition ref_ne :: "'w::len word \<Rightarrow> 'w word \<Rightarrow> bool" where
  "ref_ne cell other = (ref_load cell \<noteq> other)"

definition ref_greater :: "bool \<Rightarrow> 'w::len word \<Rightarrow> 'w word \<Rightarrow> bool" where
  "ref_greater sg cell other = (ref_value sg (ref_load cell) > ref_value sg other)"

definition ref_greater_eq :: "bool \<Rightarrow> 'w::len word \<Rightarrow> 'w word \<Rightarrow> bool" where
  "ref_greater_eq sg cell other = (ref_value sg (ref_load cell) \<ge> ref_value sg other)"

lemma ref_value_inj: "ref_value sg v = ref_value sg w \<longleftrightarrow> v = w"
  by (simp add: ref_value_def word_eq_iff_signed [of v w, symmetric] word_uint_eq_iff [of v w, symmetric])

text \<open>The six comparisons agree with each other.\<close>

lemma ref_comparisons:
  "ref_ne c d = (ref_less sg c d \<or> ref_greater sg c d)"
  "ref_less_eq sg c d = (\<not> ref_greater sg c d)"
  "ref_greater_eq sg c d = (ref_greater sg c d \<or> ref_eq c d)"
  using ref_value_inj [of sg c d]
  by (auto simp: ref_ne_def ref_less_def ref_less_eq_def ref_greater_def ref_greater_eq_def ref_eq_def ref_load_def)

lemma ref_order_total:
  "ref_less sg c d \<or> ref_eq c d \<or> ref_less sg d c"
  unfolding ref_less_def ref_eq_def ref_load_def using ref_value_inj [of sg c d] by linarith

text \<open>
  At the width of \<^verbatim>\<open>int\<close> and above, the incremented value that is returned is the one stored,
  unless the addition is undefined. A narrower cell wraps but the returned value does not.
\<close>

lemma ref_pre_inc_unsigned:
  "32 \<le> LENGTH('w) \<Longrightarrow> ref_pre_inc False (cell :: 'w::len word) = (Inr (uint (cell + 1)), cell + 1)"
  by (simp add: ref_pre_inc_def ref_fetch_add_def promoted_def ref_value_def uint_word_ariths)

lemma ref_pre_inc_narrow:
  "ref_pre_inc False (255 :: byte) = (Inr 256, 0)"
  by (simp add: ref_pre_inc_def ref_fetch_add_def promoted_def ref_value_def)

text \<open>A retry loop over \<^verbatim>\<open>compare_exchange_strong\<close> applies its update once whatever \<^verbatim>\<open>expected\<close> was.\<close>

lemma ref_cas_retry:
  "(let (ok, e, c) = ref_cas cell expected (f expected) in
      if ok then c else (let (ok2, e2, c2) = ref_cas c e (f e) in c2)) = f cell"
  by (simp add: ref_cas_def)

section \<open>Properties\<close>

text \<open>
  However the calls of any threads interleave, a \<^verbatim>\<open>sequence_t\<close> of \<open>w\<close> bits gives out
  consecutive values, and no value twice in \<open>2 ^ w\<close> draws.
\<close>

theorem sequence_values:
  assumes "n \<le> 2 ^ LENGTH('w)"
  shows "distinct (fst (seq_draw n (s :: 'w::len sequence)))
    \<and> seq_draw n s = (map (\<lambda>i. s + word_of_nat i) [0 ..< n], s + word_of_nat n)"
  using seq_draw_distinct [OF assms] seq_draw_eq by blast

theorem sequence_values_witness:
  "seq_draw 3 (254 :: 8 word) = ([254, 255, 0], 1)"
  using sequence_values [of 3 "254 :: 8 word"] by (simp add: upt_rec)

text \<open>
  Of any number of tests of a fresh \<^verbatim>\<open>once_t\<close>, by \<^verbatim>\<open>bool\<close> or \<^verbatim>\<open>!\<close> and without \<^verbatim>\<open>reset\<close>,
  exactly one wins; with resets at most one more for each.
\<close>

theorem once_wins_once:
  assumes "Once_reset \<notin> set cs" and "cs \<noteq> []"
  shows "once_run once_new cs = 1 \<and> once_run once_new ds \<le> Suc (count_list ds Once_reset)"
  using once_run_exactly_one [OF assms(1), of once_new] once_run_bound [of once_new ds] assms(2)
  by (simp add: once_new_def)

theorem once_wins_once_witness: "once_run once_new [Once_not, Once_bool, Once_bool] = 1"
  using once_wins_once [of "[Once_not, Once_bool, Once_bool]" "[]"] by simp

text \<open>
  The pre-increment of an unsigned \<^verbatim>\<open>atomic_ref\<close> of 32 bits or more returns the value the
  cell then holds; of a narrower one it returns the promoted sum, which the cell at its
  maximum does not hold; a compare-exchange that failed once succeeds with the value it read.
\<close>

theorem atomic_ref_updates:
  assumes "32 \<le> LENGTH('w::len)"
  shows "ref_pre_inc False (cell :: 'w word) = (Inr (uint (cell + 1)), cell + 1)
    \<and> ref_pre_inc False (255 :: byte) = (Inr 256, 0)
    \<and> (let (ok, e, c) = ref_cas cell expd (f expd) in
         if ok then c else (let (ok2, e2, c2) = ref_cas c e (f e) in c2)) = f cell"
  using ref_pre_inc_unsigned [OF assms] ref_pre_inc_narrow ref_cas_retry [of cell expd f] by simp

theorem atomic_ref_updates_witness: "ref_pre_inc False (41 :: u32) = (Inr 42, 42)"
  using atomic_ref_updates [where cell = "41 :: u32"] by simp

end
