(* ===== verification/Atomic_Stack.thy ===== *)
theory Atomic_Stack
  imports Prelude
begin

text \<open>
  \<^verbatim>\<open>atomic::stack_t\<close> of \<^verbatim>\<open>src/src/atomic.hpp\<close>: an array of \<open>S\<close> slots and a signed 32-bit
  count. \<^verbatim>\<open>count < 0\<close> compares integers; \<^verbatim>\<open>count >= S\<close> and \<^verbatim>\<open>count > S\<close> compare an \<^verbatim>\<open>int\<close>
  with a \<^verbatim>\<open>size_t\<close>, so the count is converted to 64 unsigned bits first and a negative one
  becomes huge. A read or write outside of the array is \<open>Undefined\<close>.
\<close>

section \<open>State and operations\<close>

record 'a stack =
  stk_count :: u32
  stk_data :: "'a list"

definition capacity :: "'a stack \<Rightarrow> nat" where
  "capacity s = length (stk_data s)"

definition as_size :: "u32 \<Rightarrow> nat" where
  "as_size c = unat (scast c :: u64)"

definition stk_new :: "'a list \<Rightarrow> 'a stack" where
  "stk_new data = \<lparr>stk_count = 0, stk_data = data\<rparr>"

definition stk_bool :: "'a stack \<Rightarrow> bool" where
  "stk_bool s = (sint (stk_count s) > 0)"

definition stk_not :: "'a stack \<Rightarrow> bool" where
  "stk_not s = (sint (stk_count s) < 1)"

definition stk_empty :: "'a stack \<Rightarrow> bool" where
  "stk_empty s = (sint (stk_count s) < 1)"

definition stk_full :: "'a stack \<Rightarrow> bool" where
  "stk_full s = (as_size (stk_count s) \<ge> capacity s)"

definition stk_size :: "'a stack \<Rightarrow> nat" where
  "stk_size s =
     (let count = stk_count s in
      if sint count < 0 then 0
      else if as_size count > capacity s then capacity s
      else as_size count)"

definition stk_push :: "'a \<Rightarrow> 'a stack \<Rightarrow> bool \<times> 'a stack" where
  "stk_push item s =
     (let count = stk_count s; s1 = s\<lparr>stk_count := count + 1\<rparr> in
      if as_size count \<ge> capacity s then (False, s1\<lparr>stk_count := stk_count s1 - 1\<rparr>)
      else (True, s1\<lparr>stk_data := (stk_data s1)[as_size count := item]\<rparr>))"

text \<open>\<^verbatim>\<open>pull\<close> reports success and writes through its argument; \<^verbatim>\<open>pop\<close> returns an optional.\<close>

definition stk_pull :: "'a stack \<Rightarrow> 'a option res \<times> 'a stack" where
  "stk_pull s =
     (let count = stk_count s; s1 = s\<lparr>stk_count := count - 1\<rparr> in
      if sint count < 0 then (Inr None, s1\<lparr>stk_count := stk_count s1 + 1\<rparr>)
      else if as_size count < capacity s then (Inr (Some (stk_data s ! as_size count)), s1)
      else (Inl Undefined, s1))"

definition stk_pop :: "'a stack \<Rightarrow> 'a option res \<times> 'a stack" where
  "stk_pop s =
     (let count = stk_count s; s1 = s\<lparr>stk_count := count - 1\<rparr> in
      if sint count < 0 then (Inr None, s1\<lparr>stk_count := stk_count s1 + 1\<rparr>)
      else if as_size count < capacity s then (Inr (Some (stk_data s ! as_size count)), s1)
      else (Inl Undefined, s1))"

text \<open>The operators \<^verbatim>\<open>*\<close> and \<^verbatim>\<open><=\<close>.\<close>

definition stk_deref :: "'a stack \<Rightarrow> 'a option res \<times> 'a stack" where
  "stk_deref s = stk_pop s"

definition stk_put :: "'a stack \<Rightarrow> 'a \<Rightarrow> bool \<times> 'a stack" where
  "stk_put s item = stk_push item s"

section \<open>The conversion of the count\<close>

lemma as_size_of_nat: "n < 2 ^ 31 \<Longrightarrow> as_size (word_of_nat n) = n"
proof -
  assume n: "n < 2 ^ 31"
  then have "sint (word_of_nat n :: u32) = int n"
    by (simp add: sint_uint uint_nat unat_of_nat signed_take_bit_int_eq_self)
  then have "scast (word_of_nat n :: u32) = (word_of_nat n :: u64)"
    by (metis of_int_of_nat_eq of_int_sint)
  then show ?thesis using n by (simp add: as_size_def unat_of_nat)
qed

lemma sint_of_nat: "n < 2 ^ 31 \<Longrightarrow> sint (word_of_nat n :: u32) = int n"
  by (simp add: sint_uint uint_nat unat_of_nat signed_take_bit_int_eq_self)

lemma as_size_minus_1: "as_size (- 1) = 2 ^ 64 - 1"
  by (simp add: as_size_def unsigned_minus_1_eq_mask mask_eq_exp_minus_1)

section \<open>Pushing\<close>

text \<open>Holding \<open>n\<close> items, in the array's first \<open>n\<close> slots.\<close>

definition holds :: "'a stack \<Rightarrow> 'a list \<Rightarrow> bool" where
  "holds s xs = (stk_count s = word_of_nat (length xs) \<and> length xs \<le> capacity s
     \<and> capacity s < 2 ^ 31 \<and> take (length xs) (stk_data s) = xs)"

lemma holds_new: "length data < 2 ^ 31 \<Longrightarrow> holds (stk_new data) []"
  by (simp add: holds_def stk_new_def capacity_def)

lemma push_room:
  assumes "holds s xs" and "length xs < capacity s"
  shows "\<exists>s'. stk_push x s = (True, s') \<and> holds s' (xs @ [x]) \<and> capacity s' = capacity s"
proof -
  have c: "as_size (stk_count s) = length xs" "stk_count s = word_of_nat (length xs)"
    using assms by (auto simp: holds_def as_size_of_nat)
  have "take (Suc (length xs)) ((stk_data s)[length xs := x]) = xs @ [x]"
    using assms by (simp add: holds_def capacity_def take_Suc_conv_app_nth)
  then show ?thesis
    using assms c by (simp add: stk_push_def holds_def capacity_def Let_def)
qed

lemma push_full:
  assumes "holds s xs" and "length xs = capacity s"
  shows "stk_push x s = (False, s)"
proof -
  have "as_size (stk_count s) = capacity s" using assms by (auto simp: holds_def as_size_of_nat)
  then show ?thesis by (simp add: stk_push_def Let_def)
qed

fun push_all :: "'a list \<Rightarrow> 'a stack \<Rightarrow> bool list \<times> 'a stack" where
  "push_all [] s = ([], s)"
| "push_all (x # xs) s = (let (ok, s1) = stk_push x s; (oks, s2) = push_all xs s1 in (ok # oks, s2))"

lemma push_all_holds:
  assumes "holds s ys"
  shows "\<exists>s'. push_all xs s =
      (map (\<lambda>i. length ys + i < capacity s) [0 ..< length xs], s')
    \<and> holds s' (ys @ take (capacity s - length ys) xs) \<and> capacity s' = capacity s"
  using assms
proof (induction xs arbitrary: s ys)
  case (Cons x xs)
  have upt: "map f [0 ..< Suc n] = f 0 # map (f \<circ> Suc) [0 ..< n]" for f :: "nat \<Rightarrow> bool" and n
    by (simp add: upt_conv_Cons map_Suc_upt [symmetric] del: upt_Suc)
  show ?case
  proof (cases "length ys < capacity s")
    case True
    then obtain s1 where s1: "stk_push x s = (True, s1)" "holds s1 (ys @ [x])" "capacity s1 = capacity s"
      using push_room [OF Cons.prems] by blast
    obtain s2 where "push_all xs s1 = (map (\<lambda>i. length (ys @ [x]) + i < capacity s1) [0 ..< length xs], s2)"
        "holds s2 ((ys @ [x]) @ take (capacity s1 - length (ys @ [x])) xs)" "capacity s2 = capacity s1"
      using Cons.IH [OF s1(2)] by blast
    moreover have "take (capacity s - length ys) (x # xs) = x # take (capacity s - Suc (length ys)) xs"
      using True by (simp add: take_Cons' Suc_diff_Suc [symmetric])
    ultimately show ?thesis using s1 True by (simp add: upt comp_def del: upt_Suc)
  next
    case False
    then have "length ys = capacity s" using Cons.prems by (simp add: holds_def)
    then show ?thesis
      using push_full [OF Cons.prems] Cons.IH [OF Cons.prems] by (auto simp: upt comp_def simp del: upt_Suc)
  qed
qed simp

section \<open>Popping\<close>

text \<open>
  \<^verbatim>\<open>fetch_sub\<close> returns the count before the subtraction, and that number is used as the
  index: the slot read is the one above the top item, or past the array when it is full.
\<close>

lemma pop_reads_above_top:
  assumes "holds s xs"
  shows "fst (stk_pop s) =
    (if length xs < capacity s then Inr (Some (stk_data s ! length xs)) else Inl Undefined)"
proof -
  have len: "length xs < 2 ^ 31" using assms by (auto simp: holds_def)
  have c: "stk_count s = word_of_nat (length xs)" using assms by (simp add: holds_def)
  show ?thesis by (simp add: stk_pop_def c sint_of_nat [OF len] as_size_of_nat [OF len] Let_def)
qed

lemma pull_is_pop: "stk_pull s = stk_pop s"
  by (simp add: stk_pull_def stk_pop_def)

text \<open>A pop of the empty stack succeeds, and leaves a count of -1 from which nothing recovers.\<close>

definition dead :: "'a stack \<Rightarrow> bool" where
  "dead s = (stk_count s = - 1 \<and> capacity s < 2 ^ 64)"

lemma pop_empty_dies:
  assumes "holds s []" and "0 < capacity s"
  shows "fst (stk_pop s) = Inr (Some (stk_data s ! 0))" and "dead (snd (stk_pop s))"
proof -
  have c: "stk_count s = 0" using assms by (simp add: holds_def)
  have z: "as_size 0 = 0" using as_size_of_nat [of 0] by simp
  show "fst (stk_pop s) = Inr (Some (stk_data s ! 0))"
    using assms(2) by (simp add: stk_pop_def c z Let_def)
  show "dead (snd (stk_pop s))"
    using assms by (simp add: stk_pop_def c z Let_def dead_def capacity_def holds_def)
qed

datatype 'a stack_call = Push 'a | Pull | Pop

fun stk_step :: "'a stack_call \<Rightarrow> 'a stack \<Rightarrow> bool \<times> 'a stack" where
  "stk_step (Push x) s = stk_push x s"
| "stk_step Pull s = (let (r, s') = stk_pull s in (r \<noteq> Inr None, s'))"
| "stk_step Pop s = (let (r, s') = stk_pop s in (r \<noteq> Inr None, s'))"

fun stk_run :: "'a stack_call list \<Rightarrow> 'a stack \<Rightarrow> bool list \<times> 'a stack" where
  "stk_run [] s = ([], s)"
| "stk_run (c # cs) s = (let (ok, s1) = stk_step c s; (oks, s2) = stk_run cs s1 in (ok # oks, s2))"

lemma dead_step: "dead s \<Longrightarrow> stk_step c s = (False, s)"
  by (cases c) (auto simp: dead_def stk_push_def stk_pull_def stk_pop_def as_size_minus_1 Let_def)

lemma dead_run: "dead s \<Longrightarrow> stk_run cs s = (replicate (length cs) False, s)"
  by (induction cs) (simp_all add: dead_step)

lemma dead_full_and_empty: "dead s \<Longrightarrow> stk_full s \<and> stk_empty s \<and> stk_size s = 0"
  by (auto simp: dead_def stk_full_def stk_empty_def stk_size_def as_size_minus_1 Let_def)

lemma stk_size_bound: "stk_size s \<le> capacity s"
  by (simp add: stk_size_def Let_def)

lemma stk_size_holds: "holds s xs \<Longrightarrow> stk_size s = length xs"
proof -
  assume h: "holds s xs"
  then have len: "length xs < 2 ^ 31" by (auto simp: holds_def)
  from h show ?thesis
    by (simp add: stk_size_def holds_def sint_of_nat [OF len] as_size_of_nat [OF len] Let_def)
qed

section \<open>Properties\<close>

text \<open>
  Pushes on a new \<^verbatim>\<open>stack_t\<close> succeed while there is room, fail afterwards and then change
  nothing; the array holds the accepted items from the bottom up, and \<^verbatim>\<open>size\<close> counts them.
\<close>

theorem stack_pushes:
  assumes "length data < 2 ^ 31"
  shows "\<exists>s. push_all xs (stk_new data) = (map (\<lambda>i. i < length data) [0 ..< length xs], s)
    \<and> take (length (take (length data) xs)) (stk_data s) = take (length data) xs
    \<and> stk_size s = length (take (length data) xs)"
proof -
  have "capacity (stk_new data) = length data" by (simp add: stk_new_def capacity_def)
  then obtain s where "push_all xs (stk_new data) = (map (\<lambda>i. i < length data) [0 ..< length xs], s)"
      and h: "holds s (take (length data) xs)"
    using push_all_holds [OF holds_new [OF assms], of xs] by auto
  moreover have "stk_size s = length (take (length data) xs)" by (rule stk_size_holds [OF h])
  ultimately show ?thesis using h by (auto simp: holds_def)
qed

theorem stack_pushes_witness:
  "\<exists>s. push_all [1, 2, 3, 4] (stk_new [0, 0, 0 :: nat]) = ([True, True, True, False], s) \<and> stk_size s = 3"
  using stack_pushes [of "[0, 0, 0 :: nat]" "[1, 2, 3, 4]"] by (auto simp: upt_rec)

text \<open>
  \<^verbatim>\<open>pop\<close> and \<^verbatim>\<open>pull\<close> use the count before the decrement as their index: on a stack that
  holds some items they return the slot above the top one, read past the array when the
  stack is full, and succeed on an empty stack, after which every call fails for ever.
\<close>

theorem stack_pop_misses_top:
  assumes "holds s xs" and "holds e []" and "0 < capacity e"
  shows "stk_pull s = stk_pop s
    \<and> fst (stk_pop s) = (if length xs < capacity s then Inr (Some (stk_data s ! length xs)) else Inl Undefined)
    \<and> fst (stk_pop e) = Inr (Some (stk_data e ! 0))
    \<and> fst (stk_run cs (snd (stk_pop e))) = replicate (length cs) False"
  using pull_is_pop [of s] pop_reads_above_top [OF assms(1)] pop_empty_dies [OF assms(2,3)] dead_run [of _ cs]
  by simp

theorem stack_pop_misses_top_witness:
  "fst (stk_pop (stk_new [7, 8, 9 :: nat])) = Inr (Some 7) \<and>
   fst (stk_run [Push 1, Pop] (snd (stk_pop (stk_new [7, 8, 9 :: nat])))) = [False, False]"
  using stack_pop_misses_top [OF holds_new holds_new, of "[7, 8, 9 :: nat]" "[7, 8, 9 :: nat]" "[Push 1, Pop]"]
  by (simp add: capacity_def stk_new_def del: stk_run.simps)

end
