(* ===== verification/Fifo_Contract.thy ===== *)
theory Fifo_Contract
  imports Prelude
begin

text \<open>
  What a first-in first-out container of bounded size promises: each call adds some values
  at the back and takes some from the front. The lemmas follow the values through any
  sequence of calls; \<open>Pipeline\<close> and \<open>Atomic_Ring\<close> interpret the locale.
\<close>

locale fifo =
  fixes inv :: "'s \<Rightarrow> bool"
    and items :: "'s \<Rightarrow> 'a list"
    and bound :: "'s \<Rightarrow> nat"
    and act :: "'c \<Rightarrow> 's \<Rightarrow> 's"
    and added :: "'c \<Rightarrow> 's \<Rightarrow> 'a list"
    and removed :: "'c \<Rightarrow> 's \<Rightarrow> 'a list"
  assumes act_inv: "inv s \<Longrightarrow> inv (act c s)"
    and act_bound: "inv s \<Longrightarrow> bound (act c s) = bound s"
    and act_items: "inv s \<Longrightarrow> items s @ added c s = removed c s @ items (act c s)"
    and items_bound: "inv s \<Longrightarrow> length (items s) \<le> bound s"
begin

fun all_added :: "'c list \<Rightarrow> 's \<Rightarrow> 'a list" where
  "all_added [] s = []"
| "all_added (c # cs) s = added c s @ all_added cs (act c s)"

fun all_removed :: "'c list \<Rightarrow> 's \<Rightarrow> 'a list" where
  "all_removed [] s = []"
| "all_removed (c # cs) s = removed c s @ all_removed cs (act c s)"

lemma run_inv: "inv s \<Longrightarrow> inv (fold act cs s)"
  by (induction cs arbitrary: s) (simp_all add: act_inv)

lemma run_bound: "inv s \<Longrightarrow> bound (fold act cs s) = bound s"
  by (induction cs arbitrary: s) (simp_all add: act_inv act_bound)

lemma run_items: "inv s \<Longrightarrow> items s @ all_added cs s = all_removed cs s @ items (fold act cs s)"
proof (induction cs arbitrary: s)
  case (Cons c cs)
  have "items s @ all_added (c # cs) s = removed c s @ items (act c s) @ all_added cs (act c s)"
    using act_items [OF Cons.prems, of c] by simp
  then show ?case using Cons.IH [OF act_inv [OF Cons.prems]] by simp
qed simp

text \<open>From an empty container: what left is a prefix of what came in, in the same order.\<close>

lemma run_from_empty:
  assumes "inv s" and "items s = []"
  shows "all_added cs s = all_removed cs s @ items (fold act cs s)"
    and "length (all_added cs s) \<le> length (all_removed cs s) + bound s"
  using run_items [OF assms(1), of cs] items_bound [OF run_inv [OF assms(1)], of cs]
    run_bound [OF assms(1), of cs] assms(2) by simp_all

lemma run_once:
  assumes "inv s" and "items s = []" and "distinct (all_added cs s)"
  shows "distinct (all_removed cs s) \<and> set (all_removed cs s) \<inter> set (items (fold act cs s)) = {}"
  using run_from_empty(1) [OF assms(1,2), of cs] assms(3) by simp

end

end
