(* ===== verification/Atomic_Ring.thy ===== *)
theory Atomic_Ring
  imports Fifo_Contract
begin

text \<open>
  \<^verbatim>\<open>atomic::buffer_t\<close> of \<^verbatim>\<open>src/src/atomic.hpp\<close>: a ring of \<open>S\<close> slots with a head and a
  tail index below \<open>S\<close>, one slot always free. The indices are unsigned 32-bit numbers that
  stay below \<open>S\<close>, so they are \<open>nat\<close>. Both \<^verbatim>\<open>pull\<close> and \<^verbatim>\<open>pop\<close> compute the advanced head
  in a local variable and then store the unchanged tail; \<^verbatim>\<open>pop\<close> returns the local index
  where an item is expected, through \<open>T\<close>'s conversion from \<^verbatim>\<open>unsigned\<close>, an argument.
\<close>

section \<open>State and operations\<close>

record 'a ring =
  rg_head :: nat
  rg_tail :: nat
  rg_data :: "'a list"

definition rg_new :: "'a list \<Rightarrow> 'a ring" where
  "rg_new data = \<lparr>rg_head = 0, rg_tail = 0, rg_data = data\<rparr>"

definition rg_next :: "nat \<Rightarrow> nat \<Rightarrow> nat" where
  "rg_next S i = (if Suc i \<ge> S then Suc i - S else Suc i)"

definition rg_bool :: "'a ring \<Rightarrow> bool" where
  "rg_bool r = (rg_head r \<noteq> rg_tail r)"

definition rg_not :: "'a ring \<Rightarrow> bool" where
  "rg_not r = (rg_head r = rg_tail r)"

definition rg_empty :: "'a ring \<Rightarrow> bool" where
  "rg_empty r = (rg_head r = rg_tail r)"

definition rg_full :: "'a ring \<Rightarrow> bool" where
  "rg_full r = (rg_next (length (rg_data r)) (rg_tail r) = rg_head r)"

definition rg_push :: "'a \<Rightarrow> 'a ring \<Rightarrow> bool \<times> 'a ring" where
  "rg_push item r =
     (let tail = rg_tail r; nxt = rg_next (length (rg_data r)) tail; head = rg_head r in
      if nxt = head then (False, r)
      else (True, r\<lparr>rg_data := (rg_data r)[tail := item], rg_tail := nxt\<rparr>))"

definition rg_pull :: "'a ring \<Rightarrow> 'a option \<times> 'a ring" where
  "rg_pull r =
     (let head = rg_head r; tail = rg_tail r in
      if head = tail then (None, r)
      else let item = rg_data r ! head; head = rg_next (length (rg_data r)) head
        in (Some item, r\<lparr>rg_tail := tail\<rparr>))"

definition rg_pop :: "(nat \<Rightarrow> 'a) \<Rightarrow> 'a ring \<Rightarrow> 'a option \<times> 'a ring" where
  "rg_pop of_unsigned r =
     (let head = rg_head r; tail = rg_tail r in
      if head = tail then (None, r)
      else let item = rg_data r ! head; head = rg_next (length (rg_data r)) head
        in (Some (of_unsigned head), r\<lparr>rg_tail := tail\<rparr>))"

text \<open>The operators \<^verbatim>\<open>*\<close> and \<^verbatim>\<open><=\<close>.\<close>

definition rg_deref :: "(nat \<Rightarrow> 'a) \<Rightarrow> 'a ring \<Rightarrow> 'a option \<times> 'a ring" where
  "rg_deref of_unsigned r = rg_pop of_unsigned r"

definition rg_put :: "'a ring \<Rightarrow> 'a \<Rightarrow> bool \<times> 'a ring" where
  "rg_put r item = rg_push item r"

section \<open>Invariant and contents\<close>

definition rg_wf :: "'a ring \<Rightarrow> bool" where
  "rg_wf r = (rg_head r < length (rg_data r) \<and> rg_tail r < length (rg_data r))"

definition rg_used :: "'a ring \<Rightarrow> nat" where
  "rg_used r = (rg_tail r + length (rg_data r) - rg_head r) mod length (rg_data r)"

definition rg_items :: "'a ring \<Rightarrow> 'a list" where
  "rg_items r = window (rg_data r) (rg_head r) (rg_used r)"

lemma rg_next_mod: "i < S \<Longrightarrow> rg_next S i = Suc i mod S"
  by (auto simp: rg_next_def le_Suc_eq)

lemma rg_next_lt: "i < S \<Longrightarrow> rg_next S i < S"
  by (simp add: rg_next_mod)

lemma rg_wf_new: "0 < length data \<Longrightarrow> rg_wf (rg_new data)"
  by (auto simp: rg_wf_def rg_new_def)

lemma rg_items_new [simp]: "rg_items (rg_new data) = []"
  by (simp add: rg_items_def rg_used_def rg_new_def)

lemma rg_wf_nonempty: "rg_wf r \<Longrightarrow> rg_data r \<noteq> []"
  by (auto simp: rg_wf_def)

lemma rg_used_lt: "rg_wf r \<Longrightarrow> rg_used r < length (rg_data r)"
  by (simp add: rg_used_def rg_wf_nonempty)

lemma length_rg_items [simp]: "length (rg_items r) = rg_used r"
  by (simp add: rg_items_def)

lemma rg_tail_used:
  assumes "rg_wf r"
  shows "(rg_head r + rg_used r) mod length (rg_data r) = rg_tail r"
proof -
  have "(rg_head r + rg_used r) mod length (rg_data r)
      = (rg_head r + (rg_tail r + length (rg_data r) - rg_head r)) mod length (rg_data r)"
    by (simp add: rg_used_def mod_add_right_eq)
  also have "\<dots> = rg_tail r" using assms by (simp add: rg_wf_def)
  finally show ?thesis .
qed

lemma rg_used_unique:
  assumes "rg_wf r" and "(rg_head r + n) mod length (rg_data r) = rg_tail r" and "n < length (rg_data r)"
  shows "rg_used r = n"
  using ring_offset_inj [of "rg_head r" "rg_used r" "length (rg_data r)" n]
    rg_tail_used [OF assms(1)] rg_used_lt [OF assms(1)] assms by simp

lemma rg_next_tail:
  "rg_wf r \<Longrightarrow> rg_next (length (rg_data r)) (rg_tail r)
     = (rg_head r + Suc (rg_used r)) mod length (rg_data r)"
  using rg_tail_used [of r] mod_Suc_eq [of "rg_head r + rg_used r" "length (rg_data r)"]
  by (simp add: rg_wf_def rg_next_mod)

lemma rg_full_iff:
  assumes "rg_wf r"
  shows "rg_full r \<longleftrightarrow> Suc (rg_used r) = length (rg_data r)"
proof
  assume "rg_full r"
  then have eq: "(rg_head r + Suc (rg_used r)) mod length (rg_data r)
      = (rg_head r + 0) mod length (rg_data r)"
    using assms by (simp add: rg_full_def rg_next_tail) (simp add: rg_wf_def)
  show "Suc (rg_used r) = length (rg_data r)"
  proof (rule ccontr)
    assume "Suc (rg_used r) \<noteq> length (rg_data r)"
    then have "Suc (rg_used r) < length (rg_data r)" using rg_used_lt [OF assms] by simp
    then show False using ring_offset_inj [OF eq] rg_wf_nonempty [OF assms] by simp
  qed
next
  assume "Suc (rg_used r) = length (rg_data r)"
  then show "rg_full r" using assms by (simp add: rg_full_def rg_next_tail) (simp add: rg_wf_def)
qed

section \<open>Pushing\<close>

lemma rg_push_room:
  assumes "rg_wf r" and "\<not> rg_full r"
  shows "\<exists>r'. rg_push x r = (True, r') \<and> rg_wf r' \<and> rg_items r' = rg_items r @ [x]
     \<and> rg_head r' = rg_head r \<and> length (rg_data r') = length (rg_data r)"
proof -
  let ?S = "length (rg_data r)"
  let ?r = "r\<lparr>rg_data := (rg_data r)[rg_tail r := x], rg_tail := rg_next ?S (rg_tail r)\<rparr>"
  have push: "rg_push x r = (True, ?r)"
    using assms(2) by (simp add: rg_push_def rg_full_def Let_def)
  have wf: "rg_wf ?r" using assms(1) by (simp add: rg_wf_def rg_next_lt)
  have lt: "Suc (rg_used r) < ?S"
    using rg_full_iff [OF assms(1)] rg_used_lt [OF assms(1)] assms(2) by simp
  have used: "rg_used ?r = Suc (rg_used r)"
    using rg_used_unique [OF wf, of "Suc (rg_used r)"] lt rg_next_tail [OF assms(1)] by simp
  have "rg_items ?r = window ((rg_data r)[(rg_head r + rg_used r) mod ?S := x]) (rg_head r) (Suc (rg_used r))"
    by (simp add: rg_items_def used rg_tail_used [OF assms(1)])
  also have "\<dots> = rg_items r @ [x]"
    using lt by (simp add: window_push rg_items_def)
  finally show ?thesis using push wf by simp
qed

lemma rg_push_full: "rg_full r \<Longrightarrow> rg_push x r = (False, r)"
  by (simp add: rg_push_def rg_full_def Let_def)

section \<open>Pulling\<close>

lemma rg_pull_state: "snd (rg_pull r) = r" and rg_pop_state: "snd (rg_pop f r) = r"
  by (simp_all add: rg_pull_def rg_pop_def Let_def)

lemma rg_empty_iff: "rg_wf r \<Longrightarrow> rg_empty r \<longleftrightarrow> rg_items r = []"
proof -
  assume wf: "rg_wf r"
  have "rg_items r = [] \<longleftrightarrow> rg_used r = 0" by (metis length_0_conv length_rg_items)
  also have "\<dots> \<longleftrightarrow> rg_head r = rg_tail r"
    using rg_tail_used [OF wf] rg_used_unique [OF wf, of 0] wf rg_wf_nonempty [OF wf]
    by (auto simp: rg_wf_def)
  finally show ?thesis by (simp add: rg_empty_def)
qed

lemma rg_pull_first:
  assumes "rg_wf r"
  shows "fst (rg_pull r) = (case rg_items r of [] \<Rightarrow> None | x # _ \<Rightarrow> Some x)"
proof (cases "rg_items r")
  case Nil
  then show ?thesis using rg_empty_iff [OF assms] by (simp add: rg_pull_def rg_empty_def Let_def)
next
  case (Cons x xs)
  then have ne: "rg_head r \<noteq> rg_tail r" using rg_empty_iff [OF assms] by (simp add: rg_empty_def)
  from Cons have "rg_used r = Suc (length xs)" by (metis length_Cons length_rg_items)
  then have "x = rg_data r ! rg_head r"
    using Cons assms window_Cons [of "rg_data r" "rg_head r" "length xs"]
    by (auto simp: rg_items_def rg_wf_def rg_wf_nonempty [OF assms])
  then show ?thesis using Cons ne by (simp add: rg_pull_def Let_def)
qed

section \<open>Sequences of calls\<close>

datatype 'a ring_call = RPush 'a | RPull | RPop

fun rg_step :: "(nat \<Rightarrow> 'a) \<Rightarrow> 'a ring_call \<Rightarrow> 'a ring \<Rightarrow> 'a ring" where
  "rg_step f (RPush x) r = snd (rg_push x r)"
| "rg_step f RPull r = snd (rg_pull r)"
| "rg_step f RPop r = snd (rg_pop f r)"

definition pushed :: "'a ring_call list \<Rightarrow> 'a list" where
  "pushed cs = List.concat (map (\<lambda>c. case c of RPush x \<Rightarrow> [x] | _ \<Rightarrow> []) cs)"

lemma pushed_simps [simp]:
  "pushed [] = []" "pushed (RPush x # cs) = x # pushed cs" "pushed (RPull # cs) = pushed cs"
  "pushed (RPop # cs) = pushed cs"
  by (simp_all add: pushed_def)

text \<open>After any calls the ring holds the first \<open>S - 1\<close> items ever pushed: nothing leaves it.\<close>

lemma rg_run_items:
  assumes "rg_wf r"
  shows "rg_wf (fold (rg_step f) cs r)
    \<and> rg_items (fold (rg_step f) cs r) = take (length (rg_data r) - 1) (rg_items r @ pushed cs)
    \<and> length (rg_data (fold (rg_step f) cs r)) = length (rg_data r)"
  using assms
proof (induction cs arbitrary: r)
  case Nil
  then show ?case using rg_used_lt [OF Nil] by simp
next
  case (Cons c cs)
  show ?case
  proof (cases c)
    case (RPush x)
    show ?thesis
    proof (cases "rg_full r")
      case True
      then have "length (rg_items r) = length (rg_data r) - 1"
        using rg_full_iff [OF Cons.prems] by simp
      then show ?thesis
        using Cons RPush rg_push_full [OF True] by (simp add: take_append)
    next
      case False
      then obtain r' where "rg_push x r = (True, r')" "rg_wf r'" "rg_items r' = rg_items r @ [x]"
          "length (rg_data r') = length (rg_data r)"
        using rg_push_room [OF Cons.prems] by blast
      then show ?thesis using Cons.IH [of r'] RPush by simp
    qed
  qed (use Cons in \<open>simp_all add: rg_pull_state rg_pop_state\<close>)
qed

section \<open>The ring as a container that only fills\<close>

definition rg_added :: "'a ring_call \<Rightarrow> 'a ring \<Rightarrow> 'a list" where
  "rg_added c r = (case c of RPush x \<Rightarrow> if fst (rg_push x r) then [x] else [] | _ \<Rightarrow> [])"

lemma rg_step_keeps:
  assumes "rg_wf r"
  shows "rg_wf (rg_step f c r)" and "length (rg_data (rg_step f c r)) = length (rg_data r)"
    and "rg_items r @ rg_added c r = rg_items (rg_step f c r)"
proof -
  have "rg_wf (rg_step f c r) \<and> length (rg_data (rg_step f c r)) = length (rg_data r)
    \<and> rg_items r @ rg_added c r = rg_items (rg_step f c r)"
  proof (cases c)
    case (RPush x)
    then show ?thesis
      using assms rg_push_full [of r x] rg_push_room [OF assms, of x]
      by (cases "rg_full r") (auto simp: rg_added_def)
  qed (use assms in \<open>simp_all add: rg_pull_state rg_pop_state rg_added_def\<close>)
  then show "rg_wf (rg_step f c r)" and "length (rg_data (rg_step f c r)) = length (rg_data r)"
    and "rg_items r @ rg_added c r = rg_items (rg_step f c r)" by simp_all
qed

interpretation ring_fifo: fifo rg_wf rg_items "\<lambda>r. length (rg_data r) - 1" "rg_step f" rg_added "\<lambda>_ _. []"
  for f :: "nat \<Rightarrow> 'a"
  by unfold_locales (use rg_used_lt in \<open>force simp: rg_step_keeps\<close>)+

section \<open>Properties\<close>

text \<open>
  \<^verbatim>\<open>pull\<close> and \<^verbatim>\<open>pop\<close> of \<^verbatim>\<open>buffer_t\<close> store the tail back instead of the advanced head, so
  nothing ever leaves: after any calls a new buffer of \<open>S\<close> slots holds the first \<open>S - 1\<close>
  items that were pushed, and each pull returns the oldest of them again.
\<close>

theorem ring_never_empties:
  assumes "0 < length data"
  shows "rg_items (fold (rg_step f) cs (rg_new data)) = take (length data - 1) (pushed cs)
    \<and> fst (rg_pull (fold (rg_step f) cs (rg_new data))) =
        (case take (length data - 1) (pushed cs) of [] \<Rightarrow> None | x # _ \<Rightarrow> Some x)
    \<and> snd (rg_pull r) = r \<and> snd (rg_pop f r) = r"
proof -
  have run: "rg_wf (fold (rg_step f) cs (rg_new data))"
    "rg_items (fold (rg_step f) cs (rg_new data)) = take (length data - 1) (pushed cs)"
    using rg_run_items [OF rg_wf_new [OF assms], of f cs] rg_items_new [of data]
    by (simp_all only: append_Nil) (simp add: rg_new_def)
  then show ?thesis using rg_pull_first [OF run(1)] by (simp add: rg_pull_state rg_pop_state)
qed

theorem ring_never_empties_witness:
  "fst (rg_pull (fold (rg_step id) [RPush 4, RPull, RPush 5, RPush 6] (rg_new [0, 0, 0 :: nat]))) = Some 4"
  using ring_never_empties [of "[0, 0, 0 :: nat]" id "[RPush 4, RPull, RPush 5, RPush 6]"] by (simp add: rg_pull_state)

end
