(* ===== verification/Map_Contract.thy ===== *)
theory Map_Contract
  imports Prelude
begin

text \<open>
  What a keyed container with assignment and removal promises: its lookup function behaves
  as a finite map, and its size is the number of keys. The lemmas say what any script of
  calls leaves behind; \<open>Dictionary\<close> interprets the locale on the library's dictionary.
\<close>

datatype ('k, 'v) map_call = Assign 'k 'v | Remove 'k

fun call_map :: "('k, 'v) map_call \<Rightarrow> ('k \<rightharpoonup> 'v) \<Rightarrow> ('k \<rightharpoonup> 'v)" where
  "call_map (Assign k v) m = m(k \<mapsto> v)"
| "call_map (Remove k) m = m(k := None)"

lemma finite_call_map: "finite (dom m) \<Longrightarrow> finite (dom (call_map c m))"
  by (cases c) auto

lemma dom_call_map: "dom (call_map c m) \<subseteq> dom m \<union> (case c of Assign k _ \<Rightarrow> {k} | Remove _ \<Rightarrow> {})"
  by (cases c) auto

locale map_contract =
  fixes fresh :: 'm
    and look :: "'m \<Rightarrow> ('k \<rightharpoonup> 'v)"
    and assign :: "'k \<Rightarrow> 'v \<Rightarrow> 'm \<Rightarrow> 'm"
    and delete :: "'k \<Rightarrow> 'm \<Rightarrow> 'm"
    and entries :: "'m \<Rightarrow> nat"
    and sound :: "'m \<Rightarrow> bool"
  assumes sound_fresh: "sound fresh"
    and sound_assign: "sound d \<Longrightarrow> sound (assign k v d)"
    and sound_delete: "sound d \<Longrightarrow> sound (delete k d)"
    and look_fresh: "look fresh k = None"
    and look_assign: "sound d \<Longrightarrow> look (assign k v d) j = (if j = k then Some v else look d j)"
    and look_delete: "sound d \<Longrightarrow> look (delete k d) j = (if j = k then None else look d j)"
    and entries_card: "sound d \<Longrightarrow> entries d = card (dom (look d))"
begin

fun perform :: "('k, 'v) map_call \<Rightarrow> 'm \<Rightarrow> 'm" where
  "perform (Assign k v) d = assign k v d"
| "perform (Remove k) d = delete k d"

lemma perform_sound: "sound d \<Longrightarrow> sound (perform c d)"
  by (cases c) (simp_all add: sound_assign sound_delete)

lemma perform_look: "sound d \<Longrightarrow> look (perform c d) = call_map c (look d)"
  by (cases c) (auto simp: look_assign look_delete)

lemma script_sound: "sound d \<Longrightarrow> sound (fold perform cs d)"
  by (induction cs arbitrary: d) (simp_all add: perform_sound)

lemma script_look: "sound d \<Longrightarrow> look (fold perform cs d) = fold call_map cs (look d)"
  by (induction cs arbitrary: d) (simp_all add: perform_sound perform_look)

lemma script_from_fresh:
  "look (fold perform cs fresh) = fold call_map cs Map.empty"
  "entries (fold perform cs fresh) = card (dom (fold call_map cs Map.empty))"
proof -
  have "look fresh = Map.empty" using look_fresh by auto
  then show look: "look (fold perform cs fresh) = fold call_map cs Map.empty"
    by (simp add: script_look sound_fresh)
  then show "entries (fold perform cs fresh) = card (dom (fold call_map cs Map.empty))"
    by (simp add: entries_card script_sound sound_fresh)
qed

lemma assign_twice: "sound d \<Longrightarrow> look (assign k v (assign k w d)) = look (assign k v d)"
  by (auto simp: look_assign sound_assign)

lemma assign_commute:
  "sound d \<Longrightarrow> j \<noteq> k \<Longrightarrow> look (assign j v (assign k w d)) = look (assign k w (assign j v d))"
  by (auto simp: look_assign sound_assign)

lemma delete_absent: "sound d \<Longrightarrow> look d k = None \<Longrightarrow> look (delete k d) = look d"
  by (auto simp: look_delete)

end

end
