(* ===== verification/Dictionary.thy ===== *)
theory Dictionary
  imports Map_Contract
begin

text \<open>
  \<^verbatim>\<open>atomic::dictionary_t\<close> of \<^verbatim>\<open>src/src/atomic.hpp\<close>, used by one thread at a time: a table
  of \<open>S\<close> buckets, each a linked list with the newest node first, and a count.
  \<open>Dictionary_Threads\<close> takes the lock-free insertion apart. \<^verbatim>\<open>std::hash<K>\<close> is an argument;
  so is what a key object holds after it was moved from (\<open>moved\<close>), which \<^verbatim>\<open>try_emplace\<close>
  compares with. Nodes are heap objects that nothing else refers to, so a bucket is the
  list of its keys and values.
\<close>

section \<open>State\<close>

type_synonym ('k, 'v) bucket = "('k \<times> 'v) list"

record ('k, 'v) dictionary =
  dict_table :: "('k, 'v) bucket list"
  dict_count :: nat

definition dict_new :: "nat \<Rightarrow> ('k, 'v) dictionary" where
  "dict_new S = \<lparr>dict_table = replicate S [], dict_count = 0\<rparr>"

definition key_index :: "('k \<Rightarrow> nat) \<Rightarrow> ('k, 'v) dictionary \<Rightarrow> 'k \<Rightarrow> nat" where
  "key_index hash d key = hash key mod length (dict_table d)"

definition bucket_of :: "('k \<Rightarrow> nat) \<Rightarrow> ('k, 'v) dictionary \<Rightarrow> 'k \<Rightarrow> ('k, 'v) bucket" where
  "bucket_of hash d key = dict_table d ! key_index hash d key"

definition set_bucket :: "nat \<Rightarrow> ('k, 'v) bucket \<Rightarrow> ('k, 'v) dictionary \<Rightarrow> ('k, 'v) dictionary" where
  "set_bucket i b d = d\<lparr>dict_table := (dict_table d)[i := b]\<rparr>"

section \<open>The walks along a bucket\<close>

fun find_in :: "'k \<Rightarrow> ('k, 'v) bucket \<Rightarrow> 'v option" where
  "find_in key [] = None"
| "find_in key ((k, v) # rest) = (if k = key then Some v else find_in key rest)"

fun contains_in :: "'k \<Rightarrow> ('k, 'v) bucket \<Rightarrow> bool" where
  "contains_in key [] = False"
| "contains_in key ((k, v) # rest) = (if k = key then True else contains_in key rest)"

text \<open>\<open>None\<close> where the walk reaches the end without a match.\<close>

fun assign_in :: "'k \<Rightarrow> 'v \<Rightarrow> ('k, 'v) bucket \<Rightarrow> ('k, 'v) bucket option" where
  "assign_in key value [] = None"
| "assign_in key value ((k, v) # rest) =
     (if k = key then Some ((k, value) # rest)
      else map_option (\<lambda>b. (k, v) # b) (assign_in key value rest))"

fun remove_in :: "'k \<Rightarrow> ('k, 'v) bucket \<Rightarrow> ('k, 'v) bucket option" where
  "remove_in key [] = None"
| "remove_in key ((k, v) # rest) =
     (if k = key then Some rest else map_option (\<lambda>b. (k, v) # b) (remove_in key rest))"

section \<open>Operations\<close>

definition dict_insert :: "('k \<Rightarrow> nat) \<Rightarrow> 'k \<Rightarrow> 'v \<Rightarrow> ('k, 'v) dictionary \<Rightarrow> bool \<times> ('k, 'v) dictionary" where
  "dict_insert hash key value d =
     (let index = key_index hash d key;
          d = set_bucket index ((key, value) # dict_table d ! index) d
      in (True, d\<lparr>dict_count := dict_count d + 1\<rparr>))"

definition dict_insert_or_assign ::
    "('k \<Rightarrow> nat) \<Rightarrow> 'k \<Rightarrow> 'v \<Rightarrow> ('k, 'v) dictionary \<Rightarrow> bool \<times> ('k, 'v) dictionary" where
  "dict_insert_or_assign hash key value d =
     (let index = key_index hash d key in
      case assign_in key value (dict_table d ! index) of
        Some b \<Rightarrow> (True, set_bucket index b d)
      | None \<Rightarrow> (let (_, d) = dict_insert hash key value d in (True, d)))"

definition dict_emplace :: "('k \<Rightarrow> nat) \<Rightarrow> 'k \<Rightarrow> 'v \<Rightarrow> ('k, 'v) dictionary \<Rightarrow> bool \<times> ('k, 'v) dictionary" where
  "dict_emplace hash key value d =
     (let index = key_index hash d key;
          d = set_bucket index ((key, value) # dict_table d ! index) d
      in (True, d\<lparr>dict_count := dict_count d + 1\<rparr>))"

text \<open>
  The index is computed from the key; then the key is moved into the node \<^verbatim>\<open>made\<close>, and the
  walk compares the bucket's keys with the key object that was moved from.
\<close>

definition dict_try_emplace ::
    "('k \<Rightarrow> nat) \<Rightarrow> ('k \<Rightarrow> 'k) \<Rightarrow> 'k \<Rightarrow> 'v \<Rightarrow> ('k, 'v) dictionary \<Rightarrow> bool \<times> ('k, 'v) dictionary" where
  "dict_try_emplace hash moved key value d =
     (let index = key_index hash d key; made = (key, value); key = moved key in
      if contains_in key (dict_table d ! index) then (False, d)
      else (let (_, d) = dict_emplace hash (fst made) (snd made) d in (True, d)))"

definition dict_find :: "('k \<Rightarrow> nat) \<Rightarrow> ('k, 'v) dictionary \<Rightarrow> 'k \<Rightarrow> 'v option" where
  "dict_find hash d key = find_in key (dict_table d ! key_index hash d key)"

definition dict_contains :: "('k \<Rightarrow> nat) \<Rightarrow> ('k, 'v) dictionary \<Rightarrow> 'k \<Rightarrow> bool" where
  "dict_contains hash d key = contains_in key (dict_table d ! key_index hash d key)"

definition dict_at :: "('k \<Rightarrow> nat) \<Rightarrow> ('k, 'v) dictionary \<Rightarrow> 'k \<Rightarrow> 'v res" where
  "dict_at hash d key =
     (case find_in key (dict_table d ! key_index hash d key) of
        Some v \<Rightarrow> Inr v
      | None \<Rightarrow> Inl (Range ''Key not in dictionary''))"

text \<open>\<^verbatim>\<open>operator[]\<close> calls \<^verbatim>\<open>at\<close> and ends without returning its reference.\<close>

definition dict_index :: "('k \<Rightarrow> nat) \<Rightarrow> ('k, 'v) dictionary \<Rightarrow> 'k \<Rightarrow> 'v res" where
  "dict_index hash d key = (case dict_at hash d key of Inl e \<Rightarrow> Inl e | Inr _ \<Rightarrow> Inl Undefined)"

definition dict_remove :: "('k \<Rightarrow> nat) \<Rightarrow> 'k \<Rightarrow> ('k, 'v) dictionary \<Rightarrow> bool \<times> ('k, 'v) dictionary" where
  "dict_remove hash key d =
     (let index = key_index hash d key in
      case remove_in key (dict_table d ! index) of
        Some b \<Rightarrow> (True, (set_bucket index b d)\<lparr>dict_count := dict_count d - 1\<rparr>)
      | None \<Rightarrow> (False, d))"

definition dict_clear :: "('k, 'v) dictionary \<Rightarrow> ('k, 'v) dictionary" where
  "dict_clear d = d\<lparr>dict_table := map (\<lambda>_. []) (dict_table d), dict_count := 0\<rparr>"

definition dict_empty :: "('k, 'v) dictionary \<Rightarrow> bool" where
  "dict_empty d = (dict_count d = 0)"

definition dict_bool :: "('k, 'v) dictionary \<Rightarrow> bool" where
  "dict_bool d = (dict_count d > 0)"

definition dict_size :: "('k, 'v) dictionary \<Rightarrow> nat" where
  "dict_size d = dict_count d"

definition dict_keys :: "('k, 'v) dictionary \<Rightarrow> 'k list" where
  "dict_keys d = List.concat (map (map fst) (dict_table d))"

text \<open>\<^verbatim>\<open>each\<close>: the function gets the key and a reference to the value, and may have a state.\<close>

fun each_in :: "('k \<Rightarrow> 'v \<Rightarrow> 's \<Rightarrow> 'v \<times> 's) \<Rightarrow> ('k, 'v) bucket \<Rightarrow> 's \<Rightarrow> ('k, 'v) bucket \<times> 's" where
  "each_in func [] s = ([], s)"
| "each_in func ((k, v) # rest) s =
     (let (v', s1) = func k v s; (rest', s2) = each_in func rest s1 in ((k, v') # rest', s2))"

fun each_table ::
    "('k \<Rightarrow> 'v \<Rightarrow> 's \<Rightarrow> 'v \<times> 's) \<Rightarrow> ('k, 'v) bucket list \<Rightarrow> 's \<Rightarrow> ('k, 'v) bucket list \<times> 's" where
  "each_table func [] s = ([], s)"
| "each_table func (b # bs) s =
     (let (b', s1) = each_in func b s; (bs', s2) = each_table func bs s1 in (b' # bs', s2))"

definition dict_each ::
    "('k \<Rightarrow> 'v \<Rightarrow> 's \<Rightarrow> 'v \<times> 's) \<Rightarrow> ('k, 'v) dictionary \<Rightarrow> 's \<Rightarrow> ('k, 'v) dictionary \<times> 's" where
  "dict_each func d s = (let (t, s') = each_table func (dict_table d) s in (d\<lparr>dict_table := t\<rparr>, s'))"

section \<open>Buckets\<close>

lemma find_in_map_of: "find_in k b = map_of b k"
  by (induction k b rule: find_in.induct) auto

lemma contains_in_iff: "contains_in k b \<longleftrightarrow> k \<in> fst ` set b"
  by (induction k b rule: contains_in.induct) auto

lemma assign_in_None: "assign_in k v b = None \<longleftrightarrow> k \<notin> fst ` set b"
  by (induction k v b rule: assign_in.induct) auto

lemma assign_in_Some:
  "assign_in k v b = Some b' \<Longrightarrow> map fst b' = map fst b \<and> map_of b' = (map_of b)(k \<mapsto> v)"
  by (induction k v b arbitrary: b' rule: assign_in.induct) (auto split: if_splits simp: fun_eq_iff)

lemma remove_in_None: "remove_in k b = None \<longleftrightarrow> k \<notin> fst ` set b"
  by (induction k b rule: remove_in.induct) auto

lemma remove_in_Some:
  "remove_in k b = Some b' \<Longrightarrow>
   length b = Suc (length b') \<and> set b' \<subseteq> set b \<and> (\<forall>j. j \<noteq> k \<longrightarrow> map_of b' j = map_of b j)
   \<and> (distinct (map fst b) \<longrightarrow> distinct (map fst b') \<and> k \<notin> fst ` set b')"
proof (induction k b arbitrary: b' rule: remove_in.induct)
  case (2 key k v rest)
  then show ?case by (cases "k = key") (fastforce simp: image_iff)+
qed simp

section \<open>Invariants\<close>

text \<open>
  Every entry is in the bucket its key hashes to and the count is the number of entries;
  \<open>dict_sound\<close> also says that no key occurs twice.
\<close>

definition dict_placed :: "('k \<Rightarrow> nat) \<Rightarrow> ('k, 'v) dictionary \<Rightarrow> bool" where
  "dict_placed hash d =
     (dict_table d \<noteq> [] \<and>
      (\<forall>i < length (dict_table d). \<forall>k \<in> fst ` set (dict_table d ! i). key_index hash d k = i))"

definition dict_wf :: "('k \<Rightarrow> nat) \<Rightarrow> ('k, 'v) dictionary \<Rightarrow> bool" where
  "dict_wf hash d = (dict_placed hash d \<and> dict_count d = sum_list (map length (dict_table d)))"

definition dict_sound :: "('k \<Rightarrow> nat) \<Rightarrow> ('k, 'v) dictionary \<Rightarrow> bool" where
  "dict_sound hash d = (dict_wf hash d \<and> (\<forall>b \<in> set (dict_table d). distinct (map fst b)))"

lemma key_index_lt: "dict_table d \<noteq> [] \<Longrightarrow> key_index hash d k < length (dict_table d)"
  by (simp add: key_index_def)

lemma key_index_set_bucket [simp]: "key_index hash (set_bucket i b d) = key_index hash d"
  by (simp add: key_index_def set_bucket_def fun_eq_iff)

lemma key_index_count [simp]: "key_index hash (d\<lparr>dict_count := n\<rparr>) = key_index hash d"
  by (simp add: key_index_def fun_eq_iff)

lemma dict_wf_new: "0 < S \<Longrightarrow> dict_sound hash (dict_new S)"
  by (simp add: dict_sound_def dict_wf_def dict_placed_def dict_new_def sum_list_replicate)

text \<open>Replacing the bucket of \<open>k\<close> by one whose keys are its old ones, and \<open>k\<close>.\<close>

lemma sum_list_update_length:
  "i < length t \<Longrightarrow>
   sum_list (map length (t[i := b])) + length (t ! i) = sum_list (map length t) + length b"
proof (induction t arbitrary: i)
  case (Cons x t)
  then show ?case by (cases i) (auto simp: add.commute add.left_commute)
qed simp

lemma dict_wf_replace:
  assumes "dict_wf hash d" and "i = key_index hash d k"
    and "fst ` set b \<subseteq> insert k (fst ` set (dict_table d ! i))"
    and "n + length (dict_table d ! i) = dict_count d + length b"
  shows "dict_wf hash ((set_bucket i b d)\<lparr>dict_count := n\<rparr>)"
proof -
  have ne: "dict_table d \<noteq> []" using assms(1) by (simp add: dict_wf_def dict_placed_def)
  have i: "i < length (dict_table d)" using key_index_lt [OF ne] assms(2) by simp
  have "dict_placed hash ((set_bucket i b d)\<lparr>dict_count := n\<rparr>)"
  proof -
    have "key_index hash d j = m" if "m < length (dict_table d)"
      and "j \<in> fst ` set ((dict_table d)[i := b] ! m)" for m j
    proof (cases "m = i")
      case True
      then have "j \<in> insert k (fst ` set (dict_table d ! i))" using that(2) i assms(3) by auto
      then show ?thesis using True assms(1,2) i by (auto simp: dict_wf_def dict_placed_def)
    next
      case False
      then show ?thesis using that assms(1) by (auto simp: dict_wf_def dict_placed_def)
    qed
    then show ?thesis using ne by (auto simp: dict_placed_def set_bucket_def key_index_def)
  qed
  moreover have "n = sum_list (map length ((dict_table d)[i := b]))"
    using sum_list_update_length [OF i, of b] assms(1,4) by (simp add: dict_wf_def)
  ultimately show ?thesis by (simp add: dict_wf_def set_bucket_def)
qed

lemma dict_find_set_bucket:
  assumes "dict_table d \<noteq> []" and "i = key_index hash d k"
    and "\<And>j. j \<noteq> k \<Longrightarrow> map_of b j = map_of (dict_table d ! i) j"
  shows "dict_find hash ((set_bucket i b d)\<lparr>dict_count := n\<rparr>) j
    = (if j = k then map_of b k else dict_find hash d j)"
  using assms key_index_lt [OF assms(1), of hash]
  by (auto simp: dict_find_def find_in_map_of set_bucket_def nth_list_update key_index_def)

lemma set_bucket_keep_count: "set_bucket i b d = (set_bucket i b d)\<lparr>dict_count := dict_count d\<rparr>"
  by (simp add: set_bucket_def)

section \<open>What each operation does\<close>

lemma dict_contains_iff: "dict_contains hash d k \<longleftrightarrow> dict_find hash d k \<noteq> None"
  by (auto simp: dict_contains_def dict_find_def contains_in_iff find_in_map_of map_of_eq_None_iff)

lemma dict_at_eq:
  "dict_at hash d k = (case dict_find hash d k of Some v \<Rightarrow> Inr v | None \<Rightarrow> Inl (Range ''Key not in dictionary''))"
  by (simp add: dict_at_def dict_find_def)

lemma dict_index_never_returns: "\<not> returns (dict_index hash d k)"
  by (simp add: dict_index_def split: sum.split)

lemma dict_emplace_insert: "dict_emplace = dict_insert"
  by (simp add: dict_emplace_def dict_insert_def fun_eq_iff)

lemma dict_insert_wf: "dict_wf hash d \<Longrightarrow> dict_wf hash (snd (dict_insert hash k v d))"
proof -
  assume wf: "dict_wf hash d"
  have "dict_wf hash ((set_bucket (key_index hash d k) ((k, v) # dict_table d ! key_index hash d k) d)
      \<lparr>dict_count := dict_count d + 1\<rparr>)"
    by (rule dict_wf_replace [OF wf refl]) auto
  then show ?thesis by (simp add: dict_insert_def Let_def set_bucket_def)
qed

lemma dict_find_insert:
  assumes "dict_table d \<noteq> []"
  shows "dict_find hash (snd (dict_insert hash k v d)) j = (if j = k then Some v else dict_find hash d j)"
proof -
  have "dict_find hash ((set_bucket (key_index hash d k) ((k, v) # dict_table d ! key_index hash d k) d)
      \<lparr>dict_count := dict_count d + 1\<rparr>) j = (if j = k then Some v else dict_find hash d j)"
    by (subst dict_find_set_bucket [OF assms refl]) auto
  then show ?thesis by (simp add: dict_insert_def Let_def set_bucket_def)
qed

lemma wf_table: "dict_wf hash d \<Longrightarrow> dict_table d \<noteq> []"
  by (simp add: dict_wf_def dict_placed_def)

lemma wf_placed:
  "dict_wf hash d \<Longrightarrow> i < length (dict_table d) \<Longrightarrow> k \<in> fst ` set (dict_table d ! i) \<Longrightarrow>
   key_index hash d k = i"
  unfolding dict_wf_def dict_placed_def by blast

lemma sound_wf: "dict_sound hash d \<Longrightarrow> dict_wf hash d"
  by (simp add: dict_sound_def)

lemma sound_bucket:
  "dict_sound hash d \<Longrightarrow> distinct (map fst (dict_table d ! key_index hash d k))"
  using key_index_lt [of d hash k] wf_table [of hash d] by (simp add: dict_sound_def)

lemma dict_sound_replace:
  assumes "dict_sound hash d" and "distinct (map fst b)"
    and "dict_wf hash ((set_bucket i b d)\<lparr>dict_count := n\<rparr>)"
  shows "dict_sound hash ((set_bucket i b d)\<lparr>dict_count := n\<rparr>)"
  using assms set_update_subset_insert [of "dict_table d" i b]
  by (auto simp: dict_sound_def set_bucket_def)

lemma dict_insert_eq:
  "snd (dict_insert hash k v d) =
   (set_bucket (key_index hash d k) ((k, v) # dict_table d ! key_index hash d k) d)\<lparr>dict_count := dict_count d + 1\<rparr>"
  by (simp add: dict_insert_def Let_def set_bucket_def)

lemma dict_insert_sound:
  assumes "dict_sound hash d" and "dict_find hash d k = None"
  shows "dict_sound hash (snd (dict_insert hash k v d))"
proof -
  have "distinct (map fst ((k, v) # dict_table d ! key_index hash d k))"
    using assms sound_bucket [OF assms(1), of k]
    by (simp add: dict_find_def find_in_map_of map_of_eq_None_iff)
  then show ?thesis
    using dict_sound_replace [OF assms(1)] dict_insert_wf [OF sound_wf [OF assms(1)], of k v]
    unfolding dict_insert_eq by blast
qed

subsection \<open>\<^verbatim>\<open>insert_or_assign\<close>\<close>

lemma dict_insert_or_assign_cases:
  "(dict_find hash d k = None \<and> snd (dict_insert_or_assign hash k v d) = snd (dict_insert hash k v d)) \<or>
   (\<exists>b. assign_in k v (dict_table d ! key_index hash d k) = Some b \<and>
     snd (dict_insert_or_assign hash k v d)
       = (set_bucket (key_index hash d k) b d)\<lparr>dict_count := dict_count d\<rparr>)"
  by (auto simp: dict_insert_or_assign_def Let_def dict_find_def find_in_map_of map_of_eq_None_iff
      assign_in_None set_bucket_def split: option.split prod.split)

lemma dict_insert_or_assign_wf:
  assumes "dict_wf hash d"
  shows "dict_wf hash (snd (dict_insert_or_assign hash k v d))"
  using dict_insert_or_assign_cases [of hash d k v]
proof (elim disjE exE conjE)
  fix b assume b: "assign_in k v (dict_table d ! key_index hash d k) = Some b"
    and r: "snd (dict_insert_or_assign hash k v d)
      = (set_bucket (key_index hash d k) b d)\<lparr>dict_count := dict_count d\<rparr>"
  from assign_in_Some [OF b] have keys: "map fst b = map fst (dict_table d ! key_index hash d k)" by simp
  show ?thesis unfolding r
  proof (rule dict_wf_replace [OF assms refl])
    show "fst ` set b \<subseteq> insert k (fst ` set (dict_table d ! key_index hash d k))"
      by (metis keys list.set_map subset_insertI)
    show "dict_count d + length (dict_table d ! key_index hash d k) = dict_count d + length b"
      by (metis keys length_map)
  qed
qed (simp add: dict_insert_wf assms)

lemma dict_insert_or_assign_sound:
  assumes "dict_sound hash d"
  shows "dict_sound hash (snd (dict_insert_or_assign hash k v d))"
  using dict_insert_or_assign_cases [of hash d k v]
proof (elim disjE exE conjE)
  fix b assume b: "assign_in k v (dict_table d ! key_index hash d k) = Some b"
    and r: "snd (dict_insert_or_assign hash k v d)
      = (set_bucket (key_index hash d k) b d)\<lparr>dict_count := dict_count d\<rparr>"
  from assign_in_Some [OF b] sound_bucket [OF assms, of k] have "distinct (map fst b)" by simp
  then show ?thesis
    using dict_sound_replace [OF assms, of b] dict_insert_or_assign_wf [OF sound_wf [OF assms], of k v]
    unfolding r by blast
qed (simp add: dict_insert_sound assms)

lemma dict_find_insert_or_assign:
  assumes "dict_wf hash d"
  shows "dict_find hash (snd (dict_insert_or_assign hash k v d)) j
    = (if j = k then Some v else dict_find hash d j)"
  using dict_insert_or_assign_cases [of hash d k v]
proof (elim disjE exE conjE)
  fix b assume b: "assign_in k v (dict_table d ! key_index hash d k) = Some b"
    and r: "snd (dict_insert_or_assign hash k v d)
      = (set_bucket (key_index hash d k) b d)\<lparr>dict_count := dict_count d\<rparr>"
  show ?thesis unfolding r
    by (subst dict_find_set_bucket [OF wf_table [OF assms] refl]) (auto simp: assign_in_Some [OF b])
qed (simp add: dict_find_insert wf_table [OF assms])

subsection \<open>\<^verbatim>\<open>remove\<close>\<close>

lemma dict_remove_cases:
  "(dict_find hash d k = None \<and> dict_remove hash k d = (False, d)) \<or>
   (\<exists>b. remove_in k (dict_table d ! key_index hash d k) = Some b \<and>
     dict_remove hash k d
       = (True, (set_bucket (key_index hash d k) b d)\<lparr>dict_count := dict_count d - 1\<rparr>))"
  by (auto simp: dict_remove_def Let_def dict_find_def find_in_map_of map_of_eq_None_iff
      remove_in_None split: option.split)

lemma bucket_le_count:
  "i < length (dict_table d) \<Longrightarrow> dict_wf hash d \<Longrightarrow> length (dict_table d ! i) \<le> dict_count d"
  by (simp add: dict_wf_def member_le_sum_list)

lemma dict_remove_wf:
  assumes "dict_wf hash d"
  shows "dict_wf hash (snd (dict_remove hash k d))"
  using dict_remove_cases [of hash d k]
proof (elim disjE exE conjE)
  fix b assume b: "remove_in k (dict_table d ! key_index hash d k) = Some b"
    and r: "dict_remove hash k d
      = (True, (set_bucket (key_index hash d k) b d)\<lparr>dict_count := dict_count d - 1\<rparr>)"
  from remove_in_Some [OF b] have l: "length (dict_table d ! key_index hash d k) = Suc (length b)"
    and sub: "set b \<subseteq> set (dict_table d ! key_index hash d k)" by simp_all
  show ?thesis unfolding r snd_conv
  proof (rule dict_wf_replace [OF assms refl])
    show "fst ` set b \<subseteq> insert k (fst ` set (dict_table d ! key_index hash d k))" using sub by auto
    show "dict_count d - 1 + length (dict_table d ! key_index hash d k) = dict_count d + length b"
      using l bucket_le_count [OF key_index_lt [OF wf_table [OF assms], of hash k] assms] by simp
  qed
qed (simp add: assms)

lemma dict_remove_sound:
  assumes "dict_sound hash d"
  shows "dict_sound hash (snd (dict_remove hash k d))"
  using dict_remove_cases [of hash d k]
proof (elim disjE exE conjE)
  fix b assume b: "remove_in k (dict_table d ! key_index hash d k) = Some b"
    and r: "dict_remove hash k d
      = (True, (set_bucket (key_index hash d k) b d)\<lparr>dict_count := dict_count d - 1\<rparr>)"
  from remove_in_Some [OF b] sound_bucket [OF assms, of k] have "distinct (map fst b)" by simp
  then show ?thesis
    using dict_sound_replace [OF assms, of b] dict_remove_wf [OF sound_wf [OF assms], of k]
    unfolding r snd_conv by blast
qed (simp add: assms)

lemma dict_find_remove:
  assumes "dict_sound hash d"
  shows "dict_find hash (snd (dict_remove hash k d)) j = (if j = k then None else dict_find hash d j)"
  using dict_remove_cases [of hash d k]
proof (elim disjE exE conjE)
  fix b assume b: "remove_in k (dict_table d ! key_index hash d k) = Some b"
    and r: "dict_remove hash k d
      = (True, (set_bucket (key_index hash d k) b d)\<lparr>dict_count := dict_count d - 1\<rparr>)"
  have "map_of b k = None"
    using remove_in_Some [OF b] sound_bucket [OF assms, of k] by (simp add: map_of_eq_None_iff)
  then show ?thesis unfolding r snd_conv
    by (subst dict_find_set_bucket [OF wf_table [OF sound_wf [OF assms]] refl])
      (auto simp: remove_in_Some [OF b])
qed auto

subsection \<open>\<^verbatim>\<open>keys\<close>, \<^verbatim>\<open>size\<close>, \<^verbatim>\<open>clear\<close> and \<^verbatim>\<open>each\<close>\<close>

lemma set_dict_keys: "dict_wf hash d \<Longrightarrow> set (dict_keys d) = dom (dict_find hash d)"
proof (rule set_eqI)
  fix k assume wf: "dict_wf hash d"
  have "k \<in> set (dict_keys d) \<longleftrightarrow> (\<exists>i < length (dict_table d). k \<in> fst ` set (dict_table d ! i))"
  proof -
    have "k \<in> set (dict_keys d) \<longleftrightarrow> (\<exists>b \<in> set (dict_table d). k \<in> fst ` set b)"
      by (auto simp: dict_keys_def)
    also have "\<dots> \<longleftrightarrow> (\<exists>i < length (dict_table d). k \<in> fst ` set (dict_table d ! i))"
      unfolding Bex_def in_set_conv_nth by blast
    finally show ?thesis .
  qed
  also have "\<dots> \<longleftrightarrow> k \<in> fst ` set (dict_table d ! key_index hash d k)"
    using wf_placed [OF wf] key_index_lt [OF wf_table [OF wf], of hash k] by blast
  also have "\<dots> \<longleftrightarrow> k \<in> dom (dict_find hash d)"
    by (simp add: dom_def dict_find_def find_in_map_of map_of_eq_None_iff flip: not_None_eq)
  finally show "k \<in> set (dict_keys d) \<longleftrightarrow> k \<in> dom (dict_find hash d)" .
qed

lemma length_dict_keys: "dict_wf hash d \<Longrightarrow> length (dict_keys d) = dict_count d"
  by (simp add: dict_wf_def dict_keys_def length_concat o_def)

lemma distinct_concat_disjoint:
  "(\<And>b. b \<in> set t \<Longrightarrow> distinct b) \<Longrightarrow>
   (\<And>i j. i < j \<Longrightarrow> j < length t \<Longrightarrow> set (t ! i) \<inter> set (t ! j) = {}) \<Longrightarrow> distinct (List.concat t)"
proof (induction t)
  case (Cons b t)
  have "set b \<inter> set x = {}" if mem: "x \<in> set t" for x
  proof -
    obtain j where "j < length t" "t ! j = x" using mem unfolding in_set_conv_nth by blast
    then show ?thesis using Cons.prems(2) [of 0 "Suc j"] by simp
  qed
  moreover have "distinct (List.concat t)"
  proof (rule Cons.IH)
    show "distinct c" if "c \<in> set t" for c using Cons.prems(1) that by simp
    show "set (t ! i) \<inter> set (t ! j) = {}" if "i < j" "j < length t" for i j
      using Cons.prems(2) [of "Suc i" "Suc j"] that by simp
  qed
  ultimately show ?case using Cons.prems(1) by auto
qed simp

lemma distinct_dict_keys:
  assumes "dict_sound hash d"
  shows "distinct (dict_keys d)"
  unfolding dict_keys_def
proof (rule distinct_concat_disjoint)
  show "distinct b" if "b \<in> set (map (map fst) (dict_table d))" for b
    using assms that by (auto simp: dict_sound_def)
next
  fix i j assume ij: "i < j" "j < length (map (map fst) (dict_table d))"
  have "k \<notin> fst ` set (dict_table d ! j)" if "k \<in> fst ` set (dict_table d ! i)" for k
    using wf_placed [OF sound_wf [OF assms], of i k] wf_placed [OF sound_wf [OF assms], of j k] that ij
    by auto
  then show "set (map (map fst) (dict_table d) ! i) \<inter> set (map (map fst) (dict_table d) ! j) = {}"
    using ij by (auto simp: disjoint_iff)
qed

lemma dict_size_card:
  assumes "dict_sound hash d"
  shows "dict_size d = card (dom (dict_find hash d))"
proof -
  have "card (set (dict_keys d)) = length (dict_keys d)"
    by (rule distinct_card [OF distinct_dict_keys [OF assms]])
  then show ?thesis
    using set_dict_keys [OF sound_wf [OF assms]] length_dict_keys [OF sound_wf [OF assms]]
    by (simp add: dict_size_def)
qed

lemma dict_find_new: "0 < S \<Longrightarrow> dict_find hash (dict_new S) k = None"
  by (simp add: dict_find_def dict_new_def key_index_def)

lemma dict_clear_new: "dict_clear d = dict_new (length (dict_table d))"
  by (simp add: dict_clear_def dict_new_def map_replicate_const)

lemma each_in_keys: "map fst (fst (each_in f b s)) = map fst b"
proof (induction b arbitrary: s)
  case (Cons a b)
  then show ?case by (cases a) (simp add: case_prod_beta)
qed simp

lemma each_table_keys: "map (map fst) (fst (each_table f t s)) = map (map fst) t"
proof (induction t arbitrary: s)
  case (Cons b t)
  then show ?case by (simp add: case_prod_beta each_in_keys)
qed simp

lemma same_keys_sound:
  assumes "dict_sound hash d" and "map (map fst) t = map (map fst) (dict_table d)"
  shows "dict_sound hash (d\<lparr>dict_table := t\<rparr>)"
proof -
  have len: "length t = length (dict_table d)" using assms(2) by (rule map_eq_imp_length_eq)
  have nth: "map fst (t ! i) = map fst (dict_table d ! i)" if "i < length t" for i
    using that len assms(2) by (metis nth_map)
  then have keys: "fst ` set (t ! i) = fst ` set (dict_table d ! i)" if "i < length t" for i
    using that by (metis list.set_map)
  have "map length t = map length (dict_table d)"
    using nth len by (intro nth_equalityI) (auto dest: map_eq_imp_length_eq)
  moreover have "distinct (map fst b)" if mem: "b \<in> set t" for b
  proof -
    obtain i where i: "i < length t" "t ! i = b" using mem unfolding in_set_conv_nth by blast
    then have "dict_table d ! i \<in> set (dict_table d)" using len by simp
    then show ?thesis using nth [OF i(1)] i(2) assms(1) by (simp add: dict_sound_def)
  qed
  ultimately show ?thesis
    using assms(1) keys len by (auto simp: dict_sound_def dict_wf_def dict_placed_def key_index_def)
qed

text \<open>\<^verbatim>\<open>each\<close> cannot change the keys, so it keeps the invariant.\<close>

lemma dict_each_sound: "dict_sound hash d \<Longrightarrow> dict_sound hash (fst (dict_each f d s))"
  by (simp add: dict_each_def case_prod_beta same_keys_sound each_table_keys)

lemma dict_each_keys: "dict_keys (fst (dict_each f d s)) = dict_keys d"
  by (simp add: dict_each_def case_prod_beta dict_keys_def each_table_keys)

section \<open>The dictionary is a map\<close>

text \<open>
  With assignments and removals only, the table is a finite map whatever the hash function
  and the number of buckets are.
\<close>

interpretation dict: map_contract
  "dict_new (Suc n)" "dict_find hash" "\<lambda>k v d. snd (dict_insert_or_assign hash k v d)"
  "\<lambda>k d. snd (dict_remove hash k d)" dict_size "dict_sound hash"
  for hash :: "'k \<Rightarrow> nat" and n :: nat
  by unfold_locales
    (simp_all add: dict_wf_new dict_insert_or_assign_sound dict_remove_sound dict_find_new
      dict_find_insert_or_assign sound_wf dict_find_remove dict_size_card)

section \<open>Shadowed entries\<close>

text \<open>
  \<^verbatim>\<open>insert\<close> does not look for the key, so a second insertion hides the first entry: it counts,
  and it comes back when the key is removed.
\<close>

lemma remove_in_head: "remove_in k ((k, v) # b) = Some b"
  by simp

lemma dict_remove_insert:
  assumes "dict_table d \<noteq> []"
  shows "dict_remove hash k (snd (dict_insert hash k v d)) = (True, d)"
proof -
  have "key_index hash d k < length (dict_table d)" by (rule key_index_lt [OF assms])
  moreover have "key_index hash (snd (dict_insert hash k v d)) k = key_index hash d k"
    by (simp add: dict_insert_eq)
  ultimately show ?thesis
    by (simp add: dict_remove_def Let_def remove_in_head dict_insert_eq set_bucket_def)
qed

text \<open>
  A moved-from key that is still itself (a trivially copyable type) makes \<^verbatim>\<open>try_emplace\<close>
  an insertion of an absent key.
\<close>

lemma dict_try_emplace_present:
  "dict_contains hash d (moved k) \<Longrightarrow> key_index hash d (moved k) = key_index hash d k \<Longrightarrow>
   dict_try_emplace hash moved k v d = (False, d)"
  by (simp add: dict_try_emplace_def dict_contains_def)

lemma dict_try_emplace_insert:
  "\<not> contains_in (moved k) (dict_table d ! key_index hash d k) \<Longrightarrow>
   dict_try_emplace hash moved k v d = (True, snd (dict_insert hash k v d))"
  by (simp add: dict_try_emplace_def dict_emplace_insert Let_def case_prod_beta)

lemma dict_try_emplace_sound:
  "dict_sound hash d \<Longrightarrow> dict_sound hash (snd (dict_try_emplace hash id k v d))"
  by (auto simp: dict_try_emplace_def Let_def dict_emplace_insert case_prod_beta dict_find_def
      find_in_map_of map_of_eq_None_iff contains_in_iff intro: dict_insert_sound)

section \<open>Properties\<close>

fun dict_call :: "('k \<Rightarrow> nat) \<Rightarrow> ('k, 'v) map_call \<Rightarrow> ('k, 'v) dictionary \<Rightarrow> ('k, 'v) dictionary" where
  "dict_call hash (Assign k v) d = snd (dict_insert_or_assign hash k v d)"
| "dict_call hash (Remove k) d = snd (dict_remove hash k d)"

lemma dict_call_perform: "dict_call hash = dict.perform hash"
proof (intro ext)
  fix c d show "dict_call hash c d = dict.perform hash c d" by (cases c) simp_all
qed

text \<open>
  C15: whatever the hash function and the number of buckets, a new dictionary after any
  sequence of \<^verbatim>\<open>insert_or_assign\<close> and \<^verbatim>\<open>remove\<close> calls answers \<^verbatim>\<open>find\<close> as the finite map does
  that the same calls build, its \<^verbatim>\<open>keys\<close> are that map's keys without repetition, and its
  \<^verbatim>\<open>size\<close> is their number.
\<close>

theorem dictionary_is_a_map:
  "dict_find hash (fold (dict_call hash) cs (dict_new (Suc n))) = fold call_map cs Map.empty
   \<and> set (dict_keys (fold (dict_call hash) cs (dict_new (Suc n)))) = dom (fold call_map cs Map.empty)
   \<and> distinct (dict_keys (fold (dict_call hash) cs (dict_new (Suc n))))
   \<and> dict_size (fold (dict_call hash) cs (dict_new (Suc n))) = card (dom (fold call_map cs Map.empty))"
proof -
  have "dict_sound hash (fold (dict_call hash) cs (dict_new (Suc n)))"
    unfolding dict_call_perform by (rule dict.script_sound) (rule dict.sound_fresh)
  then show ?thesis
    using dict.script_from_fresh [of hash cs n] set_dict_keys [OF sound_wf] distinct_dict_keys
    unfolding dict_call_perform by metis
qed

text \<open>
  \<^verbatim>\<open>insert\<close> of a key that is present keeps the old entry behind the new one: the new
  value is found, both count, and removing the key brings the dictionary back as it was
  before the insertion, old value included.
\<close>

theorem dictionary_insert_shadows:
  assumes "dict_wf hash d"
  shows "dict_find hash (snd (dict_insert hash k v d)) k = Some v
    \<and> dict_size (snd (dict_insert hash k v d)) = Suc (dict_size d)
    \<and> dict_wf hash (snd (dict_insert hash k v d))
    \<and> dict_remove hash k (snd (dict_insert hash k v d)) = (True, d)"
  using dict_remove_insert [OF wf_table [OF assms]] dict_find_insert [OF wf_table [OF assms]]
    dict_insert_wf [OF assms]
  by (simp add: dict_size_def dict_insert_eq)

theorem dictionary_insert_shadows_witness:
  "dict_remove id 5 (snd (dict_insert id 5 CHR ''b'' (snd (dict_insert id (5 :: nat) CHR ''a'' (dict_new 2)))))
    = (True, snd (dict_insert id 5 CHR ''a'' (dict_new 2)))"
  using dictionary_insert_shadows
    [OF dict_insert_wf [OF sound_wf [OF dict_wf_new [of 2 id]]], of 5 "CHR ''b''" 5 "CHR ''a''"]
  by simp

text \<open>
  \<^verbatim>\<open>try_emplace\<close> looks for the key after it was moved into the new node. While a moved
  key keeps its value (a trivially copyable one) the call inserts exactly the absent keys;
  a key whose moved-from state is not in its bucket is inserted although it is present,
  and the dictionary then holds it twice.
\<close>

theorem dictionary_try_emplace:
  assumes "dict_sound hash d"
  shows "dict_try_emplace hash id k v d =
      (if dict_find hash d k = None then (True, snd (dict_insert hash k v d)) else (False, d))
    \<and> dict_sound hash (snd (dict_try_emplace hash id k v d))
    \<and> (moved k \<notin> fst ` set (dict_table d ! key_index hash d k) \<longrightarrow>
        dict_try_emplace hash moved k v d = (True, snd (dict_insert hash k v d)))"
  using dict_try_emplace_sound [OF assms, of k v]
  by (auto simp: dict_try_emplace_def Let_def dict_emplace_insert case_prod_beta dict_find_def
      find_in_map_of map_of_eq_None_iff contains_in_iff)

theorem dictionary_try_emplace_witness:
  "dict_try_emplace length (\<lambda>_. []) ''ab'' CHR ''y'' (snd (dict_insert length ''ab'' CHR ''x'' (dict_new (Suc 0))))
    = (True, snd (dict_insert length ''ab'' CHR ''y'' (snd (dict_insert length ''ab'' CHR ''x'' (dict_new (Suc 0))))))"
proof -
  have sound: "dict_sound length (snd (dict_insert length ''ab'' CHR ''x'' (dict_new (Suc 0))))"
    by (rule dict_insert_sound) (simp_all add: dict_wf_new dict_find_new)
  have absent: "(\<lambda>_ :: string. []) ''ab'' \<notin> fst ` set (dict_table (snd (dict_insert length ''ab'' CHR ''x'' (dict_new (Suc 0))))
      ! key_index length (snd (dict_insert length ''ab'' CHR ''x'' (dict_new (Suc 0)))) ''ab'')"
    by (simp add: dict_insert_eq) (simp add: dict_new_def key_index_def set_bucket_def)
  from dictionary_try_emplace [OF sound, THEN conjunct2, THEN conjunct2]
  show ?thesis by (rule mp) (rule absent)
qed

end
