(* ===== verification/Run_Contract.thy ===== *)
theory Run_Contract
  imports Prelude
begin

text \<open>
  Runs of the machines that model several threads or objects: lists of moves, where a move is
  one step of one of them and \<open>None\<close> when it cannot take that step. The locales follow an
  invariant, and what a run has done, from single steps to runs. Each machine of the
  development interprets them for its own step function.
\<close>

fun run_moves :: "('m \<Rightarrow> 's \<Rightarrow> 's option) \<Rightarrow> 'm list \<Rightarrow> 's \<Rightarrow> 's option" where
  "run_moves step [] s = Some s"
| "run_moves step (m # ms) s = (case step m s of None \<Rightarrow> None | Some s' \<Rightarrow> run_moves step ms s')"

lemma run_moves_append:
  "run_moves step (xs @ ys) s = (case run_moves step xs s of None \<Rightarrow> None | Some s' \<Rightarrow> run_moves step ys s')"
  by (induction xs arbitrary: s) (auto split: option.splits)

lemma run_moves_consE:
  assumes "run_moves step (m # ms) s = Some s'"
  obtains s1 where "step m s = Some s1" and "run_moves step ms s1 = Some s'"
  using assms by (auto split: option.splits)

lemma list_ex_False [simp]: "\<not> list_ex (\<lambda>_. False) xs"
  by (induction xs) simp_all

text \<open>An invariant that the moves that are not barred keep.\<close>

locale run_invariant =
  fixes step :: "'m \<Rightarrow> 's \<Rightarrow> 's option"
    and inv :: "'s \<Rightarrow> bool"
    and barred :: "'m \<Rightarrow> bool"
  assumes step_inv: "inv s \<Longrightarrow> step m s = Some s' \<Longrightarrow> \<not> barred m \<Longrightarrow> inv s'"
begin

lemma run_inv: "inv s \<Longrightarrow> run_moves step ms s = Some s' \<Longrightarrow> \<not> list_ex barred ms \<Longrightarrow> inv s'"
  by (induction ms arbitrary: s) (auto split: option.splits dest: step_inv)

lemma run_inv_before:
  "inv s \<Longrightarrow> run_moves step (xs @ ys) s = Some s' \<Longrightarrow> \<not> list_ex barred xs
   \<Longrightarrow> \<exists>s1. run_moves step xs s = Some s1 \<and> inv s1 \<and> run_moves step ys s1 = Some s'"
  by (auto simp: run_moves_append split: option.splits dest: run_inv)

end

text \<open>What the moves of a run amount to, as a relation between its moves and its two ends.\<close>

locale run_effect = run_invariant +
  fixes effect :: "'m list \<Rightarrow> 's \<Rightarrow> 's \<Rightarrow> bool"
  assumes effect_none: "inv s \<Longrightarrow> effect [] s s"
    and effect_step: "inv s \<Longrightarrow> step m s = Some s1 \<Longrightarrow> \<not> barred m \<Longrightarrow> effect ms s1 s2 \<Longrightarrow> effect (m # ms) s s2"
begin

lemma run_has_effect: "inv s \<Longrightarrow> run_moves step ms s = Some s' \<Longrightarrow> \<not> list_ex barred ms \<Longrightarrow> inv s' \<and> effect ms s s'"
proof (induction ms arbitrary: s)
  case (Cons m ms)
  from Cons.prems(2) obtain s1 where s1: "step m s = Some s1" "run_moves step ms s1 = Some s'"
    by (rule run_moves_consE)
  then show ?case
    using Cons.IH [OF step_inv [OF Cons.prems(1) s1(1)] s1(2)] Cons.prems(1,3) effect_step by simp
qed (simp add: effect_none)

end

end
