(* ===== verification/Dictionary_Threads.thy ===== *)
theory Dictionary_Threads
  imports Run_Contract
begin

text \<open>
  \<open>insert\<close> and \<open>remove\<close> of \<open>dictionary_t\<close> (\<open>src/atomic.hpp\<close>) by several threads on one bucket,
  with one step for each atomic operation. A node is a number; the bucket is the pointer to
  its first node, and each node has an atomic \<open>next\<close> pointer. The nodes that an \<open>insert\<close> has
  linked are recorded, latest first.
\<close>

section \<open>The steps\<close>

text \<open>
  Where a thread is: in \<open>insert\<close> with a node made, with the bucket loaded into \<open>expected\<close> and
  the node's \<open>next\<close>, or linked and about to count; in \<open>remove\<close> walking with \<open>prev\<close> and
  \<open>current\<close>, about to store \<open>next\<close> over a link, about to delete, or about to count.
\<close>

datatype 'k dt_phase =
    Idle
  | Made nat
  | Loaded nat "nat option"
  | Linked nat
  | Walking 'k "nat option" "nat option"
  | Unlinking nat "nat option" "nat option"
  | Deleting nat
  | Uncounting

record ('k, 'v) dt_world =
  dt_head :: "nat option"
  dt_next :: "nat \<Rightarrow> nat option"
  dt_node :: "nat \<Rightarrow> ('k \<times> 'v) option"
  dt_fresh :: nat
  dt_count :: int
  dt_threads :: "'k dt_phase list"
  dt_linked :: "nat list"

definition dt_initial :: "nat \<Rightarrow> ('k, 'v) dt_world" where
  "dt_initial n = \<lparr>dt_head = None, dt_next = (\<lambda>_. None), dt_node = (\<lambda>_. None), dt_fresh = 0, dt_count = 0,
     dt_threads = replicate n Idle, dt_linked = []\<rparr>"

text \<open>A thread calls \<open>insert\<close> or \<open>remove\<close>, or goes on; the weak exchange may fail for no reason.\<close>

datatype ('k, 'v) dt_move = Insert 'k 'v | Remove 'k | Go_on | Fail_spuriously

definition dt_set :: "nat \<Rightarrow> 'k dt_phase \<Rightarrow> ('k, 'v) dt_world \<Rightarrow> ('k, 'v) dt_world" where
  "dt_set t p w = w\<lparr>dt_threads := (dt_threads w)[t := p]\<rparr>"

definition dt_insert_step :: "nat \<Rightarrow> 'k dt_phase \<Rightarrow> ('k, 'v) dt_world \<Rightarrow> ('k, 'v) dt_world option" where
  "dt_insert_step t p w = (case p of
     Made n \<Rightarrow> Some (dt_set t (Loaded n (dt_head w)) (w\<lparr>dt_next := (dt_next w)(n := dt_head w)\<rparr>))
   | Loaded n e \<Rightarrow>
       if dt_head w = e
       then Some (dt_set t (Linked n) (w\<lparr>dt_head := Some n, dt_linked := n # dt_linked w\<rparr>))
       else Some (dt_set t (Made n) w)
   | Linked n \<Rightarrow> Some (dt_set t Idle (w\<lparr>dt_count := dt_count w + 1\<rparr>))
   | _ \<Rightarrow> None)"

text \<open>A step that would use a node after it was deleted is undefined, and \<open>None\<close> here.\<close>

definition dt_remove_step :: "nat \<Rightarrow> 'k dt_phase \<Rightarrow> ('k, 'v) dt_world \<Rightarrow> ('k, 'v) dt_world option" where
  "dt_remove_step t p w = (case p of
     Walking k prev None \<Rightarrow> Some (dt_set t Idle w)
   | Walking k prev (Some c) \<Rightarrow>
       (case dt_node w c of
          None \<Rightarrow> None
        | Some (k', v) \<Rightarrow>
            if k' = k then Some (dt_set t (Unlinking c prev (dt_next w c)) w)
            else Some (dt_set t (Walking k (Some c) (dt_next w c)) w))
   | Unlinking c None nx \<Rightarrow> Some (dt_set t (Deleting c) (w\<lparr>dt_head := nx\<rparr>))
   | Unlinking c (Some q) nx \<Rightarrow>
       if dt_node w q = None then None else Some (dt_set t (Deleting c) (w\<lparr>dt_next := (dt_next w)(q := nx)\<rparr>))
   | Deleting c \<Rightarrow>
       if dt_node w c = None then None else Some (dt_set t Uncounting (w\<lparr>dt_node := (dt_node w)(c := None)\<rparr>))
   | Uncounting \<Rightarrow> Some (dt_set t Idle (w\<lparr>dt_count := dt_count w - 1\<rparr>))
   | _ \<Rightarrow> None)"

fun dt_do :: "nat \<times> ('k, 'v) dt_move \<Rightarrow> ('k, 'v) dt_world \<Rightarrow> ('k, 'v) dt_world option" where
  "dt_do (t, Insert k v) w =
     (if t < length (dt_threads w) \<and> dt_threads w ! t = Idle
      then Some (dt_set t (Made (dt_fresh w))
        (w\<lparr>dt_node := (dt_node w)(dt_fresh w \<mapsto> (k, v)), dt_next := (dt_next w)(dt_fresh w := None),
           dt_fresh := dt_fresh w + 1\<rparr>))
      else None)"
| "dt_do (t, Remove k) w =
     (if t < length (dt_threads w) \<and> dt_threads w ! t = Idle
      then Some (dt_set t (Walking k None (dt_head w)) w) else None)"
| "dt_do (t, Fail_spuriously) w =
     (if t < length (dt_threads w)
      then case dt_threads w ! t of Loaded n e \<Rightarrow> Some (dt_set t (Made n) w) | _ \<Rightarrow> None
      else None)"
| "dt_do (t, Go_on) w =
     (if t < length (dt_threads w)
      then case dt_insert_step t (dt_threads w ! t) w of
        Some w' \<Rightarrow> Some w'
      | None \<Rightarrow> dt_remove_step t (dt_threads w ! t) w
      else None)"

abbreviation dt_run :: "(nat \<times> ('k, 'v) dt_move) list \<Rightarrow> ('k, 'v) dt_world \<Rightarrow> ('k, 'v) dt_world option" where
  "dt_run \<equiv> run_moves dt_do"

section \<open>Insertions alone\<close>

fun chain :: "(nat \<Rightarrow> nat option) \<Rightarrow> nat option \<Rightarrow> nat list \<Rightarrow> bool" where
  "chain nx p [] = (p = None)"
| "chain nx p (n # ns) = (p = Some n \<and> chain nx (nx n) ns)"

lemma chain_other: "n \<notin> set ns \<Longrightarrow> chain (nx(n := q)) p ns = chain nx p ns"
  by (induction ns arbitrary: p) auto

fun is_remove :: "nat \<times> ('k, 'v) dt_move \<Rightarrow> bool" where
  "is_remove (t, Remove k) = True"
| "is_remove _ = False"

fun own_node :: "'k dt_phase \<Rightarrow> nat option" where
  "own_node (Made n) = Some n"
| "own_node (Loaded n e) = Some n"
| "own_node _ = None"

fun inserting :: "'k dt_phase \<Rightarrow> bool" where
  "inserting Idle = True"
| "inserting (Made n) = True"
| "inserting (Loaded n e) = True"
| "inserting (Linked n) = True"
| "inserting _ = False"

fun uncounted :: "'k dt_phase \<Rightarrow> bool" where
  "uncounted (Linked n) = True"
| "uncounted _ = False"

definition thread_fits :: "('k, 'v) dt_world \<Rightarrow> 'k dt_phase \<Rightarrow> bool" where
  "thread_fits w p = (inserting p
     \<and> (case own_node p of None \<Rightarrow> True | Some n \<Rightarrow> n < dt_fresh w \<and> n \<notin> set (dt_linked w))
     \<and> (case p of Loaded n e \<Rightarrow> dt_next w n = e | _ \<Rightarrow> True))"

definition dt_inv :: "('k, 'v) dt_world \<Rightarrow> bool" where
  "dt_inv w = (chain (dt_next w) (dt_head w) (dt_linked w) \<and> distinct (dt_linked w)
     \<and> (\<forall>n \<in> set (dt_linked w). n < dt_fresh w)
     \<and> (\<forall>t < length (dt_threads w). thread_fits w (dt_threads w ! t))
     \<and> (\<forall>t < length (dt_threads w). \<forall>u < length (dt_threads w). t \<noteq> u \<longrightarrow>
          own_node (dt_threads w ! t) = None \<or> own_node (dt_threads w ! t) \<noteq> own_node (dt_threads w ! u))
     \<and> dt_count w + int (length (filter uncounted (dt_threads w))) = int (length (dt_linked w)))"

text \<open>One thread moves on: what has to be checked.\<close>

lemma dt_inv_step:
  assumes inv: "dt_inv w" and t: "t < length (dt_threads w)" and same: "dt_threads w1 = dt_threads w"
    and chain: "chain (dt_next w1) (dt_head w1) (dt_linked w1)" "distinct (dt_linked w1)"
      "\<forall>n \<in> set (dt_linked w1). n < dt_fresh w1"
    and this_one: "thread_fits w1 p"
    and others: "\<And>u. u < length (dt_threads w) \<Longrightarrow> u \<noteq> t \<Longrightarrow> thread_fits w1 (dt_threads w ! u)"
    and own: "own_node p = None \<or> own_node p = own_node (dt_threads w ! t) \<or> own_node p = Some (dt_fresh w)"
    and counts: "dt_count w1 + of_bool (uncounted p) + int (length (dt_linked w))
      = dt_count w + of_bool (uncounted (dt_threads w ! t)) + int (length (dt_linked w1))"
  shows "dt_inv (dt_set t p w1)"
proof -
  have fresh: "own_node (dt_threads w ! u) \<noteq> Some (dt_fresh w)" if "u < length (dt_threads w)" for u
    using inv that by (auto simp: dt_inv_def thread_fits_def split: option.splits)
  have "thread_fits w1 ((dt_threads w)[t := p] ! u)" if "u < length (dt_threads w)" for u
    using this_one others that t by (cases "u = t") simp_all
  moreover have "thread_fits (dt_set t p w1) q = thread_fits w1 q" for q
    by (cases q) (simp_all add: thread_fits_def dt_set_def)
  moreover have "own_node ((dt_threads w)[t := p] ! u) = None
      \<or> own_node ((dt_threads w)[t := p] ! u) \<noteq> own_node ((dt_threads w)[t := p] ! v)"
    if "u < length (dt_threads w)" "v < length (dt_threads w)" "u \<noteq> v" for u v
    using inv own fresh that t unfolding dt_inv_def
    by (cases "u = t"; cases "v = t") (simp_all, metis+)
  moreover have "dt_count w1 + int (length (filter uncounted ((dt_threads w)[t := p]))) = int (length (dt_linked w1))"
    using filter_update [OF t, of uncounted p] counts inv by (simp add: dt_inv_def of_bool_def split: if_splits)
  ultimately show ?thesis
    using chain same by (auto simp: dt_inv_def dt_set_def)
qed

lemma inv_thread: "dt_inv w \<Longrightarrow> t < length (dt_threads w) \<Longrightarrow> thread_fits w (dt_threads w ! t)"
  by (simp add: dt_inv_def)

lemma inv_own:
  "dt_inv w \<Longrightarrow> t < length (dt_threads w) \<Longrightarrow> u < length (dt_threads w) \<Longrightarrow> t \<noteq> u
   \<Longrightarrow> own_node (dt_threads w ! t) = Some n \<Longrightarrow> own_node (dt_threads w ! u) \<noteq> Some n"
  unfolding dt_inv_def by (metis option.distinct(1))

lemma loaded_own: "p = Loaded n e \<Longrightarrow> own_node p = Some n"
  by simp

lemma insert_call_inv:
  assumes inv: "dt_inv w" and t: "t < length (dt_threads w)" and idle: "dt_threads w ! t = Idle"
  shows "dt_inv (dt_set t (Made (dt_fresh w))
    (w\<lparr>dt_node := (dt_node w)(dt_fresh w \<mapsto> (k, v)), dt_next := (dt_next w)(dt_fresh w := None), dt_fresh := dt_fresh w + 1\<rparr>))"
proof (rule dt_inv_step [OF inv t])
  have nf: "dt_fresh w \<notin> set (dt_linked w)" using inv by (auto simp: dt_inv_def)
  then show "thread_fits (w\<lparr>dt_node := (dt_node w)(dt_fresh w \<mapsto> (k, v)), dt_next := (dt_next w)(dt_fresh w := None),
      dt_fresh := dt_fresh w + 1\<rparr>) (Made (dt_fresh w))"
    by (simp add: thread_fits_def)
  fix u assume "u < length (dt_threads w)" "u \<noteq> t"
  then have "thread_fits w (dt_threads w ! u)" using inv_thread [OF inv] by simp
  then show "thread_fits (w\<lparr>dt_node := (dt_node w)(dt_fresh w \<mapsto> (k, v)), dt_next := (dt_next w)(dt_fresh w := None),
      dt_fresh := dt_fresh w + 1\<rparr>) (dt_threads w ! u)"
    by (cases "dt_threads w ! u") (auto simp: thread_fits_def)
qed (use inv idle in \<open>auto simp: dt_inv_def chain_other\<close>)

lemma load_inv:
  assumes inv: "dt_inv w" and t: "t < length (dt_threads w)" and made: "dt_threads w ! t = Made n"
  shows "dt_inv (dt_set t (Loaded n (dt_head w)) (w\<lparr>dt_next := (dt_next w)(n := dt_head w)\<rparr>))"
proof (rule dt_inv_step [OF inv t])
  have n: "n < dt_fresh w" "n \<notin> set (dt_linked w)"
    using inv_thread [OF inv t] made by (simp_all add: thread_fits_def)
  then show "thread_fits (w\<lparr>dt_next := (dt_next w)(n := dt_head w)\<rparr>) (Loaded n (dt_head w))"
    by (simp add: thread_fits_def)
  show "chain (dt_next (w\<lparr>dt_next := (dt_next w)(n := dt_head w)\<rparr>)) (dt_head (w\<lparr>dt_next := (dt_next w)(n := dt_head w)\<rparr>))
      (dt_linked (w\<lparr>dt_next := (dt_next w)(n := dt_head w)\<rparr>))"
    using inv n by (simp add: dt_inv_def chain_other)
  fix u assume u: "u < length (dt_threads w)" "u \<noteq> t"
  then have "own_node (dt_threads w ! u) \<noteq> Some n" using inv_own [OF inv t u(1)] made by auto
  moreover have "thread_fits w (dt_threads w ! u)" using inv_thread [OF inv u(1)] .
  ultimately show "thread_fits (w\<lparr>dt_next := (dt_next w)(n := dt_head w)\<rparr>) (dt_threads w ! u)"
    by (cases "dt_threads w ! u") (auto simp: thread_fits_def)
qed (use inv made in \<open>auto simp: dt_inv_def\<close>)

lemma exchange_inv:
  assumes inv: "dt_inv w" and t: "t < length (dt_threads w)" and loaded: "dt_threads w ! t = Loaded n (dt_head w)"
  shows "dt_inv (dt_set t (Linked n) (w\<lparr>dt_head := Some n, dt_linked := n # dt_linked w\<rparr>))"
proof (rule dt_inv_step [OF inv t])
  have n: "n < dt_fresh w" "n \<notin> set (dt_linked w)" "dt_next w n = dt_head w"
    using inv_thread [OF inv t] loaded by (simp_all add: thread_fits_def)
  show "chain (dt_next (w\<lparr>dt_head := Some n, dt_linked := n # dt_linked w\<rparr>))
      (dt_head (w\<lparr>dt_head := Some n, dt_linked := n # dt_linked w\<rparr>)) (dt_linked (w\<lparr>dt_head := Some n, dt_linked := n # dt_linked w\<rparr>))"
    "distinct (dt_linked (w\<lparr>dt_head := Some n, dt_linked := n # dt_linked w\<rparr>))"
    "\<forall>m \<in> set (dt_linked (w\<lparr>dt_head := Some n, dt_linked := n # dt_linked w\<rparr>)). m < dt_fresh (w\<lparr>dt_head := Some n, dt_linked := n # dt_linked w\<rparr>)"
    using inv n by (simp_all add: dt_inv_def)
  fix u assume u: "u < length (dt_threads w)" "u \<noteq> t"
  then have "own_node (dt_threads w ! u) \<noteq> Some n" using inv_own [OF inv t u(1)] loaded by auto
  moreover have "thread_fits w (dt_threads w ! u)" using inv_thread [OF inv u(1)] .
  ultimately show "thread_fits (w\<lparr>dt_head := Some n, dt_linked := n # dt_linked w\<rparr>) (dt_threads w ! u)"
    by (cases "dt_threads w ! u") (auto simp: thread_fits_def)
qed (use loaded in \<open>auto simp: thread_fits_def\<close>)

lemma phase_inv:
  assumes inv: "dt_inv w" and t: "t < length (dt_threads w)" and "thread_fits w p"
    and "own_node p = None \<or> own_node p = own_node (dt_threads w ! t)" and "uncounted p = uncounted (dt_threads w ! t)"
  shows "dt_inv (dt_set t p w)"
  by (rule dt_inv_step [OF inv t]) (use assms inv_thread [OF inv] in \<open>auto simp: dt_inv_def\<close>)

lemma count_inv:
  assumes inv: "dt_inv w" and t: "t < length (dt_threads w)" and linked: "dt_threads w ! t = Linked n"
  shows "dt_inv (dt_set t Idle (w\<lparr>dt_count := dt_count w + 1\<rparr>))"
proof (rule dt_inv_step [OF inv t])
  fix u assume "u < length (dt_threads w)" "u \<noteq> t"
  then have "thread_fits w (dt_threads w ! u)" using inv_thread [OF inv] by simp
  then show "thread_fits (w\<lparr>dt_count := dt_count w + 1\<rparr>) (dt_threads w ! u)"
    by (cases "dt_threads w ! u") (auto simp: thread_fits_def)
qed (use inv linked in \<open>auto simp: dt_inv_def thread_fits_def\<close>)

lemma go_on_inv:
  assumes inv: "dt_inv w" and step: "dt_do (t, Go_on) w = Some w'"
  shows "dt_inv w'"
proof -
  have t: "t < length (dt_threads w)" using step by (auto split: if_splits)
  note fits = inv_thread [OF inv t]
  show ?thesis
  proof (cases "dt_threads w ! t")
    case (Made n)
    then show ?thesis using step t load_inv [OF inv t Made] by (simp add: dt_insert_step_def)
  next
    case (Loaded n e)
    show ?thesis
    proof (cases "dt_head w = e")
      case True
      then show ?thesis using step t Loaded exchange_inv [OF inv t] by (simp add: dt_insert_step_def)
    next
      case False
      have "dt_inv (dt_set t (Made n) w)"
        by (rule phase_inv [OF inv t]) (use fits Loaded in \<open>simp_all add: thread_fits_def\<close>)
      then show ?thesis using False step t Loaded by (simp add: dt_insert_step_def)
    qed
  next
    case (Linked n)
    then show ?thesis using step t count_inv [OF inv t Linked] by (simp add: dt_insert_step_def)
  qed (use step t fits in \<open>simp_all add: dt_insert_step_def dt_remove_step_def thread_fits_def\<close>)
qed

lemma dt_do_inv:
  assumes inv: "dt_inv w" and "dt_do m w = Some w'" and "\<not> is_remove m"
  shows "dt_inv w'"
proof -
  obtain t c where m: "m = (t, c)" by (cases m)
  show ?thesis
  proof (cases c)
    case (Insert k v)
    then have "t < length (dt_threads w)" "dt_threads w ! t = Idle" using assms(2) m by (auto split: if_splits)
    from insert_call_inv [OF inv this] show ?thesis using assms(2) m Insert by (auto split: if_splits)
  next
    case Go_on
    then show ?thesis using go_on_inv [OF inv] assms(2) m by blast
  next
    case Fail_spuriously
    then obtain n e where t: "t < length (dt_threads w)" "dt_threads w ! t = Loaded n e" "w' = dt_set t (Made n) w"
      using assms(2) m by (auto split: if_splits dt_phase.splits)
    show ?thesis unfolding t(3)
      by (rule phase_inv [OF inv t(1)]) (use inv_thread [OF inv t(1)] t(2) in \<open>simp_all add: thread_fits_def\<close>)
  qed (use assms(3) m in simp)
qed

interpretation insertions: run_invariant dt_do dt_inv is_remove
  by unfold_locales (rule dt_do_inv)

lemma dt_inv_initial: "dt_inv (dt_initial n)"
  by (auto simp: dt_inv_def dt_initial_def thread_fits_def)

text \<open>
  C7: however any number of threads interleave their insertions into a bucket, spurious failures
  of the weak exchange included, following the pointers from the bucket meets exactly the nodes
  whose exchange succeeded, the latest first and each once, and the count is their number less
  the threads that have still to count: no insertion is lost.
\<close>

theorem concurrent_inserts_all_linked:
  assumes "dt_run ms (dt_initial n) = Some w" and "\<not> list_ex is_remove ms"
  shows "chain (dt_next w) (dt_head w) (dt_linked w) \<and> distinct (dt_linked w)
    \<and> dt_count w + int (length (filter uncounted (dt_threads w))) = int (length (dt_linked w))"
  using insertions.run_inv [OF dt_inv_initial assms] by (simp add: dt_inv_def)

lemma concurrent_inserts_all_linked_witness:
  "(case dt_run [(0, Insert 5 ''a''), (1, Insert 6 ''b''), (0, Go_on), (1, Go_on), (1, Go_on), (0, Go_on), (0, Go_on),
      (0, Go_on), (1, Go_on)] (dt_initial 2 :: (nat, string) dt_world) of None \<Rightarrow> False
    | Some w \<Rightarrow> dt_linked w = [0, 1] \<and> dt_count w + 1 = 2 \<and> chain (dt_next w) (dt_head w) [0, 1])"
proof -
  let ?ms = "[(0, Insert 5 ''a''), (1, Insert 6 ''b''), (0, Go_on), (1, Go_on), (1, Go_on), (0, Go_on), (0, Go_on),
      (0, Go_on), (1, Go_on)] :: (nat \<times> (nat, string) dt_move) list"
  note calc = dt_initial_def dt_set_def dt_insert_step_def eval_nat_numeral
  have "dt_run ?ms (dt_initial 2) \<noteq> None" by (simp add: calc)
  then obtain w where w: "dt_run ?ms (dt_initial 2) = Some w" by blast
  then have "dt_linked w = [0, 1]" "filter uncounted (dt_threads w) = [Linked 0]" by (auto simp: calc)
  with concurrent_inserts_all_linked [OF w] w show ?thesis by simp
qed

section \<open>Insertions and removals\<close>

text \<open>
  A removal loses a concurrent insertion: thread 1 finds the node of key 5 at the front of
  the bucket and reads its next pointer, thread 0 inserts key 6 and returns, and thread 1
  stores the old next pointer over the bucket. Then all threads are done, only key 5 was
  removed, and the bucket is empty while the count says that it holds one entry.
\<close>

theorem removal_loses_insertion:
  "(case dt_run [(0, Insert 5 ''a''), (0, Go_on), (0, Go_on), (0, Go_on), (1, Remove 5), (1, Go_on),
      (0, Insert 6 ''b''), (0, Go_on), (0, Go_on), (0, Go_on), (1, Go_on), (1, Go_on), (1, Go_on)]
      (dt_initial 2 :: (nat, string) dt_world) of None \<Rightarrow> False
    | Some w \<Rightarrow> dt_threads w = [Idle, Idle] \<and> dt_linked w = [1, 0] \<and> dt_node w 1 = Some (6, ''b'')
        \<and> dt_head w = None \<and> dt_count w = 1)"
  by (simp add: dt_initial_def dt_set_def dt_insert_step_def dt_remove_step_def eval_nat_numeral)

text \<open>
  Two removals of one key can both find its node before either unlinks it: both then delete it,
  and the second delete is undefined.
\<close>

lemma removals_delete_twice:
  "case dt_run [(0, Insert 5 ''a''), (0, Go_on), (0, Go_on), (0, Go_on), (0, Remove 5), (0, Go_on), (1, Remove 5), (1, Go_on),
      (0, Go_on), (1, Go_on), (0, Go_on)] (dt_initial 2 :: (nat, string) dt_world) of None \<Rightarrow> False
    | Some w \<Rightarrow> dt_threads w = [Uncounting, Deleting 0] \<and> dt_node w 0 = None \<and> dt_do (1, Go_on) w = None"
  by (simp add: dt_initial_def dt_set_def dt_insert_step_def dt_remove_step_def eval_nat_numeral)

end
