(* ===== verification/String_View.thy ===== *)
theory String_View
  imports Ascii
begin

text \<open>
  The searches of \<^verbatim>\<open>std::string_view\<close> the sources call, on strings as lists of
  characters: positions are \<^verbatim>\<open>std::size_t\<close>, and a search that fails gives \<open>npos\<close>. Each
  search is a computable walk along the string; the lemmas say which position it finds.
\<close>

section \<open>The first and the last match\<close>

fun first_index :: "('a \<Rightarrow> bool) \<Rightarrow> 'a list \<Rightarrow> nat option" where
  "first_index P [] = None"
| "first_index P (x # xs) = (if P x then Some 0 else map_option Suc (first_index P xs))"

fun last_index :: "('a \<Rightarrow> bool) \<Rightarrow> 'a list \<Rightarrow> nat option" where
  "last_index P [] = None"
| "last_index P (x # xs) =
     (case last_index P xs of
        Some i \<Rightarrow> Some (Suc i)
      | None \<Rightarrow> if P x then Some 0 else None)"

definition or_npos :: "nat option \<Rightarrow> nat" where
  "or_npos r = (case r of None \<Rightarrow> npos | Some i \<Rightarrow> i)"

lemma first_index_None: "first_index P xs = None \<longleftrightarrow> (\<forall>x \<in> set xs. \<not> P x)"
  by (induction xs) auto

lemma first_index_Some:
  "first_index P xs = Some i \<longleftrightarrow> i < length xs \<and> P (xs ! i) \<and> (\<forall>j < i. \<not> P (xs ! j))"
proof (induction xs arbitrary: i)
  case (Cons x xs)
  show ?case
  proof (cases i)
    case (Suc k)
    have "(\<forall>j < Suc k. \<not> P ((x # xs) ! j)) \<longleftrightarrow> \<not> P x \<and> (\<forall>j < k. \<not> P (xs ! j))"
      by (auto simp: less_Suc_eq_0_disj)
    then show ?thesis using Cons.IH [of k] Suc by auto
  qed auto
qed simp

lemma first_index_split:
  assumes "first_index P xs = Some i"
  shows "xs = take i xs @ xs ! i # drop (Suc i) xs" and "P (xs ! i)" and "\<forall>x \<in> set (take i xs). \<not> P x"
proof -
  have i: "i < length xs" "P (xs ! i)" "\<forall>j < i. \<not> P (xs ! j)"
    using assms by (auto simp: first_index_Some)
  show "P (xs ! i)" by (fact i(2))
  show "xs = take i xs @ xs ! i # drop (Suc i) xs" using i(1) by (rule id_take_nth_drop)
  show "\<forall>x \<in> set (take i xs). \<not> P x" using i(3) by (auto simp: in_set_conv_nth)
qed

lemma first_index_append:
  "\<forall>x \<in> set u. \<not> P x \<Longrightarrow> first_index P (u @ v) = map_option ((+) (length u)) (first_index P v)"
  by (induction u; cases "first_index P v") auto

lemma last_index_None: "last_index P xs = None \<longleftrightarrow> (\<forall>x \<in> set xs. \<not> P x)"
  by (induction xs) (auto split: option.splits)

lemma last_index_snoc:
  "last_index P (xs @ [x]) = (if P x then Some (length xs) else last_index P xs)"
  by (induction xs) (auto split: option.splits)

lemma last_index_Some:
  "last_index P xs = Some i \<longleftrightarrow>
   i < length xs \<and> P (xs ! i) \<and> (\<forall>j. i < j \<and> j < length xs \<longrightarrow> \<not> P (xs ! j))"
proof (induction xs rule: rev_induct)
  case (snoc x xs)
  then show ?case
    by (auto simp: last_index_snoc nth_append less_Suc_eq)
qed simp

section \<open>Searches\<close>

definition sv_find_first_of :: "string \<Rightarrow> string \<Rightarrow> nat \<Rightarrow> nat" where
  "sv_find_first_of str chars pos =
     or_npos (map_option ((+) pos) (first_index (\<lambda>c. c \<in> set chars) (drop pos str)))"

definition sv_find_first_not_of :: "string \<Rightarrow> string \<Rightarrow> nat \<Rightarrow> nat" where
  "sv_find_first_not_of str chars pos =
     or_npos (map_option ((+) pos) (first_index (\<lambda>c. c \<notin> set chars) (drop pos str)))"

definition sv_find_last_not_of :: "string \<Rightarrow> string \<Rightarrow> nat" where
  "sv_find_last_not_of str chars = or_npos (last_index (\<lambda>c. c \<notin> set chars) str)"

fun occurs_at :: "string \<Rightarrow> string \<Rightarrow> bool" where
  "occurs_at [] str = True"
| "occurs_at (p # ps) [] = False"
| "occurs_at (p # ps) (c # cs) = (p = c \<and> occurs_at ps cs)"

lemma occurs_at_prefix: "occurs_at p s \<longleftrightarrow> prefix p s"
  by (induction p s rule: occurs_at.induct) auto

fun find_from :: "string \<Rightarrow> string \<Rightarrow> nat option" where
  "find_from p [] = (if p = [] then Some 0 else None)"
| "find_from p (c # cs) =
     (if occurs_at p (c # cs) then Some 0 else map_option Suc (find_from p cs))"

fun rfind_from :: "string \<Rightarrow> string \<Rightarrow> nat option" where
  "rfind_from p [] = (if p = [] then Some 0 else None)"
| "rfind_from p (c # cs) =
     (case rfind_from p cs of
        Some i \<Rightarrow> Some (Suc i)
      | None \<Rightarrow> if occurs_at p (c # cs) then Some 0 else None)"

definition sv_find :: "string \<Rightarrow> string \<Rightarrow> nat" where
  "sv_find str p = or_npos (find_from p str)"

definition sv_rfind :: "string \<Rightarrow> string \<Rightarrow> nat" where
  "sv_rfind str p = or_npos (rfind_from p str)"

definition sv_substr :: "string \<Rightarrow> nat \<Rightarrow> nat \<Rightarrow> string res" where
  "sv_substr str pos n =
     (if pos > length str then Inl (Range ''string_view::substr'') else Inr (take n (drop pos str)))"

text \<open>\<^verbatim>\<open>operator[]\<close> reads a character that is there, or is undefined.\<close>

definition sv_at :: "string \<Rightarrow> nat \<Rightarrow> char res" where
  "sv_at str pos = (if pos < length str then Inr (str ! pos) else Inl Undefined)"

section \<open>What they find\<close>

lemma or_npos_simps [simp]: "or_npos None = npos" "or_npos (Some i) = i"
  by (simp_all add: or_npos_def)

lemma npos_eq_iff: "length str < npos \<Longrightarrow> first_index P (drop pos str) = Some i \<Longrightarrow> pos + i < npos"
  by (auto simp: first_index_Some)

lemma find_first_of_cases:
  assumes "length str < npos"
  shows "(sv_find_first_of str chars pos = npos \<and> set (drop pos str) \<inter> set chars = {}) \<or>
    (\<exists>u d v. drop pos str = u @ d # v \<and> set u \<inter> set chars = {} \<and> d \<in> set chars \<and>
      sv_find_first_of str chars pos = pos + length u \<and> pos + length u < length str)"
proof (cases "first_index (\<lambda>c. c \<in> set chars) (drop pos str)")
  case None
  then have "set (drop pos str) \<inter> set chars = {}" by (auto simp: first_index_None)
  then show ?thesis using None by (simp add: sv_find_first_of_def)
next
  case (Some i)
  note s = first_index_split [OF Some]
  have "i < length (drop pos str)" using Some by (simp add: first_index_Some)
  then show ?thesis
    using s Some
    by (intro disjI2 exI [of _ "take i (drop pos str)"] exI [of _ "drop pos str ! i"]
        exI [of _ "drop (Suc i) (drop pos str)"]) (auto simp: sv_find_first_of_def)
qed

lemma find_first_not_of_cases:
  assumes "length str < npos"
  shows "(sv_find_first_not_of str chars pos = npos \<and> set (drop pos str) \<subseteq> set chars) \<or>
    (\<exists>u d v. drop pos str = u @ d # v \<and> set u \<subseteq> set chars \<and> d \<notin> set chars \<and>
      sv_find_first_not_of str chars pos = pos + length u \<and> pos + length u < length str)"
proof (cases "first_index (\<lambda>c. c \<notin> set chars) (drop pos str)")
  case None
  then have "set (drop pos str) \<subseteq> set chars" by (auto simp: first_index_None)
  then show ?thesis using None by (simp add: sv_find_first_not_of_def)
next
  case (Some i)
  note s = first_index_split [OF Some]
  have "i < length (drop pos str)" using Some by (simp add: first_index_Some)
  then show ?thesis
    using s Some
    by (intro disjI2 exI [of _ "take i (drop pos str)"] exI [of _ "drop pos str ! i"]
        exI [of _ "drop (Suc i) (drop pos str)"]) (auto simp: sv_find_first_not_of_def)
qed

lemma find_first_of_here: "pos < length str \<Longrightarrow> str ! pos \<in> set chars \<Longrightarrow> sv_find_first_of str chars pos = pos"
  by (simp add: sv_find_first_of_def drop_eq_nth_Cons)

lemma find_from_prefix: "find_from p s = Some 0 \<longleftrightarrow> prefix p s"
  by (cases s) (auto simp: occurs_at_prefix)

lemma find_from_Some_iff: "find_from p s \<noteq> None \<longleftrightarrow> sublist p s"
  by (induction s) (auto simp: occurs_at_prefix sublist_Cons_right)

lemma find_from_bound: "find_from p s = Some i \<Longrightarrow> i + length p \<le> length s"
  by (induction s arbitrary: i) (auto simp: occurs_at_prefix dest: prefix_length_le split: if_splits)

lemma rfind_from_drop: "rfind_from p s = Some i \<Longrightarrow> i + length p \<le> length s \<and> prefix p (drop i s)"
  by (induction s arbitrary: i)
    (auto simp: occurs_at_prefix dest: prefix_length_le split: if_splits option.splits)

lemma rfind_from_suffix:
  assumes "suffix p s"
  shows "rfind_from p s = Some (length s - length p)"
  using assms
proof (induction s)
  case (Cons c s)
  show ?case
  proof (cases "p = c # s")
    case True
    then have "rfind_from p s = None"
      using rfind_from_drop [of p s] by (cases "rfind_from p s") auto
    then show ?thesis using True by (simp add: occurs_at_prefix)
  next
    case False
    then have "suffix p s" using Cons.prems by (simp add: suffix_Cons)
    then show ?thesis
      using Cons.IH suffix_length_le [of p s] by (simp add: Suc_diff_le)
  qed
qed simp

end
