(* ===== verification/Strings.thy ===== *)
theory Strings
  imports String_View
begin

text \<open>
  The string functions of \<^verbatim>\<open>src/src/strings.hpp\<close>, on strings of single-byte characters:
  case conversion and comparison, prefix and suffix tests, trimming, quotes, splitting,
  joining, tokens and the number tests.
\<close>

section \<open>Views\<close>

text \<open>
  \<^verbatim>\<open>to_string_view\<close> of a string, and of a pointer to characters, given by the memory that follows it: the
  view ends before the first null character.
\<close>

definition to_string_view :: "string \<Rightarrow> string" where
  "to_string_view s = s"

definition pointer_string_view :: "string \<Rightarrow> string res" where
  "pointer_string_view mem =
     (if CHR 0x00 \<in> set mem then Inr (takeWhile (\<lambda>c. c \<noteq> CHR 0x00) mem) else Inl Undefined)"

lemma pointer_string_view_of_literal:
  "CHR 0x00 \<notin> set s \<Longrightarrow> pointer_string_view (s @ CHR 0x00 # rest) = Inr (to_string_view s)"
  by (simp add: pointer_string_view_def to_string_view_def takeWhile_eq_all_conv takeWhile_tail)
    (metis (mono_tags, lifting) append_Nil2 takeWhile.simps(2) takeWhile_append2)

section \<open>Case\<close>

definition to_upper :: "string \<Rightarrow> string" where
  "to_upper input = map toupper input"

definition to_lower :: "string \<Rightarrow> string" where
  "to_lower input = map tolower input"

text \<open>The loop of \<^verbatim>\<open>starts_case\<close> and \<^verbatim>\<open>ends_case\<close> over the index.\<close>

function same_case_from :: "string \<Rightarrow> string \<Rightarrow> nat \<Rightarrow> bool" where
  "same_case_from head pfx i =
     (if i < length pfx
      then if tolower (head ! i) \<noteq> tolower (pfx ! i) then False
           else same_case_from head pfx (Suc i)
      else True)"
  by pat_completeness auto
termination by (relation "measure (\<lambda>(_, p, i). length p - i)") auto

declare same_case_from.simps [simp del]

definition starts_case :: "string \<Rightarrow> string \<Rightarrow> bool" where
  "starts_case source pfx =
     (if pfx = [] \<or> length source < length pfx then False
      else same_case_from (take (length pfx) source) pfx 0)"

definition ends_case :: "string \<Rightarrow> string \<Rightarrow> bool" where
  "ends_case source sfx =
     (let size_s = length source; size_p = length sfx in
      if size_p = 0 \<or> size_s < size_p then False
      else same_case_from (drop (size_s - size_p) source) sfx 0)"

section \<open>Containment\<close>

definition starts_with :: "string \<Rightarrow> string \<Rightarrow> bool" where
  "starts_with source pfx = (sv_find source pfx = 0)"

definition ends_with :: "string \<Rightarrow> string \<Rightarrow> bool" where
  "ends_with source sfx =
     (if length source < length sfx then False
      else let pos = sv_rfind source sfx in
        if pos > length source then False else drop pos source = sfx)"

definition contains :: "string \<Rightarrow> string \<Rightarrow> bool" where
  "contains from sought = (sv_find from sought \<le> length from)"

section \<open>Trimming and quotes\<close>

definition blanks :: string where
  "blanks = [CHR '' '', CHR 0x09, CHR 0x0C, CHR 0x0B, CHR 0x0A, CHR 0x0D]"

definition trim :: "string \<Rightarrow> string \<Rightarrow> string" where
  "trim str sep =
     (let last = sv_find_last_not_of str sep in
      if last > length str then [] else take (Suc last) str)"

definition strip :: "string \<Rightarrow> string \<Rightarrow> string res" where
  "strip str sep =
     (let first = sv_find_first_not_of str sep 0; last = sv_find_last_not_of str sep in
      if last > length str then Inr [] else sv_substr str first (last - first + 1))"

definition quote_pairs :: string where
  "quote_pairs = [CHR 0x22, CHR 0x22, CHR 0x27, CHR 0x27, CHR 0x7B, CHR 0x7D]"

definition unquote :: "string \<Rightarrow> string \<Rightarrow> string res" where
  "unquote str pairs =
     (if str = [] then Inr str
      else let pos = sv_find_first_of pairs [str ! 0] 0 in
        if pos > length str \<or> odd pos then Inr str
        else let len = length str - 1 in
          if len < 1 then Inr str
          else case sv_at pairs (Suc pos) of
            Inl e \<Rightarrow> Inl e
          | Inr q \<Rightarrow> if str ! len = q then sv_substr str 1 (len - 1) else Inr str)"

definition is_line :: "string \<Rightarrow> bool" where
  "is_line str = (if str = [] then False else str ! (length str - 1) = CHR 0x0A)"

definition is_quoted :: "string \<Rightarrow> string \<Rightarrow> bool res" where
  "is_quoted str pairs =
     (if length str < 2 then Inr False
      else let pos = sv_find_first_of pairs [str ! 0] 0 in
        if pos = npos \<or> odd pos then Inr False
        else map_res (\<lambda>q. str ! (length str - 1) = q) (sv_at pairs (Suc pos)))"

section \<open>Numbers\<close>

function is_unsigned_from :: "string \<Rightarrow> nat \<Rightarrow> bool" where
  "is_unsigned_from str pos =
     (if pos < length str
      then if code_of (str ! pos) < 48 \<or> code_of (str ! pos) > 57 then False
           else is_unsigned_from str (Suc pos)
      else True)"
  by pat_completeness auto
termination by (relation "measure (\<lambda>(s, p). length s - p)") auto

declare is_unsigned_from.simps [simp del]

definition is_unsigned :: "string \<Rightarrow> bool" where
  "is_unsigned str = (if length str = 0 then False else is_unsigned_from str 0)"

definition is_integer :: "string \<Rightarrow> bool" where
  "is_integer str =
     (if str = [] then False
      else if str ! 0 = CHR ''-'' then is_unsigned (take (length str - 1) (drop 1 str))
      else is_unsigned str)"

section \<open>Splitting, joining and tokens\<close>

text \<open>
  \<^verbatim>\<open>count\<close> is an \<^verbatim>\<open>unsigned\<close> that is incremented only while it is below \<^verbatim>\<open>max\<close>, so it does
  not wrap.
\<close>

function split_loop :: "string \<Rightarrow> string \<Rightarrow> nat \<Rightarrow> nat \<Rightarrow> nat \<Rightarrow> nat \<Rightarrow> string list \<Rightarrow> string list res" where
  "split_loop str delim limit count current prev result =
     (let count = (if limit = 0 then count else Suc count) in
      if (limit = 0 \<or> count < limit) \<and> current \<noteq> npos
      then case sv_substr str prev (sz_sub current prev) of
             Inl e \<Rightarrow> Inl e
           | Inr piece \<Rightarrow>
               split_loop str delim limit count (sv_find_first_of str delim (Suc current))
                 (Suc current) (result @ [piece])
      else map_res (\<lambda>rest. result @ [rest]) (sv_substr str prev npos))"
  by pat_completeness auto
termination
  by (relation "measure (\<lambda>(s, _, _, _, current, _). if current = npos then 0 else Suc (length s - current))")
    (auto simp: sv_find_first_of_def first_index_Some or_npos_def split: option.splits)

declare split_loop.simps [simp del]

definition split :: "string \<Rightarrow> string \<Rightarrow> nat \<Rightarrow> string list res" where
  "split str delim limit = split_loop str delim limit 0 (sv_find_first_of str delim 0) 0 []"

fun join_loop :: "string list \<Rightarrow> string \<Rightarrow> string \<Rightarrow> string \<Rightarrow> string" where
  "join_loop [] delim separator result = result"
| "join_loop (str # list) delim separator result = join_loop list delim delim (result @ separator @ str)"

definition join :: "string list \<Rightarrow> string \<Rightarrow> string" where
  "join list delim = join_loop list delim [] []"

text \<open>
  One turn of the loop of \<^verbatim>\<open>tokenize\<close>: the token and the position that the code's
  \<^verbatim>\<open>current\<close> has at the label \<^verbatim>\<open>finish\<close>.
\<close>

definition next_token :: "string \<Rightarrow> string \<Rightarrow> nat \<Rightarrow> nat \<Rightarrow> (string \<times> nat) res" where
  "next_token str quotes current prev =
     (case sv_at str prev of
        Inl e \<Rightarrow> Inl e
      | Inr c \<Rightarrow>
          let plain = map_res (\<lambda>t. (t, current)) (sv_substr str prev (sz_sub current prev));
              lead = sv_find_first_of quotes [c] 0 in
          if lead \<noteq> npos
          then case sv_at quotes (Suc lead) of
                 Inl e \<Rightarrow> Inl e
               | Inr q \<Rightarrow>
                   let tail = sv_find_first_of str [q] (Suc prev) in
                   if tail \<noteq> npos
                   then map_res (\<lambda>t. (t, tail)) (sv_substr str prev (sz_sub tail prev + 1))
                   else plain
          else plain)"

lemma next_token_bounds:
  assumes "next_token str quotes current prev = Inr (t, n)"
  shows "prev < length str \<and> (n = current \<or> prev < n)"
  using assms
  by (auto simp: next_token_def sv_at_def sv_find_first_of_def or_npos_def Let_def map_res_eq_Inr
      split: if_splits sum.splits option.splits)

lemma find_first_of_ge: "sv_find_first_of s d p = npos \<or> p \<le> sv_find_first_of s d p"
  by (auto simp: sv_find_first_of_def or_npos_def split: option.splits)

lemma find_first_not_of_ge: "sv_find_first_not_of s d p = npos \<or> p \<le> sv_find_first_not_of s d p"
  by (auto simp: sv_find_first_not_of_def or_npos_def split: option.splits)

function tokenize_loop :: "string \<Rightarrow> string \<Rightarrow> string \<Rightarrow> nat \<Rightarrow> nat \<Rightarrow> string list \<Rightarrow> string list res" where
  "tokenize_loop str delim quotes current prev result =
     (if current \<noteq> npos
      then case next_token str quotes current prev of
             Inl e \<Rightarrow> Inl e
           | Inr (token, current) \<Rightarrow>
               (let current = Suc current;
                    prev = sv_find_first_not_of str delim current;
                    prev = (if prev = npos then current else prev);
                    current = sv_find_first_of str delim prev
                in tokenize_loop str delim quotes current prev (result @ [token]))
      else if prev < length str then map_res (\<lambda>rest. result @ [rest]) (sv_substr str prev npos)
      else Inr result)"
  by pat_completeness auto

termination
proof (relation "measure (\<lambda>(s, _, _, current, prev, _).
    if current \<noteq> npos \<and> current < prev then Suc (length s) else length s - prev)", goal_cases)
  case (2 str delim quotes current prev result y x n c p q c')
  have b: "prev < length str" "n = current \<or> prev < n"
    using next_token_bounds [of str quotes current prev x n] 2 by auto
  have q: "Suc n \<le> q" using find_first_not_of_ge [of str delim "Suc n"] 2 by auto
  have "c' = npos \<or> q \<le> c'" using find_first_of_ge [of str delim q] 2 by auto
  then have "\<not> (c' \<noteq> npos \<and> c' < q)" by auto
  then show ?case using b q 2(1) by auto
qed simp

declare tokenize_loop.simps [simp del]

definition tokenize :: "string \<Rightarrow> string \<Rightarrow> string \<Rightarrow> string list res" where
  "tokenize str delim quotes =
     (let current = sv_find_first_of str delim 0;
          prev = sv_find_first_not_of str delim 0;
          prev = (if prev = npos then 0 else prev)
      in tokenize_loop str delim quotes current prev [])"

section \<open>Case and containment against lists\<close>

lemma same_case_from_iff:
  "same_case_from head p i \<longleftrightarrow> (\<forall>j. i \<le> j \<and> j < length p \<longrightarrow> tolower (head ! j) = tolower (p ! j))"
proof (induction head p i rule: same_case_from.induct)
  case (1 head p i)
  then show ?case
    by (subst same_case_from.simps) (auto simp: le_less_Suc_eq Suc_le_eq, metis nat_less_le)
qed

lemma same_case_0:
  "length head = length p \<Longrightarrow> same_case_from head p 0 \<longleftrightarrow> to_lower head = to_lower p"
  by (auto simp: same_case_from_iff to_lower_def list_eq_iff_nth_eq)

lemma prefix_take_iff: "length p \<le> length s \<Longrightarrow> prefix p s \<longleftrightarrow> take (length p) s = p"
  by (auto simp: prefix_def) (metis append_take_drop_id)

lemma starts_case_iff: "starts_case s p \<longleftrightarrow> p \<noteq> [] \<and> prefix (to_lower p) (to_lower s)"
proof (cases "length p \<le> length s")
  case True
  then have "starts_case s p \<longleftrightarrow> p \<noteq> [] \<and> to_lower (take (length p) s) = to_lower p"
    by (simp add: starts_case_def same_case_0)
  also have "to_lower (take (length p) s) = to_lower p \<longleftrightarrow> prefix (to_lower p) (to_lower s)"
    using True by (simp add: prefix_take_iff to_lower_def take_map)
  finally show ?thesis .
next
  case False
  then show ?thesis using prefix_length_le by (fastforce simp: starts_case_def to_lower_def)
qed

lemma suffix_drop_iff: "length p \<le> length s \<Longrightarrow> suffix p s \<longleftrightarrow> drop (length s - length p) s = p"
  by (auto simp: suffix_def) (metis append_take_drop_id)

lemma ends_case_iff: "ends_case s p \<longleftrightarrow> p \<noteq> [] \<and> suffix (to_lower p) (to_lower s)"
proof (cases "length p \<le> length s")
  case True
  then have "ends_case s p \<longleftrightarrow> p \<noteq> [] \<and> to_lower (drop (length s - length p) s) = to_lower p"
    by (simp add: ends_case_def Let_def same_case_0)
  also have "to_lower (drop (length s - length p) s) = to_lower p \<longleftrightarrow> suffix (to_lower p) (to_lower s)"
    using True by (simp add: suffix_drop_iff to_lower_def drop_map)
  finally show ?thesis .
next
  case False
  then show ?thesis using suffix_length_le by (fastforce simp: ends_case_def Let_def to_lower_def)
qed

lemma npos_pos: "0 < npos" "npos \<noteq> 0"
  by (simp_all add: npos_def)

lemma starts_with_iff: "starts_with s p \<longleftrightarrow> prefix p s"
  using find_from_prefix [of p s] npos_pos
  by (cases "find_from p s") (auto simp: starts_with_def sv_find_def)

lemma contains_iff: "length s < npos \<Longrightarrow> contains s p \<longleftrightarrow> sublist p s"
  using find_from_Some_iff [of p s] find_from_bound [of p s]
  by (cases "find_from p s") (auto simp: contains_def sv_find_def)

lemma ends_with_iff:
  assumes "length s < npos"
  shows "ends_with s p \<longleftrightarrow> suffix p s"
proof
  assume "suffix p s"
  then show "ends_with s p"
    using rfind_from_suffix [of p s] suffix_length_le [of p s]
    by (simp add: ends_with_def sv_rfind_def Let_def suffix_drop_iff)
next
  assume "ends_with s p"
  then show "suffix p s" by (auto simp: ends_with_def Let_def split: if_splits) (metis suffix_drop)
qed

lemma to_lower_upper [simp]: "to_lower (to_upper s) = to_lower s"
  by (simp add: to_lower_def to_upper_def)

section \<open>Trimming\<close>

lemma trim_parts:
  assumes "length s < npos"
  shows "\<exists>t. s = trim s sep @ t \<and> set t \<subseteq> set sep \<and> (trim s sep = [] \<or> last (trim s sep) \<notin> set sep)"
proof (cases "last_index (\<lambda>c. c \<notin> set sep) s")
  case None
  then have "trim s sep = []" using assms by (simp add: trim_def sv_find_last_not_of_def)
  moreover have "set s \<subseteq> set sep" using None by (auto simp: last_index_None)
  ultimately show ?thesis by simp
next
  case (Some i)
  then have i: "i < length s" "s ! i \<notin> set sep" "\<forall>j. i < j \<and> j < length s \<longrightarrow> s ! j \<in> set sep"
    by (auto simp: last_index_Some)
  have t: "trim s sep = take (Suc i) s"
    using Some i(1) by (simp add: trim_def sv_find_last_not_of_def)
  have "last (take (Suc i) s) = s ! i" using i(1) by (simp add: take_Suc_conv_app_nth)
  moreover have "set (drop (Suc i) s) \<subseteq> set sep" using i(3) by (auto simp: in_set_conv_nth)
  ultimately show ?thesis unfolding t using i(2) by (intro exI [of _ "drop (Suc i) s"]) simp
qed

lemma strip_parts:
  assumes "length s < npos"
  shows "\<exists>a m b. strip s sep = Inr m \<and> s = a @ m @ b \<and> set a \<subseteq> set sep \<and> set b \<subseteq> set sep
    \<and> (m = [] \<or> hd m \<notin> set sep \<and> last m \<notin> set sep)"
proof (cases "last_index (\<lambda>c. c \<notin> set sep) s")
  case None
  then have "strip s sep = Inr []" using assms by (simp add: strip_def sv_find_last_not_of_def)
  moreover have "set s \<subseteq> set sep" using None by (auto simp: last_index_None)
  ultimately show ?thesis by (intro exI [of _ s] exI [of _ "[]"]) simp
next
  case (Some l)
  then have l: "l < length s" "s ! l \<notin> set sep" "\<forall>j. l < j \<and> j < length s \<longrightarrow> s ! j \<in> set sep"
    by (auto simp: last_index_Some)
  then obtain f where f: "first_index (\<lambda>c. c \<notin> set sep) s = Some f"
    using first_index_None [of "\<lambda>c. c \<notin> set sep" s] by (cases "first_index (\<lambda>c. c \<notin> set sep) s") auto
  then have f': "f < length s" "s ! f \<notin> set sep" "\<forall>j < f. s ! j \<in> set sep"
    by (auto simp: first_index_Some)
  have fl: "f \<le> l" using f'(3) l(2) by (meson not_le)
  define m where "m = take (l - f + 1) (drop f s)"
  have "strip s sep = Inr m"
    using Some f l(1) f'(1)
    by (simp add: strip_def sv_find_last_not_of_def sv_find_first_not_of_def sv_substr_def m_def Let_def)
  moreover have "s = take f s @ m @ drop (Suc l) s"
  proof -
    have "drop (Suc l) s = drop (l - f + 1) (drop f s)" using fl by simp
    then show ?thesis unfolding m_def by (metis append_take_drop_id)
  qed
  moreover have "hd m = s ! f" "m \<noteq> []"
    using f'(1) by (simp_all add: m_def hd_drop_conv_nth)
  moreover have "last m = s ! l"
  proof -
    have "m ! (l - f) = s ! l" "length m = Suc (l - f)" using fl l(1) by (simp_all add: m_def)
    then show ?thesis using \<open>m \<noteq> []\<close> by (simp add: last_conv_nth)
  qed
  moreover have "set (take f s) \<subseteq> set sep" using f'(3) by (auto simp: in_set_conv_nth)
  moreover have "set (drop (Suc l) s) \<subseteq> set sep" using l(3) by (auto simp: in_set_conv_nth)
  ultimately show ?thesis using f'(2) l(2) by metis
qed

section \<open>Number tests\<close>

lemma is_unsigned_from_iff:
  "is_unsigned_from s i \<longleftrightarrow> (\<forall>c \<in> set (drop i s). is_digit c)"
proof (induction s i rule: is_unsigned_from.induct)
  case (1 s i)
  show ?case
  proof (cases "i < length s")
    case True
    then show ?thesis
      using 1 by (subst is_unsigned_from.simps) (auto simp: drop_eq_nth_Cons is_digit_def)
  qed (subst is_unsigned_from.simps, simp)
qed

lemma is_unsigned_iff: "is_unsigned s \<longleftrightarrow> s \<noteq> [] \<and> (\<forall>c \<in> set s. is_digit c)"
  by (simp add: is_unsigned_def is_unsigned_from_iff)

lemma is_integer_iff:
  "is_integer s \<longleftrightarrow> is_unsigned s \<or> (\<exists>t. s = CHR ''-'' # t \<and> is_unsigned t)"
  by (cases s) (auto simp: is_integer_def is_unsigned_iff is_digit_def)

section \<open>Splitting and joining\<close>

text \<open>The pieces of a string between the characters of \<open>D\<close>: what an unlimited split yields.\<close>

fun pieces :: "char set \<Rightarrow> string \<Rightarrow> string list" where
  "pieces D [] = [[]]"
| "pieces D (c # s) =
     (if c \<in> D then [] # pieces D s
      else (case pieces D s of [] \<Rightarrow> [[c]] | p # ps \<Rightarrow> (c # p) # ps))"

text \<open>At most \<open>n\<close> more cuts; the rest stays in one piece.\<close>

fun pieces_upto :: "nat \<Rightarrow> char set \<Rightarrow> string \<Rightarrow> string list" where
  "pieces_upto 0 D s = [s]"
| "pieces_upto (Suc n) D [] = [[]]"
| "pieces_upto (Suc n) D (c # s) =
     (if c \<in> D then [] # pieces_upto n D s
      else (case pieces_upto (Suc n) D s of [] \<Rightarrow> [[c]] | p # ps \<Rightarrow> (c # p) # ps))"

lemma pieces_nonempty [simp]: "pieces D s \<noteq> []"
  by (cases s) (auto split: list.splits)

lemma pieces_upto_nonempty [simp]: "pieces_upto n D s \<noteq> []"
  by (induction n D s rule: pieces_upto.induct) (auto split: list.splits)

lemma pieces_none: "set u \<inter> D = {} \<Longrightarrow> pieces D u = [u]"
  by (induction u) auto

lemma pieces_cut: "set u \<inter> D = {} \<Longrightarrow> d \<in> D \<Longrightarrow> pieces D (u @ d # v) = u # pieces D v"
  by (induction u) auto

lemma pieces_upto_none: "set u \<inter> D = {} \<Longrightarrow> pieces_upto n D u = [u]"
  by (induction u) (cases n; auto)+

lemma pieces_upto_cut:
  "set u \<inter> D = {} \<Longrightarrow> d \<in> D \<Longrightarrow> pieces_upto (Suc n) D (u @ d # v) = u # pieces_upto n D v"
  by (induction u) auto

lemma sv_substr_rest:
  "prev \<le> length s \<Longrightarrow> length s < npos \<Longrightarrow> sv_substr s prev npos = Inr (drop prev s)"
  by (simp add: sv_substr_def)

lemma split_loop_upto:
  assumes "length s < npos" and "prev \<le> length s" and "current = sv_find_first_of s delim prev"
    and "limit = 0 \<or> count < limit"
  shows "split_loop s delim limit count current prev result =
    Inr (result @ (if limit = 0 then pieces (set delim) (drop prev s)
                   else pieces_upto (limit - count - 1) (set delim) (drop prev s)))"
  using assms
proof (induction s delim limit count current prev result rule: split_loop.induct)
  case (1 s delim limit count current prev result)
  define count' where "count' = (if limit = 0 then count else Suc count)"
  consider (none) "current = npos" "set (drop prev s) \<inter> set delim = {}"
    | (cut) u d v where "drop prev s = u @ d # v" "set u \<inter> set delim = {}" "d \<in> set delim"
        "current = prev + length u" "prev + length u < length s"
    using find_first_of_cases [OF 1(2), of delim prev] 1(4) by auto
  then show ?case
  proof cases
    case none
    then show ?thesis using 1(3)
      by (subst split_loop.simps)
        (simp add: Let_def sv_substr_rest [OF 1(3,2)] pieces_none pieces_upto_none)
  next
    case cut
    have cur: "current \<noteq> npos" "sz_sub current prev = length u"
      using cut(4,5) 1(2) by (simp_all add: sz_sub_le npos_def)
    have piece: "sv_substr s prev (length u) = Inr u"
      using cut(1,5) 1(3) by (simp add: sv_substr_def)
    have rest: "drop (Suc current) s = v"
    proof -
      have "drop (Suc current) s = drop (Suc (length u)) (drop prev s)"
        using cut(4) by (simp add: add.commute)
      then show ?thesis by (simp add: cut(1))
    qed
    show ?thesis
    proof (cases "limit = 0 \<or> count' < limit")
      case True
      have IH: "split_loop s delim limit count' (sv_find_first_of s delim (Suc current)) (Suc current) (result @ [u])
        = Inr ((result @ [u]) @ (if limit = 0 then pieces (set delim) v
            else pieces_upto (limit - count' - 1) (set delim) v))"
        using 1(1) [OF count'_def _ _ 1(2)] True cur piece cut(4,5) rest by simp
      show ?thesis
      proof (cases "limit = 0")
        case True
        then show ?thesis
          using IH cur piece
          by (subst split_loop.simps) (simp add: Let_def count'_def cut(1) pieces_cut [OF cut(2,3)])
      next
        case False
        then have "limit - count - 1 = Suc (limit - count' - 1)"
          using True by (simp add: count'_def)
        then show ?thesis
          using IH cur piece False True
          by (subst split_loop.simps)
            (simp add: Let_def count'_def cut(1) pieces_upto_cut [OF cut(2,3)])
      qed
    next
      case False
      then have "limit - count - 1 = 0" "limit \<noteq> 0" by (auto simp: count'_def)
      then show ?thesis
        using False 1(2,3)
        by (subst split_loop.simps) (simp add: Let_def count'_def sv_substr_def)
    qed
  qed
qed

lemma split_eq:
  assumes "length s < npos"
  shows "split s delim limit =
    Inr (if limit = 0 then pieces (set delim) s else pieces_upto (limit - 1) (set delim) s)"
  using split_loop_upto [OF assms, of 0] by (simp add: split_def)

lemma join_loop_eq:
  "join_loop xs d sep r = r @ (case xs of [] \<Rightarrow> [] | x # xs \<Rightarrow> sep @ x @ List.concat (map (\<lambda>y. d @ y) xs))"
  by (induction xs d sep r rule: join_loop.induct) (auto split: list.splits)

lemma join_simps:
  "join [] d = []" "join [x] d = x" "join (x # y # ys) d = x @ d @ join (y # ys) d"
  by (simp_all add: join_def join_loop_eq)

lemma join_Cons: "xs \<noteq> [] \<Longrightarrow> join (x # xs) d = x @ d @ join xs d"
  by (cases xs) (simp_all add: join_simps)

lemma join_Cons_char: "p \<noteq> [] \<Longrightarrow> join ((c # hd p) # tl p) d = c # join p d"
  by (cases p; cases "tl p") (auto simp: join_simps)

lemma join_pieces: "join (pieces {d} s) [d] = s"
proof (induction s)
  case (Cons c s)
  show ?case
  proof (cases "c = d")
    case False
    obtain p ps where p: "pieces {d} s = p # ps" by (cases "pieces {d} s") auto
    then show ?thesis using False Cons.IH join_Cons_char [of "p # ps" c "[d]"] by simp
  qed (simp add: join_Cons Cons.IH)
qed (simp add: join_simps)

lemma join_pieces_upto: "join (pieces_upto n {d} s) [d] = s"
proof (induction n "{d}" s rule: pieces_upto.induct)
  case (3 n c s)
  show ?case
  proof (cases "c = d")
    case False
    obtain p ps where p: "pieces_upto (Suc n) {d} s = p # ps"
      by (cases "pieces_upto (Suc n) {d} s") auto
    then show ?thesis using False 3(2) join_Cons_char [of "p # ps" c "[d]"] by simp
  qed (simp add: join_Cons 3(1))
qed (simp_all add: join_simps)

lemma pieces_join:
  assumes "xs \<noteq> []" and "\<forall>x \<in> set xs. d \<notin> set x"
  shows "pieces {d} (join xs [d]) = xs"
  using assms
proof (induction xs)
  case (Cons x xs)
  then show ?case
    by (cases xs) (auto simp: join_simps pieces_none pieces_cut [of x "{d}" d])
qed simp

lemma pieces_free: "p \<in> set (pieces D s) \<Longrightarrow> set p \<inter> D = {}"
proof (induction s arbitrary: p)
  case (Cons c s)
  then show ?case by (cases "pieces D s") (force split: if_splits)+
qed simp

lemma length_pieces: "length (pieces D s) = Suc (length (filter (\<lambda>c. c \<in> D) s))"
proof (induction s)
  case (Cons c s)
  then show ?case by (cases "pieces D s") auto
qed simp

lemma length_pieces_upto: "length (pieces_upto n D s) = min (Suc n) (length (pieces D s))"
proof (induction n D s rule: pieces_upto.induct)
  case (1 D s)
  then show ?case by (cases "pieces D s") auto
next
  case (3 n D c s)
  then show ?case by (cases "pieces D s"; cases "pieces_upto (Suc n) D s") auto
qed simp

text \<open>The string with the given delimiters between its pieces.\<close>

fun weave :: "string list \<Rightarrow> string \<Rightarrow> string" where
  "weave (p # ps) (d # ds) = p @ d # weave ps ds"
| "weave (p # ps) [] = p"
| "weave [] ds = []"

text \<open>Taking the delimiters out of a string: \<open>n\<close> of them, or all that it has.\<close>

lemma weave_first: "ps \<noteq> [] \<Longrightarrow> weave ((c # hd ps) # tl ps) ds = c # weave ps ds"
  by (cases ps; cases ds) simp_all

lemma weave_pieces: "weave (pieces D s) (filter (\<lambda>c. c \<in> D) s) = s"
proof (induction s)
  case (Cons c s)
  then show ?case
    using weave_first [of "pieces D s" c "filter (\<lambda>c. c \<in> D) s"] by (cases "pieces D s") auto
qed simp

lemma weave_pieces_upto: "weave (pieces_upto n D s) (take n (filter (\<lambda>c. c \<in> D) s)) = s"
proof (induction n D s rule: pieces_upto.induct)
  case (3 n D c s)
  then show ?case
    using weave_first [of "pieces_upto (Suc n) D s" c "take (Suc n) (filter (\<lambda>c. c \<in> D) s)"]
    by (cases "pieces_upto (Suc n) D s") auto
qed simp_all

lemma pieces_upto_free: "p \<in> set (butlast (pieces_upto n D s)) \<Longrightarrow> set p \<inter> D = {}"
proof (induction n D s arbitrary: p rule: pieces_upto.induct)
  case (3 n D c s)
  then show ?case by (cases "pieces_upto (Suc n) D s") (force split: if_splits)+
qed simp_all

section \<open>Properties\<close>

text \<open>
  C22: \<^verbatim>\<open>split\<close> never fails, for any set of delimiter characters and any limit on the number of
  pieces. With the delimiters that the string has, in their order and as many as there are cuts,
  between the pieces the string is there again; with one delimiter character that is what
  \<^verbatim>\<open>join\<close> gives. With a limit there are at most that many pieces, and without one no piece
  contains a delimiter; with one only the last may. (The delimiters of \<^verbatim>\<open>split\<close> are the
  characters of a set, the delimiter of \<^verbatim>\<open>join\<close> is one string: the pieces at \<open>'', ''\<close> joined
  with \<open>'', ''\<close> need not be the string that was split.)
\<close>

theorem split_then_join:
  fixes s delim :: string
  assumes "length s < npos"
  defines "ds \<equiv> filter (\<lambda>c. c \<in> set delim) s"
  shows "\<exists>ps. split s delim limit = Inr ps
    \<and> weave ps (if limit = 0 then ds else take (limit - 1) ds) = s
    \<and> length ps = (if limit = 0 then Suc (length ds) else min limit (Suc (length ds)))
    \<and> (\<forall>p \<in> set (if limit = 0 then ps else butlast ps). set p \<inter> set delim = {})
    \<and> (\<forall>d. delim = [d] \<longrightarrow> join ps delim = s)"
proof -
  define ps where "ps = (if limit = 0 then pieces (set delim) s else pieces_upto (limit - 1) (set delim) s)"
  define cut where "cut = (if limit = 0 then ds else take (limit - 1) ds)"
  have woven: "weave ps cut = s"
    by (simp add: ps_def cut_def ds_def weave_pieces weave_pieces_upto)
  have len: "length ps = (if limit = 0 then Suc (length ds) else min limit (Suc (length ds)))"
    by (simp add: ps_def ds_def length_pieces length_pieces_upto)
  have free: "\<forall>p \<in> set (if limit = 0 then ps else butlast ps). set p \<inter> set delim = {}"
    using pieces_free [of _ "set delim" s] pieces_upto_free [of _ "limit - 1" "set delim" s]
    by (auto simp: ps_def)
  have "join ps delim = s" if "delim = [d]" for d
    using that by (simp add: ps_def join_pieces join_pieces_upto)
  then show ?thesis
    using split_eq [OF assms(1), of delim limit] woven len free by (auto simp: ps_def cut_def)
qed

theorem split_then_join_witness:
  "(\<exists>ps. split ''a, b,c'' '', '' 3 = Inr ps \<and> weave ps '', '' = ''a, b,c'' \<and> length ps = 3)
    \<and> (\<exists>ps. split ''a,b,c'' '','' 2 = Inr ps \<and> join ps '','' = ''a,b,c'' \<and> length ps = 2)"
  using split_then_join [of "''a, b,c''" "'', ''" 3] split_then_join [of "''a,b,c''" "'',''" 2]
  by (auto simp: npos_def)

text \<open>Splitting at a set of two characters and joining with the string of both.\<close>

lemma split_set_join_string:
  "split ''a, b'' '', '' 0 = Inr [''a'', [], ''b''] \<and> join [''a'', [], ''b''] '', '' = ''a, , b''"
  using split_eq [of "''a, b''" "'', ''" 0] by (simp add: npos_def join_def)

text \<open>\<^verbatim>\<open>split\<close> undoes \<^verbatim>\<open>join\<close> when no element of the list contains the delimiter.\<close>

theorem join_then_split:
  assumes "xs \<noteq> []" and "\<forall>x \<in> set xs. d \<notin> set x" and "length (join xs [d]) < npos"
  shows "split (join xs [d]) [d] 0 = Inr xs"
  using split_eq [OF assms(3), of "[d]" 0] pieces_join [OF assms(1,2)] by simp

theorem join_then_split_witness:
  "split (join [''hi'', [], ''bye''] '','') '','' 0 = Inr [''hi'', [], ''bye'']"
  using join_then_split [of "[''hi'', [], ''bye'']" "CHR '',''"] by (simp add: npos_def join_def)

text \<open>
  \<^verbatim>\<open>strip\<close> never fails; it removes characters of \<open>sep\<close> only, all of them at both ends,
  and \<^verbatim>\<open>trim\<close> does the same at the right end.
\<close>

theorem strip_and_trim:
  assumes "length s < npos"
  shows "(\<exists>a m b. strip s sep = Inr m \<and> s = a @ m @ b \<and> set a \<subseteq> set sep \<and> set b \<subseteq> set sep
      \<and> (m = [] \<or> hd m \<notin> set sep \<and> last m \<notin> set sep))
    \<and> (\<exists>t. s = trim s sep @ t \<and> set t \<subseteq> set sep \<and> (trim s sep = [] \<or> last (trim s sep) \<notin> set sep))"
  using strip_parts [OF assms] trim_parts [OF assms] by blast

theorem strip_and_trim_witness:
  "\<exists>a m b. strip '' ab '' blanks = Inr m \<and> '' ab '' = a @ m @ b"
  using strip_and_trim [of "'' ab ''" blanks] by (auto simp: npos_def)

text \<open>
  \<^verbatim>\<open>starts_with\<close>, \<^verbatim>\<open>ends_with\<close> and \<^verbatim>\<open>contains\<close> are the prefix, suffix and sublist relations;
  \<^verbatim>\<open>starts_case\<close> and \<^verbatim>\<open>ends_case\<close> compare without case and refuse the empty string.
\<close>

theorem containment_tests:
  assumes "length s < npos"
  shows "(starts_with s p \<longleftrightarrow> prefix p s) \<and> (ends_with s p \<longleftrightarrow> suffix p s) \<and> (contains s p \<longleftrightarrow> sublist p s)
    \<and> (starts_case s p \<longleftrightarrow> p \<noteq> [] \<and> prefix (to_lower p) (to_lower s))
    \<and> (ends_case s p \<longleftrightarrow> p \<noteq> [] \<and> suffix (to_lower p) (to_lower s))"
  using starts_with_iff ends_with_iff [OF assms] contains_iff [OF assms] starts_case_iff ends_case_iff by blast

theorem containment_tests_witness:
  "ends_case ''beloNg'' ''ong'' \<longleftrightarrow> suffix (to_lower ''ong'') (to_lower ''beloNg'')"
  using containment_tests [of "''beloNg''" "''ong''"] by (simp add: npos_def)

text \<open>
  \<^verbatim>\<open>is_unsigned\<close> accepts the nonempty strings of decimal digits, and \<^verbatim>\<open>is_integer\<close> these
  with or without one leading minus sign.
\<close>

theorem number_tests:
  "(is_unsigned s \<longleftrightarrow> s \<noteq> [] \<and> list_all is_digit s) \<and>
   (is_integer s \<longleftrightarrow> (\<exists>t. (s = t \<or> s = CHR ''-'' # t) \<and> t \<noteq> [] \<and> list_all is_digit t))"
  using is_integer_iff [of s] by (auto simp: is_unsigned_iff list_all_iff)

end
