(* ===== verification/Tokens.thy ===== *)
theory Tokens
  imports Strings
begin

text \<open>
  What \<^verbatim>\<open>tokenize\<close> of \<^verbatim>\<open>src/src/strings.hpp\<close> makes of a text of tokens, plain or quoted, and
  gaps, with gaps before the first token and after the last one too.
\<close>

section \<open>Texts of tokens and gaps\<close>

definition plain_token :: "string \<Rightarrow> string \<Rightarrow> string \<Rightarrow> bool" where
  "plain_token delim quotes t = (t \<noteq> [] \<and> set t \<inter> set delim = {} \<and> hd t \<notin> set quotes)"

definition quoted_token :: "string \<Rightarrow> string \<Rightarrow> string \<Rightarrow> bool" where
  "quoted_token delim quotes t =
     (2 \<le> length t \<and> hd t \<notin> set delim \<and>
      (case first_index (\<lambda>c. c \<in> {hd t}) quotes of
         None \<Rightarrow> False
       | Some i \<Rightarrow> Suc i < length quotes \<and> last t = quotes ! Suc i \<and> quotes ! Suc i \<notin> set (butlast (tl t))))"

definition flatten :: "(string \<times> string) list \<Rightarrow> string" where
  "flatten ps = List.concat (map (\<lambda>(t, g). t @ g) ps)"

text \<open>Each token with the gap after it; only the last gap may be empty.\<close>

fun spaced :: "string \<Rightarrow> string \<Rightarrow> (string \<times> string) list \<Rightarrow> bool" where
  "spaced delim quotes [] = True"
| "spaced delim quotes ((t, g) # ps) =
     ((plain_token delim quotes t \<or> quoted_token delim quotes t) \<and> set g \<subseteq> set delim \<and>
      (ps = [] \<or> g \<noteq> []) \<and> spaced delim quotes ps)"

text \<open>
  The empty tokens that the code finds in the last gap: one for each delimiter, except the
  first one after a plain token.
\<close>

fun empty_tokens :: "string \<Rightarrow> string \<Rightarrow> (string \<times> string) list \<Rightarrow> nat" where
  "empty_tokens delim quotes [] = 0"
| "empty_tokens delim quotes [(t, g)] = length g - (if plain_token delim quotes t then 1 else 0)"
| "empty_tokens delim quotes (p # q # ps) = empty_tokens delim quotes (q # ps)"

lemma token_starts:
  "plain_token D Q t \<or> quoted_token D Q t \<Longrightarrow> t \<noteq> [] \<and> hd t \<notin> set D"
  by (cases t) (auto simp: plain_token_def quoted_token_def)

lemma flatten_Cons [simp]: "flatten ((t, g) # ps) = t @ g @ flatten ps"
  by (simp add: flatten_def)

lemma flatten_Nil [simp]: "flatten [] = []"
  by (simp add: flatten_def)

lemma spaced_starts:
  assumes "spaced D Q ps" and "ps \<noteq> []"
  shows "flatten ps \<noteq> [] \<and> hd (flatten ps) \<notin> set D"
proof -
  obtain t g qs where ps: "ps = (t, g) # qs" using assms(2) by (cases ps) auto
  then have "plain_token D Q t \<or> quoted_token D Q t"
    using assms(1) by simp
  then show ?thesis using token_starts [of D Q t] ps by simp
qed

lemma sv_at_drop: "drop p s = c # r \<Longrightarrow> sv_at s p = Inr c"
  using nth_via_drop [of p s c r] by (cases "p < length s") (auto simp: sv_at_def)

section \<open>One token\<close>

lemma sz_sub_add [simp]: "p + n < npos \<Longrightarrow> sz_sub (p + n) p = n"
  by (simp add: sz_sub_le npos_def)

lemma find_first_of_after:
  assumes "drop p s = t @ d # r" and "set t \<inter> set D = {}" and "d \<in> set D"
  shows "sv_find_first_of s D p = p + length t"
proof -
  have "\<forall>c \<in> set t. c \<notin> set D" using assms(2) by auto
  then show ?thesis using assms(1,3) by (simp add: sv_find_first_of_def first_index_append)
qed

lemma next_token_plain:
  assumes "length s < npos" and "drop prev s = t @ rest" and "plain_token D Q t"
  shows "next_token s Q (prev + length t) prev = Inr (t, prev + length t)"
proof -
  obtain c u where t: "t = c # u" using assms(3) by (cases t) (auto simp: plain_token_def)
  have len: "prev + length t \<le> length s"
    using arg_cong [OF assms(2), of length] t by (auto split: if_splits)
  have c: "sv_at s prev = Inr c"
    using assms(2) t by (intro sv_at_drop) simp
  have "first_index (\<lambda>x. x = c) Q = None"
    using assms(3) t by (auto simp: first_index_None plain_token_def)
  then have "sv_find_first_of Q [c] 0 = npos" by (simp add: sv_find_first_of_def)
  moreover have "sv_substr s prev (length t) = Inr t"
    using assms(2) len by (simp add: sv_substr_def)
  moreover have "sz_sub (prev + length t) prev = length t" using len assms(1) by simp
  ultimately show ?thesis using c by (simp add: next_token_def)
qed

lemma next_token_quoted:
  assumes "length s < npos" and "length Q < npos" and "drop prev s = t @ rest" and "quoted_token D Q t"
  shows "next_token s Q current prev = Inr (t, prev + length t - 1)"
proof -
  obtain c u where t: "t = c # u" using assms(4) by (cases t) (auto simp: quoted_token_def)
  have ne: "u \<noteq> []" using assms(4) t by (auto simp: quoted_token_def)
  obtain i where i: "first_index (\<lambda>x. x = c) Q = Some i" "Suc i < length Q" "last t = Q ! Suc i"
      "Q ! Suc i \<notin> set (butlast u)"
    using assms(4) t by (auto simp: quoted_token_def split: option.splits)
  define v where "v = butlast u"
  have u: "u = v @ [Q ! Suc i]" using i(3) ne append_butlast_last_id [of u] t by (simp add: v_def)
  have len: "prev + length t \<le> length s"
    using arg_cong [OF assms(3), of length] t by (auto split: if_splits)
  have drop1: "drop (Suc prev) s = v @ Q ! Suc i # rest"
    using assms(3) t u by (metis append_Cons append_assoc append_Nil drop_Suc list.sel(3) tl_drop)
  have c: "sv_at s prev = Inr c"
    using assms(3) t by (intro sv_at_drop) simp
  have lead: "sv_find_first_of Q [c] 0 = i" "i \<noteq> npos"
    using i(1,2) assms(2) by (simp_all add: sv_find_first_of_def)
  have q: "sv_at Q (Suc i) = Inr (Q ! Suc i)" using i(2) by (simp add: sv_at_def)
  have tail: "sv_find_first_of s [Q ! Suc i] (Suc prev) = Suc prev + length v"
    using i(4) drop1 by (intro find_first_of_after) (auto simp: v_def)
  have lt: "length t = Suc (Suc (length v))" using t u by simp
  have "sz_sub (Suc prev + length v) prev = Suc (length v)"
    using sz_sub_add [of prev "Suc (length v)"] len lt assms(1) by simp
  moreover have "sv_substr s prev (Suc (length v) + 1) = Inr t"
    using assms(3) len lt by (simp add: sv_substr_def)
  moreover have "Suc prev + length v \<noteq> npos" using len lt assms(1) by simp
  ultimately show ?thesis using c lead q tail lt by (simp add: next_token_def)
qed

lemma find_gap:
  assumes "drop c s = g @ r" and "set g \<subseteq> set D" and "r \<noteq> []" and "hd r \<notin> set D"
  shows "sv_find_first_not_of s D c = c + length g"
proof -
  obtain x xs where "r = x # xs" using assms(3) by (cases r) auto
  then show ?thesis
    using assms by (auto simp: sv_find_first_not_of_def first_index_append subset_iff)
qed

lemma find_gap_none:
  assumes "set (drop c s) \<subseteq> set D"
  shows "sv_find_first_not_of s D c = npos"
proof -
  have "first_index (\<lambda>x. x \<notin> set D) (drop c s) = None" using assms by (auto simp: first_index_None)
  then show ?thesis by (simp add: sv_find_first_not_of_def)
qed

lemma find_first_of_none:
  assumes "set (drop c s) \<inter> set D = {}"
  shows "sv_find_first_of s D c = npos"
proof -
  have "first_index (\<lambda>x. x \<in> set D) (drop c s) = None" using assms by (auto simp: first_index_None)
  then show ?thesis by (simp add: sv_find_first_of_def)
qed

section \<open>All tokens\<close>

lemma tokenize_loop_step:
  assumes "current \<noteq> npos" and "next_token s Q current prev = Inr (t, n)"
    and "drop (Suc n) s = g @ r" and "set g \<subseteq> set D" and "r \<noteq> []" and "hd r \<notin> set D"
    and "length s < npos"
  shows "tokenize_loop s D Q current prev result =
    tokenize_loop s D Q (sv_find_first_of s D (Suc n + length g)) (Suc n + length g) (result @ [t])"
proof -
  have "Suc n + length g < npos"
    using arg_cong [OF assms(3), of length] assms(5,7) by (cases r) auto
  then show ?thesis
    using assms find_gap [OF assms(3-6)] by (subst tokenize_loop.simps) (simp add: Let_def)
qed

text \<open>In a gap at the end of the text each delimiter gives an empty token.\<close>

lemma tokenize_loop_gap:
  assumes "length s < npos" and "drop prev s = g" and "set g \<subseteq> set D" and "prev \<le> length s"
    and "current = sv_find_first_of s D prev" and "g = [] \<or> set D \<inter> set Q = {}"
  shows "tokenize_loop s D Q current prev result = Inr (result @ replicate (length g) [])"
  using assms
proof (induction g arbitrary: prev current result)
  case Nil
  then have "current = npos" by (simp add: find_first_of_none)
  then show ?case using Nil by (subst tokenize_loop.simps) simp
next
  case (Cons d g)
  have cur: "current = prev" using Cons.prems(2,3,5) by (simp add: sv_find_first_of_def)
  have len: "prev < length s" using arg_cong [OF Cons.prems(2), of length] by simp
  have rest: "drop (Suc prev) s = g" using Cons.prems(2) by (metis drop_Suc list.sel(3) tl_drop)
  have "first_index (\<lambda>x. x = d) Q = None" using Cons.prems(3,6) by (auto simp: first_index_None)
  then have lead: "sv_find_first_of Q [d] 0 = npos" by (simp add: sv_find_first_of_def)
  have "sv_substr s prev (sz_sub prev prev) = Inr []"
    using len Cons.prems(1) sz_sub_le [of prev prev] by (simp add: sv_substr_def npos_def)
  then have token: "next_token s Q current prev = Inr ([], prev)"
    using sv_at_drop [OF Cons.prems(2)] lead cur by (simp add: next_token_def)
  have skip: "sv_find_first_not_of s D (Suc prev) = npos"
    using rest Cons.prems(3) by (simp add: find_gap_none)
  have "tokenize_loop s D Q (sv_find_first_of s D (Suc prev)) (Suc prev) (result @ [[]])
      = Inr ((result @ [[]]) @ replicate (length g) [])"
    using Cons.IH [OF Cons.prems(1) rest] Cons.prems(3,6) len by simp
  then show ?case
    using token skip cur len Cons.prems(1) by (subst tokenize_loop.simps) (simp add: Let_def)
qed

lemma tokenize_loop_last:
  assumes "current \<noteq> npos" and "next_token s Q current prev = Inr (t, n)" and "drop (Suc n) s = g"
    and "set g \<subseteq> set D" and "Suc n \<le> length s" and "length s < npos" and "g = [] \<or> set D \<inter> set Q = {}"
  shows "tokenize_loop s D Q current prev result = Inr (result @ t # replicate (length g) [])"
proof -
  have "sv_find_first_not_of s D (Suc n) = npos"
    using assms(3,4) by (simp add: find_gap_none)
  then show ?thesis
    using assms tokenize_loop_gap [OF assms(6,3,4,5) refl assms(7), of "result @ [t]"]
    by (subst tokenize_loop.simps) (simp add: Let_def)
qed

lemma tokenize_loop_same_token:
  "current \<noteq> npos \<Longrightarrow> current' \<noteq> npos \<Longrightarrow> next_token s Q current prev = next_token s Q current' prev \<Longrightarrow>
   tokenize_loop s D Q current prev result = tokenize_loop s D Q current' prev result"
  by (subst (1 2) tokenize_loop.simps) simp

lemma find_first_of_end:
  "drop p s = t \<Longrightarrow> set t \<inter> set D = {} \<Longrightarrow> sv_find_first_of s D p = npos"
  by (rule find_first_of_none) simp

text \<open>A token, and what of the gap after it is left for the next search.\<close>

lemma token_then_gap:
  assumes "length s < npos" and "length Q < npos" and "drop prev s = t @ g @ r"
    and "plain_token D Q t \<or> quoted_token D Q t" and "set g \<subseteq> set D" and "r = [] \<or> g \<noteq> []"
    and "current = sv_find_first_of s D prev" and "current \<noteq> npos"
  defines "h \<equiv> if plain_token D Q t then tl g else g"
  shows "\<exists>n. next_token s Q current prev = Inr (t, n) \<and> drop (Suc n) s = h @ r
    \<and> Suc n + length h = prev + length t + length g"
proof (cases "plain_token D Q t")
  case True
  then have free: "set t \<inter> set D = {}" by (simp add: plain_token_def)
  have "g \<noteq> []"
    using assms(3,6-8) free find_first_of_end [of prev s t D] by auto
  then obtain d g' where dg: "g = d # g'" by (cases g) auto
  have "current = prev + length t"
    using assms(3,5,7) dg free find_first_of_after [of prev s t d _ D] by auto
  moreover
  have "drop (prev + length t) s = g @ r"
    using assms(3) by (metis add.commute append_eq_conv_conj drop_drop)
  then have "drop (Suc (prev + length t)) s = g' @ r"
    using dg by (metis append_Cons drop_Suc list.sel(3) tl_drop)
  ultimately show ?thesis
    using next_token_plain [OF assms(1,3) True] True dg by (simp add: h_def)
next
  case False
  then have quoted: "quoted_token D Q t" using assms(4) by simp
  have "drop (prev + length t) s = g @ r"
    using assms(3) by (metis add.commute append_eq_conv_conj drop_drop)
  moreover have "t \<noteq> []" using token_starts [OF assms(4)] by simp
  ultimately show ?thesis
    using next_token_quoted [OF assms(1,2,3) quoted, of current] False by (cases t) (auto simp: h_def)
qed

lemma tokenize_loop_spaced:
  assumes "length s < npos" and "length Q < npos" and "spaced D Q ps" and "drop prev s = flatten ps"
    and "prev \<le> length s" and "current = sv_find_first_of s D prev"
    and "empty_tokens D Q ps = 0 \<or> set D \<inter> set Q = {}" and "ps \<noteq> []"
  shows "tokenize_loop s D Q current prev result =
    Inr (result @ map fst ps @ replicate (empty_tokens D Q ps) [])"
  using assms
proof (induction ps arbitrary: prev current result)
  case (Cons p ps)
  obtain t g where p: "p = (t, g)" by (cases p)
  have kind: "plain_token D Q t \<or> quoted_token D Q t" and g: "set g \<subseteq> set D" "ps = [] \<or> g \<noteq> []"
      and ps: "spaced D Q ps"
    using Cons.prems(3) p by simp_all
  have body: "drop prev s = t @ g @ flatten ps" using Cons.prems(4) p by simp
  have total: "length s = prev + length t + length g + length (flatten ps)"
    using arg_cong [OF body, of length] Cons.prems(5) by simp
  have tne: "t \<noteq> []" using token_starts [OF kind] by simp
  show ?case
  proof (cases "current = npos")
    case True
    have "set (drop prev s) \<inter> set D = {}"
      using find_first_of_cases [OF Cons.prems(1), of D prev] Cons.prems(1,6) True
      by (elim disjE exE conjE) simp_all
    then have nodelim: "set (t @ g @ flatten ps) \<inter> set D = {}" by (simp only: body)
    then have "ps = [] \<and> g = []"
      using g by (cases g) auto
    then show ?thesis
      using True body total tne p Cons.prems(1)
      by (subst tokenize_loop.simps) (simp add: sv_substr_rest)
  next
    case False
    define h where "h = (if plain_token D Q t then tl g else g)"
    have h: "set h \<subseteq> set D" using g(1) by (cases g) (auto simp: h_def)
    obtain n where n: "next_token s Q current prev = Inr (t, n)" "drop (Suc n) s = h @ flatten ps"
        "Suc n + length h = prev + length t + length g"
      using token_then_gap [OF Cons.prems(1,2) body kind g(1) _ Cons.prems(6) False] g(2)
      by (auto simp: h_def flatten_def)
    show ?thesis
    proof (cases ps)
      case Nil
      have extra: "empty_tokens D Q (p # ps) = length h" by (simp add: p Nil h_def)
      have "tokenize_loop s D Q current prev result = Inr (result @ t # replicate (length h) [])"
        using tokenize_loop_last [OF False n(1) _ h] n(2,3) Nil total Cons.prems(1,7) extra by simp
      then show ?thesis using extra p Nil by simp
    next
      case (Cons q qs)
      then have starts: "flatten ps \<noteq> [] \<and> hd (flatten ps) \<notin> set D" using spaced_starts [OF ps] by simp
      have step: "tokenize_loop s D Q current prev result =
          tokenize_loop s D Q (sv_find_first_of s D (Suc n + length h)) (Suc n + length h) (result @ [t])"
        using tokenize_loop_step [OF False n(1,2) h] starts Cons.prems(1) by simp
      have "drop (Suc n + length h) s = flatten ps"
        using n(2) by (metis add.commute append_eq_conv_conj drop_drop)
      moreover have "Suc n + length h \<le> length s" using n(3) total by simp
      ultimately show ?thesis
        unfolding step using Cons.IH [OF Cons.prems(1,2) ps _ _ refl] Cons.prems(7) Cons p by simp
    qed
  qed
qed simp

lemma tokenize_spaced:
  assumes "length (flatten ps) < npos" and "length Q < npos" and "spaced D Q ps"
    and "empty_tokens D Q ps = 0 \<or> set D \<inter> set Q = {}" and "ps \<noteq> []"
  shows "tokenize (flatten ps) D Q = Inr (map fst ps @ replicate (empty_tokens D Q ps) [])"
proof -
  obtain c r where "flatten ps = c # r" "c \<notin> set D"
    using spaced_starts [OF assms(3,5)] by (cases "flatten ps") auto
  then have "sv_find_first_not_of (flatten ps) D 0 = 0" by (simp add: sv_find_first_not_of_def)
  then show ?thesis
    using tokenize_loop_spaced [OF assms(1-3) _ _ refl assms(4,5), of 0 "[]"] by (simp add: tokenize_def npos_def)
qed

text \<open>A text of delimiters only.\<close>

lemma tokenize_delimiters:
  assumes "length g < npos" and "set g \<subseteq> set D" and "g = [] \<or> set D \<inter> set Q = {}"
  shows "tokenize g D Q = Inr (replicate (length g) [])"
proof -
  have "sv_find_first_not_of g D 0 = npos" using assms(2) by (simp add: find_gap_none)
  then show ?thesis
    using tokenize_loop_gap [OF assms(1) _ assms(2) _ refl assms(3), of 0 "[]"] by (simp add: tokenize_def)
qed

section \<open>Leading delimiters\<close>

text \<open>
  Before a first plain token, delimiters make the code subtract the token's start from
  position 0: the length wraps, and the first token is all the rest of the text.
\<close>

lemma next_token_wrapped:
  assumes "length s < npos" and "drop prev s = t @ rest" and "plain_token D Q t" and "0 < prev" and "prev < length s"
  shows "next_token s Q 0 prev = Inr (drop prev s, 0)"
proof -
  obtain c u where t: "t = c # u" using assms(3) by (cases t) (auto simp: plain_token_def)
  have c: "sv_at s prev = Inr c" using assms(2) t by (intro sv_at_drop) simp
  have "first_index (\<lambda>x. x = c) Q = None"
    using assms(3) t by (auto simp: first_index_None plain_token_def)
  then have "sv_find_first_of Q [c] 0 = npos" by (simp add: sv_find_first_of_def)
  moreover have "sz_sub 0 prev = 2 ^ 64 - prev"
    using assms(1,4,5) by (subst sz_sub_gt) (simp_all add: npos_def)
  moreover have "length s - prev \<le> 2 ^ 64 - prev"
    using assms(1) by (intro diff_le_mono) (simp add: npos_def)
  then have "sv_substr s prev (2 ^ 64 - prev) = Inr (drop prev s)"
    using assms(5) by (simp add: sv_substr_def)
  ultimately show ?thesis using c by (simp add: next_token_def)
qed

lemma tokenize_leading:
  assumes "length (g @ flatten ps) < npos" and "length Q < npos" and "spaced D Q ps"
    and "empty_tokens D Q ps = 0 \<or> set D \<inter> set Q = {}" and "ps \<noteq> []" and "g \<noteq> []" and "set g \<subseteq> set D"
  shows "tokenize (g @ flatten ps) D Q =
    Inr ((if plain_token D Q (fst (hd ps)) then [flatten ps] else []) @ map fst ps
      @ replicate (empty_tokens D Q ps) [])"
proof -
  define s where "s = g @ flatten ps"
  obtain t h qs where ps: "ps = (t, h) # qs" using assms(5) by (cases ps) auto
  have rest: "drop (length g) s = flatten ps" by (simp add: s_def)
  have starts: "flatten ps \<noteq> [] \<and> hd (flatten ps) \<notin> set D" by (rule spaced_starts [OF assms(3,5)])
  obtain d g' where g: "g = d # g'" using assms(6) by (cases g) auto
  have cur: "sv_find_first_of s D 0 = 0" using g assms(7) by (simp add: s_def sv_find_first_of_def)
  have prev: "sv_find_first_not_of s D 0 = length g"
    using find_gap [of 0 s g "flatten ps" D] assms(7) starts by (simp add: s_def)
  have tail: "drop (Suc 0) s = g' @ flatten ps" by (simp add: s_def g)
  have len: "length g < length s" "length s < npos" using starts assms(1) by (simp_all add: s_def)
  have start: "tokenize s D Q = tokenize_loop s D Q 0 (length g) []"
    using cur prev len by (simp add: tokenize_def)
  have from_first: "tokenize_loop s D Q (sv_find_first_of s D (length g)) (length g) result
      = Inr (result @ map fst ps @ replicate (empty_tokens D Q ps) [])" for result
    using tokenize_loop_spaced [OF len(2) assms(2,3) rest _ refl assms(4,5)] len by simp
  show ?thesis
  proof (cases "plain_token D Q t")
    case True
    have "next_token s Q 0 (length g) = Inr (flatten ps, 0)"
      using next_token_wrapped [of s "length g" t "h @ flatten qs" D Q] True assms(6) rest ps len by simp
    then have "tokenize_loop s D Q 0 (length g) [] =
        tokenize_loop s D Q (sv_find_first_of s D (Suc 0 + length g')) (Suc 0 + length g') ([] @ [flatten ps])"
      using starts tail g assms(7) len by (intro tokenize_loop_step [where r = "flatten ps"]) (auto simp: npos_def)
    then show ?thesis using start from_first g True ps by (simp add: s_def)
  next
    case False
    then have quoted: "quoted_token D Q t" using assms(3) ps by simp
    have token: "next_token s Q current (length g) = Inr (t, length g + length t - 1)" for current
      using next_token_quoted [OF len(2) assms(2) _ quoted] rest ps by simp
    define c where "c = sv_find_first_of s D (length g)"
    have "tokenize_loop s D Q 0 (length g) [] = Inr (map fst ps @ replicate (empty_tokens D Q ps) [])"
    proof (cases "c = npos")
      case True
      then have "set (flatten ps) \<inter> set D = {}"
        using find_first_of_cases [OF len(2), of D "length g"] len rest by (auto simp: c_def)
      then have "qs = [] \<and> h = []"
        using assms(3) ps by (cases h) auto
      then show ?thesis
        using tokenize_loop_last [OF _ token, of 0 "[]" D "[]"] False ps len assms(7) quoted
        by (auto simp: npos_def s_def quoted_token_def)
    next
      case False
      then show ?thesis
        using tokenize_loop_same_token [of 0 c s Q "length g" D "[]"] token from_first [of "[]"]
        by (simp add: c_def npos_def)
    qed
    then show ?thesis using start False ps by (simp add: s_def)
  qed
qed

section \<open>Properties\<close>

text \<open>
  C24: what \<^verbatim>\<open>tokenize\<close> gives for a text of tokens (words, and quoted strings, which may contain
  delimiters) with gaps of delimiters between them, and perhaps before the first and after the
  last. It finds all the tokens in order, and these alone when the text starts with a token and ends with a
  token or with a plain token and one delimiter. After a leading gap and a plain token it gives
  first, as an extra element, all of the text from that token on, because the length of its first piece
  wraps; and each delimiter at the end, but for the first after a plain token, gives an empty
  element. It always ends, as it is a total function.
\<close>

theorem tokenize_finds_tokens:
  assumes "length (g @ flatten ps) < npos" and "length quotes < npos"
    and "set g \<subseteq> set delim" and "spaced delim quotes ps"
    and "ps \<noteq> [] \<and> empty_tokens delim quotes ps = 0 \<or> set delim \<inter> set quotes = {}"
  shows "tokenize (g @ flatten ps) delim quotes =
    Inr (if ps = [] then replicate (length g) []
         else (if g \<noteq> [] \<and> plain_token delim quotes (fst (hd ps)) then [flatten ps] else [])
           @ map fst ps @ replicate (empty_tokens delim quotes ps) [])"
  using assms tokenize_delimiters [of g delim quotes] tokenize_leading [of g ps quotes delim]
    tokenize_spaced [of ps quotes delim]
  by (cases "ps = []"; cases "g = []") auto

theorem tokenize_finds_tokens_witness:
  "tokenize ''a {b c}  d '' '' '' quote_pairs = Inr [''a'', ''{b c}'', ''d'']
    \<and> tokenize '' a b'' '' '' quote_pairs = Inr [''a b'', ''a'', ''b'']
    \<and> tokenize '' {a} '' '' '' quote_pairs = Inr [''{a}'', []]"
  using tokenize_finds_tokens
      [of "[]" "[(''a'', '' ''), (''{b c}'', ''  ''), (''d'', '' '')]" quote_pairs "'' ''"]
    tokenize_finds_tokens [of "'' ''" "[(''a'', '' ''), (''b'', [])]" quote_pairs "'' ''"]
    tokenize_finds_tokens [of "'' ''" "[(''{a}'', '' '')]" quote_pairs "'' ''"]
  by (simp add: npos_def quote_pairs_def plain_token_def quoted_token_def flatten_def)

end
