(* ===== verification/Scan.thy ===== *)
theory Scan
  imports Complex_Main Strings
begin

text \<open>
  The scanners and parsers of \<^verbatim>\<open>src/src/scan.hpp\<close>. A scanner takes the view it reads by
  reference: its model returns the result and the rest of the view. The 64-bit
  accumulators are \<^typ>\<open>u64\<close>; a parser's unsigned type \<^verbatim>\<open>T\<close> is a word type, its signed or
  unsigned type in \<^verbatim>\<open>parse_integer\<close> a flag and a width. Floating-point arithmetic is a
  record of operations.
\<close>

section \<open>Scanners\<close>

definition hex_digits :: string where
  "hex_digits = ''0123456789abcdef''"

definition scan_decode_hex :: "char \<Rightarrow> byte" where
  "scan_decode_hex ch =
     (let ch = tolower ch; pos = sv_find_first_of hex_digits [ch] 0 in
      if pos < 16 then word_of_nat pos else 0xFF)"

definition match_prefix :: "string \<Rightarrow> string \<Rightarrow> bool \<times> string" where
  "match_prefix text pfx =
     (if length text \<ge> length pfx \<and> take (length pfx) text = pfx
      then (True, drop (length pfx) text) else (False, text))"

definition consume_prefix :: "string \<Rightarrow> string \<Rightarrow> bool \<times> string" where
  "consume_prefix input pfx =
     (if length input \<ge> length pfx \<and> take (length pfx) input = pfx
      then (True, drop (length pfx) input)
      else if input \<noteq> [] \<and> hd input = CHR ''$'' then (True, drop 1 input)
      else (False, input))"

fun get_hex_loop :: "nat \<Rightarrow> string \<Rightarrow> u64 \<Rightarrow> u64 \<times> string" where
  "get_hex_loop 0 input result = (result, input)"
| "get_hex_loop (Suc digits) [] result = (result, [])"
| "get_hex_loop (Suc digits) (c # input) result =
     (let nibble = scan_decode_hex c in
      if nibble = 0xFF then (0, c # input)
      else get_hex_loop digits input (push_bit 4 result OR ucast nibble))"

definition get_hex :: "string \<Rightarrow> nat \<Rightarrow> u64 \<times> string" where
  "get_hex input digits = (if digits > 8 then (0, input) else get_hex_loop digits input 0)"

fun get_integer_loop :: "u64 \<Rightarrow> string \<Rightarrow> u64 \<Rightarrow> u64 \<times> string" where
  "get_integer_loop limit [] result = (result, [])"
| "get_integer_loop limit (c # input) result =
     (if \<not> is_digit c then (result, c # input)
      else let digit = word_of_nat (code_of c - 48); nxt = result * 10 + digit in
        if nxt > limit then (result, c # input)
        else get_integer_loop limit input nxt)"

definition get_integer :: "string \<Rightarrow> u64 \<Rightarrow> u64 \<times> string" where
  "get_integer input limit = get_integer_loop limit input 0"

text \<open>
  \<^verbatim>\<open>isdigit\<close> and \<^verbatim>\<open>tolower\<close> on a plain \<^verbatim>\<open>char\<close>, which is signed: the standard defines them
  for the values of an \<^verbatim>\<open>unsigned char\<close> and for -1.
\<close>

definition raw_isdigit :: "char \<Rightarrow> bool res" where
  "raw_isdigit c = (if code_of c < 128 \<or> code_of c = 255 then Inr (is_digit c) else Inl Undefined)"

definition raw_tolower :: "char \<Rightarrow> char res" where
  "raw_tolower c = (if code_of c < 128 \<or> code_of c = 255 then Inr (tolower c) else Inl Undefined)"

section \<open>Parsers of integers\<close>

definition parse_hex :: "string \<Rightarrow> 'w::len word \<Rightarrow> 'w word \<Rightarrow> 'w word res" where
  "parse_hex input mn mx =
     (let (_, input) = consume_prefix input ''0x'';
          max_digits = LENGTH('w) div 8 * 2;
          (value, input) = get_hex input max_digits in
      if value = - 1 \<or> input \<noteq> [] then Inl (Overflow ''Hex value too large or contains invalid digits'')
      else if value < ucast mn \<or> value > ucast mx then Inl (Range ''Hex value outside allowed bounds'')
      else Inr (ucast value))"

definition parse_integer :: "bool \<Rightarrow> nat \<Rightarrow> string \<Rightarrow> int \<Rightarrow> int \<Rightarrow> int res" where
  "parse_integer sg w input mn mx =
     (let (value, input) = get_integer input (word_of_int mx); raw = sint value in
      if input \<noteq> [] then Inl (Overflow ''Trailing characters after integer value'')
      else if raw < sint (word_of_int mn :: u64) \<or> raw > sint (word_of_int mx :: u64)
      then Inl (Range ''Parsed integer outside valid range'')
      else Inr (if sg then signed_take_bit (w - 1) raw else take_bit w raw))"

definition parse_unsigned :: "string \<Rightarrow> 'w::len word \<Rightarrow> 'w word \<Rightarrow> 'w word res" where
  "parse_unsigned input mn mx =
     (if input \<noteq> [] \<and> hd input = CHR ''-'' then Inl (Invalid ''Negative sign not allowed for unsigned'')
      else let (value, input) = get_integer input (ucast mx) in
        if input \<noteq> [] then Inl (Overflow ''Trailing characters after unsigned value'')
        else if value < ucast mn \<or> value > ucast mx then Inl (Range ''Parsed value outside allowed range'')
        else Inr (ucast value))"

definition parse_size :: "string \<Rightarrow> u64 res" where
  "parse_size input =
     (if input \<noteq> [] \<and> hd input = CHR ''-'' then Inl (Invalid ''Negative sign not allowed for size'')
      else let (value, input) = get_integer input (- 1) in
        case input of
          [] \<Rightarrow> Inr value
        | c # more \<Rightarrow>
            (case raw_isdigit c of
               Inl e \<Rightarrow> Inl e
             | Inr True \<Rightarrow> Inl (Overflow ''Trailing characters after size'')
             | Inr False \<Rightarrow>
                 if more \<noteq> [] then Inl (Invalid ''Trailing characters after duration'')
                 else case raw_tolower c of
                   Inl e \<Rightarrow> Inl e
                 | Inr l \<Rightarrow>
                     if l = CHR ''b'' then Inr value
                     else if l = CHR ''k'' then Inr (value * 1024)
                     else if l = CHR ''m'' then Inr (value * 1024 * 1024)
                     else if l = CHR ''g'' then Inr (ucast (ucast (value * 1024 * 1024 * 1024) :: u32))
                     else Inl (Invalid ''Trailing characters after duration'')))"

definition parse_duration :: "string \<Rightarrow> bool \<Rightarrow> u32 res" where
  "parse_duration input ms =
     (if input \<noteq> [] \<and> hd input = CHR ''-'' then Inl (Invalid ''Negative sign not allowed for duration'')
      else let (value, input) = get_integer input 4294967295; scale = (if ms then 1000 else 1) in
        case input of
          [] \<Rightarrow> Inr (ucast value)
        | c # more \<Rightarrow>
            (case raw_isdigit c of
               Inl e \<Rightarrow> Inl e
             | Inr True \<Rightarrow> Inl (Overflow ''Trailing characters after duration'')
             | Inr False \<Rightarrow>
                 if input = ''ms'' \<and> ms then Inr (ucast value)
                 else if more \<noteq> [] then Inl (Invalid ''Trailing characters after duration'')
                 else case raw_tolower c of
                   Inl e \<Rightarrow> Inl e
                 | Inr l \<Rightarrow>
                     if l = CHR ''s'' then Inr (ucast (value * scale))
                     else if l = CHR ''m'' then Inr (ucast (value * scale * 60))
                     else if l = CHR ''h'' then Inr (ucast (value * scale * 3600))
                     else if l = CHR ''d'' then Inr (ucast (value * scale * 86400))
                     else Inl (Invalid ''Trailing characters after duration'')))"

definition parse_bool :: "string \<Rightarrow> bool res" where
  "parse_bool input =
     (let text = to_lower input in
      if text = ''true'' then Inr True
      else if text = ''yes'' then Inr True
      else if text = ''on'' then Inr True
      else if text = ''t'' then Inr True
      else if text = ''y'' then Inr True
      else if text = ''false'' then Inr False
      else if text = ''no'' then Inr False
      else if text = ''off'' then Inr False
      else if text = ''f'' then Inr False
      else if text = ''n'' then Inr False
      else Inl (Invalid ''Invalid bool value''))"

section \<open>Floating point\<close>

text \<open>
  The arithmetic of \<^verbatim>\<open>double\<close> the scanners use; \<open>f_pow10\<close> is \<^verbatim>\<open>std::pow(10.0, n)\<close> and
  \<open>f_of_nat\<close> the conversion from an unsigned integer.
\<close>

record 'd float_ops =
  f_of_nat :: "nat \<Rightarrow> 'd"
  f_add :: "'d \<Rightarrow> 'd \<Rightarrow> 'd"
  f_mult :: "'d \<Rightarrow> 'd \<Rightarrow> 'd"
  f_div :: "'d \<Rightarrow> 'd \<Rightarrow> 'd"
  f_neg :: "'d \<Rightarrow> 'd"
  f_pow10 :: "nat \<Rightarrow> 'd"

fun get_fraction :: "'d float_ops \<Rightarrow> string \<Rightarrow> 'd \<Rightarrow> 'd \<Rightarrow> 'd \<times> string" where
  "get_fraction F [] fraction scale = (fraction, [])"
| "get_fraction F (c # input) fraction scale =
     (if \<not> is_digit c then (fraction, c # input)
      else let scale = f_div F scale (f_of_nat F 10);
               fraction = f_add F fraction (f_mult F (f_of_nat F (code_of c - 48)) scale)
           in get_fraction F input fraction scale)"

definition get_decimal :: "'d float_ops \<Rightarrow> string \<Rightarrow> u64 \<Rightarrow> 'd \<times> string" where
  "get_decimal F input limit =
     (let (integer, input) = get_integer input limit;
          (fraction, input) =
            (if input \<noteq> [] \<and> hd input = CHR ''.''
             then get_fraction F (drop 1 input) (f_of_nat F 0) (f_of_nat F 1)
             else (f_of_nat F 0, input))
      in (f_add F (f_of_nat F (unat integer)) fraction, input))"

definition get_double :: "'d float_ops \<Rightarrow> string \<Rightarrow> u64 \<Rightarrow> 'd \<times> string" where
  "get_double F input limit =
     (let (number, input) = get_decimal F input limit in
      if input \<noteq> [] \<and> (hd input = CHR ''e'' \<or> hd input = CHR ''E'')
      then let input = drop 1 input;
               (negative, input) =
                 (if input \<noteq> [] \<and> (hd input = CHR ''+'' \<or> hd input = CHR ''-'')
                  then (hd input = CHR ''-'', drop 1 input) else (False, input));
               (exponent, input) = get_integer input 2147483647;
               scale = f_pow10 F (unat exponent)
           in (f_mult F number (if negative then f_div F (f_of_nat F 1) scale else scale), input)
      else (number, input))"

definition parse_decimal :: "'d float_ops \<Rightarrow> string \<Rightarrow> 'd res" where
  "parse_decimal F input =
     (let (negative, input) =
            (if input \<noteq> [] \<and> hd input = CHR ''-'' then (True, drop 1 input) else (False, input));
          (value, input) = get_decimal F input 2147483647
      in if input \<noteq> [] then Inl (Invalid ''Trailing characters after decimal value'')
         else Inr (if negative then f_neg F value else value))"

definition parse_real :: "'d float_ops \<Rightarrow> string \<Rightarrow> 'd res" where
  "parse_real F input =
     (let (negative, input) =
            (if input \<noteq> [] \<and> hd input = CHR ''-'' then (True, drop 1 input) else (False, input));
          (value, input) = get_double F input 2147483647
      in if input \<noteq> [] then Inl (Invalid ''Trailing characters after decimal value'')
         else Inr (if negative then f_neg F value else value))"

section \<open>Hexadecimal digits\<close>

lemma first_index_map: "first_index P (map f xs) = first_index (\<lambda>x. P (f x)) xs"
  by (induction xs) auto

lemma first_index_upt:
  "first_index (\<lambda>n. n = k) [a ..< b] = (if a \<le> k \<and> k < b then Some (k - a) else None)"
proof (cases "a \<le> k \<and> k < b")
  case True
  moreover have "[a ..< b] ! j \<noteq> k" if "j < k - a" for j
  proof -
    have "[a ..< b] ! j = a + j" by (rule nth_upt) (use that True in linarith)
    then show ?thesis using that by simp
  qed
  moreover have "k - a < b - a" using True by (simp add: diff_less_mono)
  ultimately show ?thesis using True by (simp add: first_index_Some)
qed (auto simp: first_index_None)

lemma first_index_append_cases:
  "first_index P (u @ v) = (case first_index P u of Some i \<Rightarrow> Some i | None \<Rightarrow> map_option ((+) (length u)) (first_index P v))"
  by (induction u; cases "first_index P v") (auto split: option.splits)

lemma hex_digits_codes: "map code_of hex_digits = [48 ..< 58] @ [97 ..< 103]"
  by (simp add: hex_digits_def upt_rec)

lemma hex_digits_index:
  "first_index (\<lambda>c. c \<in> set [d]) hex_digits =
     (if 48 \<le> code_of d \<and> code_of d < 58 then Some (code_of d - 48)
      else if 97 \<le> code_of d \<and> code_of d < 103 then Some (code_of d - 87) else None)"
proof -
  have "first_index (\<lambda>c. c \<in> set [d]) hex_digits = first_index (\<lambda>n. n = code_of d) (map code_of hex_digits)"
    by (simp add: first_index_map)
  then show ?thesis
    by (simp only: hex_digits_codes first_index_append_cases first_index_upt) auto
qed

lemma scan_decode_hex_eq:
  "scan_decode_hex c = (case hex_value c of None \<Rightarrow> 0xFF | Some v \<Rightarrow> word_of_nat v)"
proof -
  have "sv_find_first_of hex_digits [tolower c] 0 = or_npos (hex_value (tolower c))"
    by (simp add: sv_find_first_of_def hex_digits_index [simplified] hex_value_def Let_def option.map_ident
        code_tolower)
  then show ?thesis
    by (auto simp: scan_decode_hex_def Let_def npos_def split: option.split dest: hex_value_lt)
qed

lemma scan_decode_hex_invalid: "scan_decode_hex c = 0xFF \<longleftrightarrow> hex_value c = None"
proof (cases "hex_value c")
  case (Some v)
  then have "unat (scan_decode_hex c) = v"
    using hex_value_lt [OF Some] by (simp add: scan_decode_hex_eq unat_byte_of_nat)
  then have "scan_decode_hex c \<noteq> 0xFF" using hex_value_lt [OF Some] by auto
  then show ?thesis using Some by simp
qed (simp add: scan_decode_hex_eq)

definition hex_from :: "nat \<Rightarrow> string \<Rightarrow> nat" where
  "hex_from n s = foldl (\<lambda>n c. 16 * n + the (hex_value c)) n s"

lemma hex_from_simps [simp]: "hex_from n [] = n" "hex_from n (c # s) = hex_from (16 * n + the (hex_value c)) s"
  by (simp_all add: hex_from_def)

lemma hex_from_0: "hex_from 0 s = hex_number s"
  by (simp add: hex_from_def hex_number_def)

lemma nibble_append:
  assumes "hex_value c = Some v" and "unat r < 2 ^ 60"
  shows "unat (push_bit 4 r OR ucast (scan_decode_hex c) :: u64) = 16 * unat r + v"
proof -
  have v: "v < 16" using hex_value_lt [OF assms(1)] .
  have "unat (ucast (scan_decode_hex c) :: u64) = v"
    using v assms(1) by (simp add: scan_decode_hex_eq unat_ucast_mod unat_byte_of_nat)
  then show ?thesis
    using v assms(2) unat_or_shift [of "ucast (scan_decode_hex c) :: u64" 4 r] by simp
qed

lemma get_hex_loop_accepts:
  assumes "\<forall>c \<in> set s. hex_value c \<noteq> None" and "length s \<le> digits" and "(unat r + 1) * 16 ^ length s \<le> 2 ^ 64"
  shows "\<exists>r'. get_hex_loop digits s r = (r', []) \<and> unat r' = hex_from (unat r) s"
  using assms
proof (induction digits s r rule: get_hex_loop.induct)
  case (3 digits c s r)
  then obtain v where v: "hex_value c = Some v" by auto
  have v16: "v < 16" using hex_value_lt [OF v] .
  have pow: "(unat r + 1) * 16 * 16 ^ length s \<le> 2 ^ 64"
    using 3(4) by (simp only: list.size(4) add_Suc_right add_0_right power_Suc mult.assoc)
  have "(unat r + 1) * 16 \<le> (unat r + 1) * 16 * 16 ^ length s" by simp
  then have "(unat r + 1) * 16 \<le> 2 ^ 64" using pow by linarith
  then have r: "unat r < 2 ^ 60" by simp
  define r' :: u64 where "r' = push_bit 4 r OR ucast (scan_decode_hex c)"
  have r': "unat r' = 16 * unat r + v" unfolding r'_def by (rule nibble_append [OF v r])
  have "unat r' + 1 \<le> (unat r + 1) * 16" using r' v16 by simp
  then have "(unat r' + 1) * 16 ^ length s \<le> 2 ^ 64" using pow by (meson le_trans mult_le_mono1)
  then show ?case
    using 3(1) [OF refl] 3(2,3) v r' by (simp add: scan_decode_hex_invalid Let_def flip: r'_def)
qed auto

lemma get_hex_loop_rejects:
  "\<not> (length s \<le> digits \<and> (\<forall>c \<in> set s. hex_value c \<noteq> None)) \<Longrightarrow> snd (get_hex_loop digits s r) \<noteq> []"
  by (induction digits s r rule: get_hex_loop.induct) (auto simp: scan_decode_hex_invalid Let_def)

lemma hex_number_64: "length s \<le> 8 \<Longrightarrow> \<forall>c \<in> set s. hex_value c \<noteq> None \<Longrightarrow> hex_number s < 2 ^ 32"
proof -
  assume "length s \<le> 8" and "\<forall>c \<in> set s. hex_value c \<noteq> None"
  then have "hex_number s < 16 ^ length s" "(16 :: nat) ^ length s \<le> 16 ^ 8"
    using hex_number_lt [of s] power_increasing [of "length s" 8 "16 :: nat"] by simp_all
  then show ?thesis by simp
qed

lemma get_hex_cases:
  assumes "digits \<le> 8"
  shows "if length s \<le> digits \<and> (\<forall>c \<in> set s. hex_value c \<noteq> None)
    then \<exists>v. get_hex s digits = (v, []) \<and> unat v = hex_number s
    else snd (get_hex s digits) \<noteq> []"
proof (cases "length s \<le> digits \<and> (\<forall>c \<in> set s. hex_value c \<noteq> None)")
  case True
  have "(16 :: nat) ^ length s \<le> 16 ^ 8" using True assms by (intro power_increasing) auto
  then have "(unat (0 :: u64) + 1) * 16 ^ length s \<le> 2 ^ 64" by simp
  then show ?thesis
    using get_hex_loop_accepts [of s digits 0] True assms by (auto simp: get_hex_def hex_from_0)
next
  case False
  then have "snd (get_hex s digits) \<noteq> []"
    using get_hex_loop_rejects [of s digits 0] assms by (simp add: get_hex_def)
  then show ?thesis using False by (simp only: if_False HOL.simp_thms)
qed

section \<open>Decimal digits\<close>

definition dec_from :: "nat \<Rightarrow> string \<Rightarrow> nat" where
  "dec_from n s = foldl (\<lambda>n c. 10 * n + digit_value c) n s"

lemma dec_from_simps [simp]: "dec_from n [] = n" "dec_from n (c # s) = dec_from (10 * n + digit_value c) s"
  by (simp_all add: dec_from_def)

lemma dec_from_0: "dec_from 0 s = dec_number s"
  by (simp add: dec_from_def dec_number_def)

lemma dec_from_ge: "n \<le> dec_from n s"
proof (induction s arbitrary: n)
  case (Cons c s)
  have "n \<le> 10 * n + digit_value c" by simp
  then show ?case using Cons [of "10 * n + digit_value c"] by (simp del: mult_Suc)
qed simp

lemma next_value:
  assumes "is_digit c"
  shows "unat (r * 10 + word_of_nat (code_of c - 48) :: u64) = (10 * unat r + digit_value c) mod 2 ^ 64"
proof -
  have "r * 10 + word_of_nat (code_of c - 48) = word_of_nat (10 * unat r + digit_value c)"
    by (simp add: digit_value_def mult.commute)
  then show ?thesis by (simp only: unat_of_nat) simp
qed

text \<open>
  Below \<open>2 ^ 60\<close> the limit keeps the accumulator from wrapping: the scanner takes the
  longest run of digits whose value is at most the limit.
\<close>

lemma get_integer_loop_limit:
  assumes "unat limit < 2 ^ 60" and "unat r \<le> unat limit"
  shows "\<exists>p rest v. get_integer_loop limit s r = (v, rest) \<and> s = p @ rest \<and> (\<forall>c \<in> set p. is_digit c)
    \<and> unat v = dec_from (unat r) p \<and> unat v \<le> unat limit
    \<and> (case rest of [] \<Rightarrow> True | c # _ \<Rightarrow> is_digit c \<longrightarrow> 10 * unat v + digit_value c > unat limit)"
  using assms
proof (induction limit s r rule: get_integer_loop.induct)
  case (2 limit c s r)
  show ?case
  proof (cases "is_digit c")
    case digit: True
    define n where "n = r * 10 + word_of_nat (code_of c - 48)"
    have "10 * unat r + digit_value c < 2 ^ 64"
      using 2(2,3) digit_value_lt [OF digit] by simp
    then have n: "unat n = 10 * unat r + digit_value c"
      unfolding n_def next_value [OF digit] by simp
    show ?thesis
    proof (cases "n > limit")
      case True
      then show ?thesis
        using digit n 2(3)
        by (intro exI [of _ "[]"] exI [of _ "c # s"] exI [of _ r])
          (simp add: Let_def word_less_nat_alt flip: n_def)
    next
      case False
      then obtain p rest v where "get_integer_loop limit s n = (v, rest)" "s = p @ rest"
          "\<forall>c \<in> set p. is_digit c" "unat v = dec_from (unat n) p" "unat v \<le> unat limit"
          "case rest of [] \<Rightarrow> True | c # _ \<Rightarrow> is_digit c \<longrightarrow> 10 * unat v + digit_value c > unat limit"
        using 2(1) [OF _ refl n_def] 2(2) digit by (auto simp: word_le_nat_alt not_less)
      then show ?thesis
        using False digit n
        by (intro exI [of _ "c # p"] exI [of _ rest] exI [of _ v])
          (simp add: Let_def flip: n_def)
    qed
  next
    case False
    then show ?thesis
      using 2(3) by (intro exI [of _ "[]"] exI [of _ "c # s"] exI [of _ r]) simp
  qed
qed simp

lemma get_integer_limit:
  assumes "unat limit < 2 ^ 60"
  shows "\<exists>p rest v. get_integer s limit = (v, rest) \<and> s = p @ rest \<and> (\<forall>c \<in> set p. is_digit c)
    \<and> unat v = dec_number p \<and> unat v \<le> unat limit
    \<and> (case rest of [] \<Rightarrow> True | c # _ \<Rightarrow> is_digit c \<longrightarrow> dec_number (p @ [c]) > unat limit)"
proof -
  obtain p rest v where g: "get_integer_loop limit s 0 = (v, rest)" "s = p @ rest"
      "\<forall>c \<in> set p. is_digit c" "unat v = dec_number p" "unat v \<le> unat limit"
      "case rest of [] \<Rightarrow> True | c # _ \<Rightarrow> is_digit c \<longrightarrow> 10 * unat v + digit_value c > unat limit"
    using get_integer_loop_limit [OF assms, of 0 s] by (auto simp: dec_from_0)
  show ?thesis
    using g by (intro exI [of _ p] exI [of _ rest] exI [of _ v], cases rest)
      (simp_all add: get_integer_def dec_number_snoc)
qed

text \<open>All of the input is read exactly when it is a numeral within the limit.\<close>

lemma get_integer_all:
  assumes "unat limit < 2 ^ 60"
  shows "if (\<forall>c \<in> set s. is_digit c) \<and> dec_number s \<le> unat limit
    then \<exists>v. get_integer s limit = (v, []) \<and> unat v = dec_number s
    else snd (get_integer s limit) \<noteq> []"
proof -
  obtain p rest v where g: "get_integer s limit = (v, rest)" "s = p @ rest" "\<forall>c \<in> set p. is_digit c"
      "unat v = dec_number p" "unat v \<le> unat limit"
      "case rest of [] \<Rightarrow> True | c # _ \<Rightarrow> is_digit c \<longrightarrow> dec_number (p @ [c]) > unat limit"
    using get_integer_limit [OF assms] by blast
  show ?thesis
  proof (cases rest)
    case Nil
    then show ?thesis using g by simp
  next
    case (Cons c r)
    have "\<not> ((\<forall>c \<in> set s. is_digit c) \<and> dec_number s \<le> unat limit)"
      using g(2,6) Cons dec_number_mono [of "p @ [c]" r] by auto
    then show ?thesis using g(1) Cons by (simp only: if_False HOL.simp_thms) simp
  qed
qed

text \<open>A numeral within the limit is read up to the character after it.\<close>

lemma get_integer_dot:
  assumes "\<forall>c \<in> set p. is_digit c" and "dec_number p \<le> unat limit" and "unat limit < 2 ^ 60" and "\<not> is_digit u"
  shows "\<exists>v. get_integer (p @ u # r) limit = (v, u # r) \<and> unat v = dec_number p"
proof -
  have loop: "\<exists>v. get_integer_loop limit (p @ u # r) w = (v, u # r) \<and> unat v = dec_from (unat w) p"
    if "dec_from (unat w) p \<le> unat limit" for w
    using that assms(1)
  proof (induction p arbitrary: w)
    case (Cons c p)
    define n where "n = w * 10 + word_of_nat (code_of c - 48)"
    have "10 * unat w + digit_value c \<le> unat limit"
      using Cons.prems(1) dec_from_ge [of "10 * unat w + digit_value c" p] by simp
    then have n: "unat n = 10 * unat w + digit_value c"
      unfolding n_def using next_value [of c w] Cons.prems(2) assms(3) by simp
    have "\<not> n > limit" using n \<open>10 * unat w + digit_value c \<le> unat limit\<close> by (simp add: word_less_nat_alt)
    moreover have "dec_from (unat n) p \<le> unat limit" using Cons.prems(1) n by simp
    ultimately show ?case
      using Cons.IH [of n] Cons.prems(2) n by (simp add: Let_def flip: n_def)
  qed (simp add: assms(4))
  show ?thesis using loop [of 0] assms(2) by (simp add: get_integer_def dec_from_0)
qed

text \<open>With the largest limit nothing stops the digits, and the accumulator wraps.\<close>

lemma get_integer_loop_wraps:
  "get_integer_loop (- 1) s r =
     (word_of_nat (dec_from (unat r) (takeWhile is_digit s)), dropWhile is_digit s)"
proof (induction s arbitrary: r)
  case (Cons c s)
  show ?case
  proof (cases "is_digit c")
    case True
    have "word_of_nat (dec_from (unat (r * 10 + word_of_nat (code_of c - 48))) p)
        = (word_of_nat (dec_from (10 * unat r + digit_value c) p) :: u64)" for p
    proof (induction p rule: rev_induct)
      case (snoc d p)
      then show ?case by (simp add: dec_from_def)
    qed (simp add: digit_value_def mult.commute)
    moreover have "\<not> - 1 < n" for n :: u64 by (simp add: not_less)
    ultimately show ?thesis
      using True Cons.IH [of "r * 10 + word_of_nat (code_of c - 48)"] by (simp add: Let_def)
  qed simp
qed simp

section \<open>What the parsers accept\<close>

lemma unat_ucast_u64: "LENGTH('w) \<le> 64 \<Longrightarrow> unat (ucast (w :: 'w::len word) :: u64) = unat w"
proof -
  assume "LENGTH('w) \<le> 64"
  then have "(2 :: nat) ^ LENGTH('w) \<le> 2 ^ 64" by (intro power_increasing) auto
  moreover have "unat w < 2 ^ LENGTH('w)" by (rule unsigned_less)
  ultimately have "unat w < 2 ^ 64" by linarith
  then show ?thesis by (simp add: unat_ucast_mod)
qed

lemma unat_small_word: "LENGTH('w) \<le> 32 \<Longrightarrow> unat (w :: 'w::len word) < 2 ^ 32"
proof -
  assume "LENGTH('w) \<le> 32"
  then have "(2 :: nat) ^ LENGTH('w) \<le> 2 ^ 32" by (intro power_increasing) auto
  moreover have "unat w < 2 ^ LENGTH('w)" by (rule unsigned_less)
  ultimately show ?thesis by linarith
qed

lemma ucast_of_unat: "ucast (v :: u64) = (word_of_nat (unat v) :: 'w::len word)"
  by (simp add: word_unat_eq_iff unat_ucast_mod unat_of_nat)

lemma parse_unsigned_eq:
  fixes mn mx :: "'w::len word"
  assumes "LENGTH('w) \<le> 32"
  shows "parse_unsigned s mn mx =
    (if s \<noteq> [] \<and> hd s = CHR ''-'' then Inl (Invalid ''Negative sign not allowed for unsigned'')
     else if \<not> ((\<forall>c \<in> set s. is_digit c) \<and> dec_number s \<le> unat mx)
     then Inl (Overflow ''Trailing characters after unsigned value'')
     else if dec_number s < unat mn then Inl (Range ''Parsed value outside allowed range'')
     else Inr (word_of_nat (dec_number s)))"
proof -
  have u: "unat (ucast w :: u64) = unat w" for w :: "'w word"
    using assms by (intro unat_ucast_u64) simp
  have "unat (ucast mx :: u64) < 2 ^ 60" using unat_small_word [OF assms, of mx] by (simp only: u) simp
  note g = get_integer_all [OF this, of s]
  show ?thesis
  proof (cases "(\<forall>c \<in> set s. is_digit c) \<and> dec_number s \<le> unat mx")
    case True
    then obtain v where v: "get_integer s (ucast mx) = (v, [])" "unat v = dec_number s"
      using g by (auto simp: u)
    show ?thesis
      unfolding parse_unsigned_def Let_def v(1) prod.case
      using True v(2) by (simp add: word_less_nat_alt u ucast_of_unat not_less)
  next
    case False
    then have "snd (get_integer s (ucast mx)) \<noteq> []" using g by (simp only: u if_False not_False_eq_True)
    then show ?thesis using False by (auto simp: parse_unsigned_def split: prod.split)
  qed
qed

lemma parse_hex_eq:
  fixes mn mx :: "'w::len word" and s :: string
  assumes "LENGTH('w) \<le> 32"
  defines "body \<equiv> snd (consume_prefix s ''0x'')"
  shows "parse_hex s mn mx =
    (if \<not> (length body \<le> LENGTH('w) div 8 * 2 \<and> (\<forall>c \<in> set body. hex_value c \<noteq> None))
     then Inl (Overflow ''Hex value too large or contains invalid digits'')
     else if hex_number body < unat mn \<or> hex_number body > unat mx
     then Inl (Range ''Hex value outside allowed bounds'')
     else Inr (word_of_nat (hex_number body)))"
proof -
  have digits: "LENGTH('w) div 8 * 2 \<le> 8" using assms(1) by simp
  have u: "unat (ucast w :: u64) = unat w" for w :: "'w word"
    using assms(1) by (intro unat_ucast_u64) simp
  note g = get_hex_cases [OF digits, of body]
  show ?thesis
  proof (cases "length body \<le> LENGTH('w) div 8 * 2 \<and> (\<forall>c \<in> set body. hex_value c \<noteq> None)")
    case True
    then obtain v where v: "get_hex body (LENGTH('w) div 8 * 2) = (v, [])" "unat v = hex_number body"
      using g by auto
    have "unat v < 2 ^ 32" using hex_number_64 [of body] True digits v(2) by simp
    moreover have "unat (- 1 :: u64) = 2 ^ 64 - 1"
      by (simp add: unsigned_minus_1_eq_mask mask_eq_exp_minus_1)
    ultimately have "v \<noteq> - 1" by auto
    then show ?thesis
      using True v by (simp add: parse_hex_def word_less_nat_alt u ucast_of_unat case_prod_beta flip: body_def)
  next
    case False
    then have "snd (get_hex body (LENGTH('w) div 8 * 2)) \<noteq> []" using g by (simp only: if_False not_False_eq_True)
    then show ?thesis using False by (simp add: parse_hex_def case_prod_beta flip: body_def)
  qed
qed

lemma parse_integer_eq:
  assumes "0 \<le> mx" and "mx < 2 ^ 60" and "- (2 ^ 60) < mn" and "mn < 2 ^ 60"
  shows "parse_integer sg w s mn mx =
    (if \<not> ((\<forall>c \<in> set s. is_digit c) \<and> int (dec_number s) \<le> mx)
     then Inl (Overflow ''Trailing characters after integer value'')
     else if int (dec_number s) < mn then Inl (Range ''Parsed integer outside valid range'')
     else Inr (if sg then signed_take_bit (w - 1) (int (dec_number s)) else take_bit w (int (dec_number s))))"
proof -
  have si: "sint (word_of_int x :: u64) = x" if "- (2 ^ 60) < x" "x < 2 ^ 60" for x
    using that by (simp add: signed_of_int signed_take_bit_int_eq_self)
  have um: "unat (word_of_int mx :: u64) = nat mx"
    using assms(1,2) by (simp add: unsigned_of_int take_bit_int_eq_self)
  have "unat (word_of_int mx :: u64) < 2 ^ 60" using assms(1,2) by (simp only: um) simp
  note g = get_integer_all [OF this, of s]
  show ?thesis
  proof (cases "(\<forall>c \<in> set s. is_digit c) \<and> int (dec_number s) \<le> mx")
    case True
    then obtain v where v: "get_integer s (word_of_int mx) = (v, [])" "unat v = dec_number s"
      using g by (auto simp: um nat_le_iff le_nat_iff)
    have "v = word_of_int (int (dec_number s))" by (simp flip: v(2))
    then have "sint v = int (dec_number s)" using si [of "int (dec_number s)"] True assms(2) by simp
    then show ?thesis
      using True v(1) si [of mn] si [of mx] assms by (simp add: parse_integer_def)
  next
    case False
    then have "snd (get_integer s (word_of_int mx)) \<noteq> []"
      using g assms(1) by (auto simp: um nat_le_iff le_nat_iff split: if_splits)
    then show ?thesis using False by (simp add: parse_integer_def case_prod_beta)
  qed
qed

lemma is_digit_not_minus: "is_digit c \<Longrightarrow> c \<noteq> CHR ''-''"
  by (auto simp: is_digit_def)

text \<open>A size is a numeral, then nothing or a unit letter.\<close>

lemma get_integer_unit:
  assumes "\<forall>c \<in> set p. is_digit c" and "\<not> is_digit u"
  shows "get_integer p (- 1) = (word_of_nat (dec_number p), [])"
    and "get_integer (p @ [u]) (- 1) = (word_of_nat (dec_number p), [u])"
  using assms by (simp_all add: get_integer_def get_integer_loop_wraps dec_from_0 takeWhile_append2
      dropWhile_append2 takeWhile_eq_self_iff [THEN iffD2])

definition size_scale :: "char \<Rightarrow> u64 option" where
  "size_scale l =
     (if l = CHR ''b'' then Some 1 else if l = CHR ''k'' then Some 1024
      else if l = CHR ''m'' then Some 1048576 else None)"

lemma parse_size_unit:
  assumes p: "\<forall>c \<in> set p. is_digit c" and u: "\<not> is_digit u" "code_of u < 128" "u \<noteq> CHR ''-''"
  shows "parse_size (p @ [u]) =
    (case size_scale (tolower u) of
       Some scale \<Rightarrow> Inr (word_of_nat (dec_number p) * scale)
     | None \<Rightarrow>
         if tolower u = CHR ''g'' then Inr (word_of_nat (dec_number p * 2 ^ 30 mod 2 ^ 32))
         else Inl (Invalid ''Trailing characters after duration''))"
proof -
  have hd: "hd (p @ [u]) \<noteq> CHR ''-''"
    using p u(3) is_digit_not_minus by (cases p) auto
  have giga: "(ucast (ucast (word_of_nat n * 1024 * 1024 * 1024 :: u64) :: u32) :: u64)
      = word_of_nat (n * 2 ^ 30 mod 2 ^ 32)" for n
  proof -
    have scaled: "word_of_nat n * 1024 * 1024 * 1024 = (word_of_nat (n * 2 ^ 30) :: u64)" by simp
    have "unat (ucast (ucast (word_of_nat (n * 2 ^ 30) :: u64) :: u32) :: u64)
        = n * 2 ^ 30 mod 2 ^ 64 mod 2 ^ 32 mod 2 ^ 64"
      by (simp add: unat_ucast_mod unat_of_nat del: of_nat_mult of_nat_power)
    also have "\<dots> = n * 2 ^ 30 mod 2 ^ 32 mod 2 ^ 64" by (simp add: mod_mod_cancel)
    finally show ?thesis
      unfolding scaled by (simp add: word_unat_eq_iff unat_of_nat del: of_nat_mult of_nat_power of_nat_mod)
  qed
  show ?thesis
    unfolding parse_size_def get_integer_unit(2) [OF p u(1)] Let_def prod.case
    using hd u(1,2) giga [of "dec_number p"]
    by (simp add: raw_isdigit_def raw_tolower_def size_scale_def mult.assoc)
qed

text \<open>A duration in seconds, or with \<^verbatim>\<open>ms\<close> in milliseconds: the product keeps its low 32 bits.\<close>

definition duration_scale :: "bool \<Rightarrow> char \<Rightarrow> nat option" where
  "duration_scale ms l =
     (let scale = (if ms then 1000 else 1) in
      if l = CHR ''s'' then Some scale else if l = CHR ''m'' then Some (scale * 60)
      else if l = CHR ''h'' then Some (scale * 3600) else if l = CHR ''d'' then Some (scale * 86400)
      else None)"

lemma parse_duration_unit:
  assumes p: "\<forall>c \<in> set p. is_digit c" "dec_number p < 2 ^ 32"
    and u: "\<not> is_digit u" "code_of u < 128" "u \<noteq> CHR ''-''"
  shows "parse_duration (p @ [u]) ms =
    (case duration_scale ms (tolower u) of
       Some scale \<Rightarrow> Inr (word_of_nat (dec_number p * scale))
     | None \<Rightarrow> Inl (Invalid ''Trailing characters after duration''))"
proof -
  have hd: "hd (p @ [u]) \<noteq> CHR ''-''"
    using p u(3) is_digit_not_minus by (cases p) auto
  obtain q rest v where g: "get_integer (p @ [u]) 4294967295 = (v, rest)" "p @ [u] = q @ rest"
      "\<forall>c \<in> set q. is_digit c" "unat v = dec_number q"
      "case rest of [] \<Rightarrow> True | c # _ \<Rightarrow> is_digit c \<longrightarrow> dec_number (q @ [c]) > 4294967295"
  proof -
    have lim: "unat (4294967295 :: u64) = 4294967295" by simp
    have "unat (4294967295 :: u64) < 2 ^ 60" unfolding lim by simp
    from get_integer_limit [OF this, of "p @ [u]"] show thesis using that unfolding lim by blast
  qed
  have "rest = [u] \<and> q = p"
  proof (cases rest rule: rev_cases)
    case Nil
    then show ?thesis using g(2,3) u(1) by (metis append_Nil2 in_set_conv_decomp)
  next
    case (snoc r x)
    then have x: "x = u" "p = q @ r" using g(2) by simp_all
    have "r = []"
    proof (rule ccontr)
      assume "r \<noteq> []"
      then obtain c r' where c: "r = c # r'" by (cases r) auto
      then have "is_digit c" "dec_number (q @ [c]) \<le> dec_number p"
        using x(2) p(1) dec_number_mono [of "q @ [c]" r'] by auto
      then show False using g(5) snoc c p(2) by simp
    qed
    then show ?thesis using snoc x by simp
  qed
  then have g': "get_integer (p @ [u]) 4294967295 = (v, [u])" "v = word_of_nat (dec_number p)"
  proof -
    assume rq: "rest = [u] \<and> q = p"
    then show "get_integer (p @ [u]) 4294967295 = (v, [u])" using g(1) by simp
    have "word_of_nat (unat v) = v" by simp
    then show "v = word_of_nat (dec_number p)" using g(4) rq by simp
  qed
  have cast: "ucast (word_of_nat n :: u64) = (word_of_nat n :: u32)" for n
    by (simp add: word_unat_eq_iff unat_ucast_mod unat_of_nat mod_mod_cancel)
  have product: "ucast (word_of_nat n * k :: u64) = (word_of_nat n * word_of_nat (unat k) :: u32)" for n k
  proof -
    have "word_of_nat n * k = (word_of_nat (n * unat k) :: u64)" by simp
    then have "ucast (word_of_nat n * k :: u64) = (word_of_nat (n * unat k) :: u32)" by (simp only: cast)
    then show ?thesis by simp
  qed
  have product': "ucast (k * word_of_nat n :: u64) = (word_of_nat n * word_of_nat (unat k) :: u32)" for n k
    using product [of n k] by (simp only: mult.commute)
  show ?thesis
    unfolding parse_duration_def g' Let_def prod.case
    using hd u(1,2)
    by (auto simp: raw_isdigit_def raw_tolower_def duration_scale_def Let_def product product' cast)
qed

section \<open>Decimals in exact arithmetic\<close>

definition exact_ops :: "real float_ops" where
  "exact_ops = \<lparr>f_of_nat = of_nat, f_add = (+), f_mult = (*), f_div = (/), f_neg = uminus,
     f_pow10 = (\<lambda>n. 10 ^ n)\<rparr>"

lemma get_fraction_exact:
  assumes "\<forall>c \<in> set q. is_digit c"
  shows "get_fraction exact_ops q fraction scale =
    (fraction + scale * of_nat (dec_number q) / 10 ^ length q, [])"
  using assms
proof (induction q arbitrary: fraction scale)
  case (Cons c q)
  have split: "dec_from n q = n * 10 ^ length q + dec_number q" for n
  proof (induction q arbitrary: n rule: rev_induct)
    case (snoc d q)
    then show ?case by (simp add: dec_number_snoc dec_from_def algebra_simps)
  qed simp
  have "dec_number (c # q) = dec_from (digit_value c) q" by (simp flip: dec_from_0)
  then have "dec_number (c # q) = digit_value c * 10 ^ length q + dec_number q" by (simp only: split)
  then show ?case
    using Cons by (simp add: exact_ops_def digit_value_def Let_def field_simps)
qed simp

lemma parse_decimal_exact:
  assumes "p \<noteq> []" and "\<forall>c \<in> set p. is_digit c" and "dec_number p \<le> 2147483647" and "\<forall>c \<in> set q. is_digit c"
  shows "parse_decimal exact_ops (p @ CHR ''.'' # q)
    = Inr (of_nat (dec_number p) + of_nat (dec_number q) / 10 ^ length q)"
proof -
  have lim: "unat (2147483647 :: u64) = 2147483647" by simp
  obtain v where v: "get_integer (p @ CHR ''.'' # q) 2147483647 = (v, CHR ''.'' # q)" "unat v = dec_number p"
    using get_integer_dot [of p 2147483647 "CHR ''.''" q] assms(2,3) lim by (auto simp: is_digit_def)
  have "hd (p @ CHR ''.'' # q) \<noteq> CHR ''-''"
    using assms(1,2) is_digit_not_minus by (cases p) auto
  then show ?thesis
    using v get_fraction_exact [OF assms(4), of 0 1]
    by (simp add: parse_decimal_def get_decimal_def) (simp add: exact_ops_def)
qed

section \<open>Properties\<close>

text \<open>
  C35: \<^verbatim>\<open>parse_unsigned\<close> at a type of at most 32 bits returns the number a string of digits
  denotes when it is within the bounds, and fails with its four errors on all other input:
  a minus sign, a character that is no digit or a value above the maximum, a value below
  the minimum. The empty string is the number 0.
\<close>

theorem parse_unsigned_spec:
  fixes mn mx :: "'w::len word"
  assumes "LENGTH('w) \<le> 32"
  shows "parse_unsigned s mn mx =
    (if s \<noteq> [] \<and> hd s = CHR ''-'' then Inl (Invalid ''Negative sign not allowed for unsigned'')
     else if \<not> (list_all is_digit s \<and> dec_number s \<le> unat mx)
     then Inl (Overflow ''Trailing characters after unsigned value'')
     else if dec_number s < unat mn then Inl (Range ''Parsed value outside allowed range'')
     else Inr (word_of_nat (dec_number s)))"
  using parse_unsigned_eq [OF assms, of s mn mx] by (simp only: list_all_iff)

theorem parse_unsigned_spec_witness:
  "parse_unsigned ''23'' 0 (- 1 :: 16 word) = Inr 23 \<and>
   parse_unsigned ''65536'' 0 (- 1 :: 16 word) = Inl (Overflow ''Trailing characters after unsigned value'')"
proof -
  have "list_all is_digit ''23'' \<and> dec_number ''23'' = 23 \<and> list_all is_digit ''65536'' \<and> dec_number ''65536'' = 65536"
    by (simp add: is_digit_def dec_number_def digit_value_def)
  moreover have "unat (- 1 :: 16 word) = 65535" by (simp add: unsigned_minus_1_eq_mask mask_eq_exp_minus_1)
  ultimately show ?thesis
    using parse_unsigned_spec [of "''23''" 0 "- 1 :: 16 word"] parse_unsigned_spec [of "''65536''" 0 "- 1 :: 16 word"]
    by simp
qed

text \<open>
  C36: \<^verbatim>\<open>parse_hex\<close> at a type of at most 32 bits drops one leading \<^verbatim>\<open>0x\<close> or \<^verbatim>\<open>$\<close>, returns the
  value of the rest when that is hexadecimal digits, no more than the type has nibbles, and
  within the bounds, and fails on all other input.
\<close>

theorem parse_hex_spec:
  fixes mn mx :: "'w::len word" and s :: string
  assumes "LENGTH('w) \<le> 32"
  shows "parse_hex s mn mx =
    (let body = snd (consume_prefix s ''0x'') in
     if \<not> (length body \<le> LENGTH('w) div 8 * 2 \<and> list_all (\<lambda>c. hex_value c \<noteq> None) body)
     then Inl (Overflow ''Hex value too large or contains invalid digits'')
     else if hex_number body < unat mn \<or> hex_number body > unat mx
     then Inl (Range ''Hex value outside allowed bounds'')
     else Inr (word_of_nat (hex_number body)))"
  using parse_hex_eq [OF assms, of s mn mx] by (simp only: Let_def list_all_iff)

theorem parse_hex_spec_witness:
  "parse_hex ''$fff0'' 0 (- 1 :: 16 word) = Inr 65520"
proof -
  have "snd (consume_prefix ''$fff0'' ''0x'') = ''fff0''"
    "list_all (\<lambda>c. hex_value c \<noteq> None) ''fff0''" "hex_number ''fff0'' = 65520"
    by (simp_all add: consume_prefix_def hex_value_def hex_number_def Let_def)
  moreover have "unat (- 1 :: 16 word) = 65535" by (simp add: unsigned_minus_1_eq_mask mask_eq_exp_minus_1)
  ultimately show ?thesis
    using parse_hex_spec [of "''$fff0''" 0 "- 1 :: 16 word"] by (simp add: Let_def)
qed

lemma get_hex_16: "get_hex s 16 = (0, s)"
  by (simp add: get_hex_def)

text \<open>
  At 64 bits \<^verbatim>\<open>parse_hex\<close> asks \<^verbatim>\<open>get_hex\<close> for sixteen digits, which that function refuses
  to read: every input with a digit in it fails, whatever the bounds.
\<close>

theorem parse_hex_64_never_reads:
  assumes "snd (consume_prefix s ''0x'') \<noteq> []"
  shows "parse_hex s mn (mx :: 64 word) = Inl (Overflow ''Hex value too large or contains invalid digits'')"
  using assms by (simp add: parse_hex_def case_prod_beta get_hex_16)

theorem parse_hex_64_never_reads_witness:
  "parse_hex ''0xff'' 0 (- 1 :: 64 word) = Inl (Overflow ''Hex value too large or contains invalid digits'')"
proof (rule parse_hex_64_never_reads)
  show "snd (consume_prefix ''0xff'' ''0x'') \<noteq> []" by code_simp
qed

text \<open>
  \<^verbatim>\<open>parse_integer\<close> at a signed type, with bounds of that type and a maximum that is not
  negative, returns the number a string of digits denotes; it never accepts a sign, so
  that a negative number cannot be parsed although the lower bound allows it.
\<close>

theorem parse_integer_spec:
  assumes "0 \<le> mx" and "mx < 2 ^ 31" and "- (2 ^ 31) \<le> mn" and "mn < 2 ^ 31"
  shows "parse_integer True 32 s mn mx =
    (if \<not> (list_all is_digit s \<and> int (dec_number s) \<le> mx)
     then Inl (Overflow ''Trailing characters after integer value'')
     else if int (dec_number s) < mn then Inl (Range ''Parsed integer outside valid range'')
     else Inr (int (dec_number s)))"
proof -
  have "signed_take_bit 31 (int n) = int n" if "int n \<le> mx" for n
    using that assms(1,2) by (simp add: signed_take_bit_int_eq_self)
  then show ?thesis
    using parse_integer_eq [of mx mn True 32 s] assms by (simp add: list_all_iff)
qed

theorem parse_integer_spec_witness:
  "parse_integer True 32 ''-5'' (- (2 ^ 31)) (2 ^ 31 - 1) = Inl (Overflow ''Trailing characters after integer value'')"
proof -
  have "\<not> list_all is_digit ''-5''" by code_simp
  then show ?thesis using parse_integer_spec [of "2 ^ 31 - 1" "- (2 ^ 31)" "''-5''"] by simp
qed

text \<open>
  \<^verbatim>\<open>parse_size\<close> of a numeral and a unit is the product modulo \<open>2 ^ 64\<close>, but for gigabytes
  it is cut to 32 bits, so that four gigabytes are 0.
\<close>

theorem parse_size_spec:
  assumes "list_all is_digit p" and "\<not> is_digit u" and "code_of u < 128" and "u \<noteq> CHR ''-''"
  shows "parse_size (p @ [u]) =
    (case size_scale (tolower u) of
       Some scale \<Rightarrow> Inr (word_of_nat (dec_number p) * scale)
     | None \<Rightarrow>
         if tolower u = CHR ''g'' then Inr (word_of_nat (dec_number p * 2 ^ 30 mod 2 ^ 32))
         else Inl (Invalid ''Trailing characters after duration''))"
  using parse_size_unit [OF _ assms(2-4), of p] assms(1) by (simp only: list_all_iff)

theorem parse_size_spec_witness: "parse_size ''4g'' = Inr 0 \<and> parse_size ''4M'' = Inr 4194304"
proof -
  have "tolower CHR ''g'' = CHR ''g''" "tolower CHR ''M'' = CHR ''m''"
    by (rule iffD1 [OF code_of_inj], simp add: code_tolower)+
  then show ?thesis
    using parse_size_spec [of "''4''" "CHR ''g''"] parse_size_spec [of "''4''" "CHR ''M''"]
    by (simp add: size_scale_def is_digit_def dec_number_def digit_value_def)
qed

text \<open>
  C38: \<^verbatim>\<open>parse_duration\<close> of a numeral below \<open>2 ^ 32\<close> and a unit of one letter is the number of
  seconds, or of milliseconds, modulo \<open>2 ^ 32\<close>: a duration that does not fit is returned cut, not
  refused. (Greater numerals and the unit \<open>''ms''\<close> are not covered by this statement.)
\<close>

theorem parse_duration_spec:
  assumes "list_all is_digit p" and "dec_number p < 2 ^ 32"
    and "\<not> is_digit u" and "code_of u < 128" and "u \<noteq> CHR ''-''"
  shows "parse_duration (p @ [u]) ms =
    (case duration_scale ms (tolower u) of
       Some scale \<Rightarrow> Inr (word_of_nat (dec_number p * scale))
     | None \<Rightarrow> Inl (Invalid ''Trailing characters after duration''))"
  using parse_duration_unit [OF _ assms(2-5)] assms(1) by (simp only: list_all_iff)

theorem parse_duration_spec_witness:
  "parse_duration ''50d'' True = Inr 25032704 \<and> (50 * 86400000 :: nat) \<noteq> 25032704"
proof -
  have "tolower CHR ''d'' = CHR ''d''"
    by (rule iffD1 [OF code_of_inj]) (simp add: code_tolower)
  then show ?thesis using parse_duration_spec [of "''50''" "CHR ''d''" True] 
    by (simp add: duration_scale_def is_digit_def dec_number_def digit_value_def)
qed

text \<open>
  In exact arithmetic \<^verbatim>\<open>parse_decimal\<close> returns the number that the digits before and after
  the point denote.
\<close>

theorem parse_decimal_spec:
  assumes "p \<noteq> []" and "list_all is_digit p" and "dec_number p \<le> 2147483647" and "list_all is_digit q"
  shows "parse_decimal exact_ops (p @ CHR ''.'' # q)
    = Inr (of_nat (dec_number p) + of_nat (dec_number q) / 10 ^ length q)"
  using parse_decimal_exact [OF assms(1) _ assms(3), of q] assms(2,4) by (simp only: list_all_iff)

theorem parse_decimal_spec_witness: "parse_decimal exact_ops ''3.25'' = Inr (13 / 4)"
proof -
  have "list_all is_digit ''3'' \<and> dec_number ''3'' = 3 \<and> list_all is_digit ''25'' \<and> dec_number ''25'' = 25"
    by code_simp
  then show ?thesis using parse_decimal_spec [of "''3''" "''25''"] by simp
qed

end
