(* ===== verification/Pipeline.thy ===== *)
theory Pipeline
  imports Fifo_Contract "HOL-Library.Multiset"
begin

text \<open>
  \<^verbatim>\<open>system::pipeline\<close> of \<^verbatim>\<open>src/src/pipeline.hpp\<close> and the classes derived from it, each
  call as one step under the lock: a ring of \<open>S\<close> slots with head, tail and count, and the
  flag \<^verbatim>\<open>closed_\<close>. A call reports what it did to the outside as a list of events; a call
  that would block reports that it waits. \<open>Pipeline_Threads\<close> runs these calls in threads.
\<close>

section \<open>State\<close>

text \<open>
  The kind of pipeline decides what the virtual \<^verbatim>\<open>full\<close> does. The configuration says
  whether \<open>T\<close> is a pointer (whose objects \<^verbatim>\<open>clear_item\<close> deletes) and which value \<^verbatim>\<open>T{}\<close> is.
  Indices and count are \<^verbatim>\<open>unsigned\<close>: they stay below or at \<open>S\<close>.
\<close>

datatype kind = Waiting | Dropping | Throwing

record 'a config =
  cf_kind :: kind
  cf_pointer :: bool
  cf_zero :: 'a

record 'a pipe =
  pp_data :: "'a list"
  pp_head :: nat
  pp_tail :: nat
  pp_count :: nat
  pp_closed :: bool

datatype 'a event =
    Input_one
  | Output_one
  | Input_all
  | Output_all
  | Notify bool
  | Hook_drop 'a
  | Delete 'a

datatype 'r outcome = Returned 'r | Waits | Threw fault

definition pp_new :: "'a config \<Rightarrow> nat \<Rightarrow> 'a pipe" where
  "pp_new c S =
     \<lparr>pp_data = replicate S (cf_zero c), pp_head = 0, pp_tail = 0, pp_count = 0, pp_closed = False\<rparr>"

definition pp_capacity :: "'a pipe \<Rightarrow> nat" where
  "pp_capacity p = length (pp_data p)"

definition pp_bool :: "'a pipe \<Rightarrow> bool" where
  "pp_bool p = (\<not> pp_closed p)"

definition pp_not :: "'a pipe \<Rightarrow> bool" where
  "pp_not p = pp_closed p"

definition pp_is_open :: "'a pipe \<Rightarrow> bool" where
  "pp_is_open p = (\<not> pp_closed p)"

definition pp_empty :: "'a pipe \<Rightarrow> bool" where
  "pp_empty p = (pp_count p = 0)"

definition pp_size :: "'a pipe \<Rightarrow> nat" where
  "pp_size p = pp_count p"

section \<open>Items\<close>

definition clear_item :: "'a config \<Rightarrow> nat \<Rightarrow> bool \<Rightarrow> 'a pipe \<Rightarrow> 'a pipe \<times> 'a event list" where
  "clear_item c i destroy p =
     (p\<lparr>pp_data := (pp_data p)[i := cf_zero c]\<rparr>,
      if cf_pointer c \<and> destroy then [Delete (pp_data p ! i)] else [])"

definition drop_head :: "'a config \<Rightarrow> bool \<Rightarrow> 'a pipe \<Rightarrow> bool \<times> 'a pipe \<times> 'a event list" where
  "drop_head c notify p =
     (if pp_count p = 0 then (False, p, [])
      else let (p1, evs) = clear_item c (pp_head p) True p;
               p2 = p1\<lparr>pp_head := (pp_head p1 + 1) mod pp_capacity p1, pp_count := pp_count p1 - 1\<rparr>
           in (True, p2, evs @ (if notify then [Input_one] else [])))"

section \<open>Operations\<close>

text \<open>The part of \<^verbatim>\<open>push\<close> inside its loop, when there is room.\<close>

definition push_slot :: "'a \<Rightarrow> 'a pipe \<Rightarrow> 'a pipe \<times> 'a event list" where
  "push_slot x p =
     (p\<lparr>pp_data := (pp_data p)[pp_tail p := x],
        pp_tail := (pp_tail p + 1) mod pp_capacity p,
        pp_count := pp_count p + 1\<rparr>,
      if pp_count p = 0 then [Output_one, Notify True] else [])"

text \<open>
  The loop of \<^verbatim>\<open>push\<close>. \<^verbatim>\<open>full\<close> waits in the base class, throws in \<^verbatim>\<open>throw_pipeline\<close>, and
  in \<^verbatim>\<open>drop_pipeline\<close> drops the oldest item, after which the loop goes round again.
\<close>

partial_function (option) push_loop ::
    "'a config \<Rightarrow> 'a \<Rightarrow> 'a pipe \<Rightarrow> 'a event list \<Rightarrow> (bool outcome \<times> 'a pipe \<times> 'a event list) option" where
  "push_loop c x p evs =
     (if pp_closed p then Some (Returned False, p, evs)
      else if pp_count p < pp_capacity p
      then (let (p', more) = push_slot x p in Some (Returned True, p', evs @ more))
      else case cf_kind c of
        Waiting \<Rightarrow> Some (Waits, p, evs)
      | Throwing \<Rightarrow> Some (Threw (Invalid ''Pipeline ful''), p, evs)
      | Dropping \<Rightarrow>
          (let (_, p', more) = drop_head c False p
           in push_loop c x p' (evs @ [Hook_drop (pp_data p ! pp_head p)] @ more)))"

definition pp_push ::
    "'a config \<Rightarrow> 'a \<Rightarrow> 'a pipe \<Rightarrow> (bool outcome \<times> 'a pipe \<times> 'a event list) option" where
  "pp_push c x p = push_loop c x p []"

text \<open>\<^verbatim>\<open>push(T&&)\<close> also leaves the argument moved from where it stored it.\<close>

definition pp_push_move ::
    "('a \<Rightarrow> 'a) \<Rightarrow> 'a config \<Rightarrow> 'a \<Rightarrow> 'a pipe \<Rightarrow> ((bool outcome \<times> 'a pipe \<times> 'a event list) \<times> 'a) option" where
  "pp_push_move moved c x p =
     map_option (\<lambda>r. (r, if fst r = Returned True then moved x else x)) (push_loop c x p [])"

definition pp_pull :: "'a config \<Rightarrow> 'a pipe \<Rightarrow> 'a option outcome \<times> 'a pipe \<times> 'a event list" where
  "pp_pull c p =
     (if pp_closed p then (Returned None, p, [])
      else if pp_count p > 0
      then let out = pp_data p ! pp_head p;
               (p1, evs) = clear_item c (pp_head p) False p;
               p2 = p1\<lparr>pp_head := (pp_head p1 + 1) mod pp_capacity p1, pp_count := pp_count p1 - 1\<rparr>
           in (Returned (Some out), p2,
               evs @ (if pp_count p1 = pp_capacity p1 then [Input_one] else [])
                   @ (if pp_count p2 = 0 then [Notify False] else []))
      else (Waits, p, []))"

definition pp_peek :: "('a \<Rightarrow> 'r) \<Rightarrow> 'a pipe \<Rightarrow> 'r option" where
  "pp_peek func p = (if pp_count p = 0 then None else Some (func (pp_data p ! pp_head p)))"

definition pp_drop :: "'a config \<Rightarrow> 'a pipe \<Rightarrow> bool \<times> 'a pipe \<times> 'a event list" where
  "pp_drop c p = drop_head c (pp_count p = pp_capacity p) p"

definition pp_drop_if :: "'a config \<Rightarrow> 'a pipe \<Rightarrow> bool \<times> 'a pipe \<times> 'a event list" where
  "pp_drop_if c p = (if pp_count p = pp_capacity p then drop_head c True p else (False, p, []))"

lemma drop_head_count: "pp_count p \<noteq> 0 \<Longrightarrow> pp_count (fst (snd (drop_head c b p))) < pp_count p"
  by (simp add: drop_head_def clear_item_def)

function clear_loop :: "'a config \<Rightarrow> 'a pipe \<Rightarrow> 'a event list \<Rightarrow> 'a pipe \<times> 'a event list" where
  "clear_loop c p evs =
     (if pp_count p \<noteq> 0
      then let r = drop_head c False p in
        if fst r then clear_loop c (fst (snd r)) (evs @ snd (snd r)) else (fst (snd r), evs @ snd (snd r))
      else (p, evs))"
  by pat_completeness auto
termination
  by (relation "measure (\<lambda>(_, p, _). pp_count p)") (auto simp: drop_head_count)

declare clear_loop.simps [simp del]

definition pp_clear :: "'a config \<Rightarrow> 'a pipe \<Rightarrow> 'a pipe \<times> 'a event list" where
  "pp_clear c p =
     (let prior = pp_count p; (p', evs) = clear_loop c p [] in
      (p', evs @ (if prior > pp_count p' \<and> \<not> pp_closed p' then [Input_one] else [])))"

definition pp_close :: "'a config \<Rightarrow> 'a pipe \<Rightarrow> 'a pipe \<times> 'a event list" where
  "pp_close c p =
     (if pp_closed p then (p, [])
      else let (p', evs) = pp_clear c (p\<lparr>pp_closed := True\<rparr>) in (p', [Output_all, Input_all] @ evs))"

definition pp_destroy :: "'a config \<Rightarrow> 'a pipe \<Rightarrow> 'a event list" where
  "pp_destroy c p = snd (pp_close c p)"

definition or_throw :: "'r outcome \<Rightarrow> ('r \<Rightarrow> bool) \<Rightarrow> 'r outcome" where
  "or_throw r ok =
     (case r of Returned v \<Rightarrow> if ok v then Returned v else Threw (Invalid ''Pipeline closed'')
      | other \<Rightarrow> other)"

definition pp_lshift ::
    "'a config \<Rightarrow> 'a \<Rightarrow> 'a pipe \<Rightarrow> (bool outcome \<times> 'a pipe \<times> 'a event list) option" where
  "pp_lshift c x p = map_option (\<lambda>(r, s). (or_throw r id, s)) (pp_push c x p)"

definition pp_rshift :: "'a config \<Rightarrow> 'a pipe \<Rightarrow> 'a option outcome \<times> 'a pipe \<times> 'a event list" where
  "pp_rshift c p = (let (r, s) = pp_pull c p in (or_throw r (\<lambda>v. v \<noteq> None), s))"

section \<open>The ring invariant\<close>

text \<open>
  The tail is \<open>count\<close> slots after the head, and the slots that hold no item hold \<open>T{}\<close>.
\<close>

definition pp_wf :: "'a config \<Rightarrow> 'a pipe \<Rightarrow> bool" where
  "pp_wf c p =
     (pp_head p < pp_capacity p \<and> pp_count p \<le> pp_capacity p \<and>
      pp_tail p = (pp_head p + pp_count p) mod pp_capacity p \<and>
      (\<forall>k < pp_capacity p. pp_count p \<le> k \<longrightarrow>
         pp_data p ! ((pp_head p + k) mod pp_capacity p) = cf_zero c))"

definition pp_items :: "'a pipe \<Rightarrow> 'a list" where
  "pp_items p = window (pp_data p) (pp_head p) (pp_count p)"

lemma length_pp_items [simp]: "length (pp_items p) = pp_count p"
  by (simp add: pp_items_def)

lemma pp_items_empty: "pp_items p = [] \<longleftrightarrow> pp_count p = 0"
  by (metis length_pp_items length_0_conv)

lemma pp_items_Cons:
  assumes "pp_wf c p" and "pp_count p = Suc n"
  shows "pp_items p = pp_data p ! pp_head p # window (pp_data p) (Suc (pp_head p) mod pp_capacity p) n"
proof -
  have "pp_data p \<noteq> []" using assms(1) by (auto simp: pp_wf_def pp_capacity_def)
  then show ?thesis
    using assms by (simp add: pp_items_def window_Cons pp_wf_def pp_capacity_def)
qed

lemma pp_wf_new: "0 < S \<Longrightarrow> pp_wf c (pp_new c S)"
  by (simp add: pp_wf_def pp_new_def pp_capacity_def)

lemma pp_items_new [simp]: "pp_items (pp_new c S) = []"
  by (simp add: pp_items_def pp_new_def)

lemma push_slot_items:
  assumes "pp_wf c p" and "pp_count p < pp_capacity p"
  shows "pp_items (fst (push_slot x p)) = pp_items p @ [x]"
  using assms window_push [of "pp_count p" "pp_data p" "pp_head p" x]
  by (simp add: push_slot_def pp_items_def pp_wf_def pp_capacity_def)

lemma push_slot_wf:
  assumes "pp_wf c p" and "pp_count p < pp_capacity p"
  shows "pp_wf c (fst (push_slot x p))"
proof -
  define S where "S = pp_capacity p"
  have S: "length (pp_data p) = S" by (simp add: S_def pp_capacity_def)
  have lt: "(pp_head p + pp_count p) mod S < S" using assms(2) by (intro mod_less_divisor) (simp add: S_def)
  have "(pp_data p)[(pp_head p + pp_count p) mod S := x] ! ((pp_head p + k) mod S) = cf_zero c"
    if k: "k < S" "Suc (pp_count p) \<le> k" for k
  proof -
    have "(pp_head p + pp_count p) mod S \<noteq> (pp_head p + k) mod S"
      using ring_offset_inj [of "pp_head p" "pp_count p" S k] k by auto
    then show ?thesis using assms(1) k by (simp add: pp_wf_def flip: S_def)
  qed
  then show ?thesis
    using assms unfolding pp_wf_def push_slot_def
    by (simp add: pp_capacity_def S mod_Suc_eq flip: S_def)
qed

text \<open>Taking the head out, as \<^verbatim>\<open>pull\<close> and \<^verbatim>\<open>drop_head\<close> do.\<close>

definition behead :: "'a config \<Rightarrow> 'a pipe \<Rightarrow> 'a pipe" where
  "behead c p = p\<lparr>pp_data := (pp_data p)[pp_head p := cf_zero c],
     pp_head := (pp_head p + 1) mod pp_capacity p, pp_count := pp_count p - 1\<rparr>"

lemma behead_simps [simp]:
  "pp_capacity (behead c p) = pp_capacity p" "pp_closed (behead c p) = pp_closed p"
  "pp_count (behead c p) = pp_count p - 1"
  by (simp_all add: behead_def pp_capacity_def)

lemma behead_items:
  assumes "pp_wf c p" and "0 < pp_count p"
  shows "pp_items p = pp_data p ! pp_head p # pp_items (behead c p)"
proof -
  obtain n where n: "pp_count p = Suc n" using assms(2) by (cases "pp_count p") auto
  have "window ((pp_data p)[pp_head p := cf_zero c]) (Suc (pp_head p) mod pp_capacity p) n
      = window (pp_data p) (Suc (pp_head p) mod pp_capacity p) n"
    using window_pop_update [of n "pp_data p" "pp_head p" "cf_zero c"] assms n
    by (simp add: pp_wf_def pp_capacity_def)
  then show ?thesis
    using pp_items_Cons [OF assms(1) n] n by (simp add: pp_items_def behead_def)
qed

lemma behead_wf:
  assumes "pp_wf c p" and "0 < pp_count p"
  shows "pp_wf c (behead c p)"
proof -
  define S where "S = pp_capacity p"
  have S: "length (pp_data p) = S" by (simp add: S_def pp_capacity_def)
  obtain n where n: "pp_count p = Suc n" using assms(2) by (cases "pp_count p") auto
  have h: "pp_head p < S" and nS: "Suc n \<le> S" using assms(1) n by (simp_all add: pp_wf_def S_def)
  have shift: "(Suc (pp_head p) mod S + k) mod S = (pp_head p + Suc k) mod S" for k
    by (simp add: mod_add_left_eq)
  have "(pp_data p)[pp_head p := cf_zero c] ! ((Suc (pp_head p) mod S + k) mod S) = cf_zero c"
    if k: "k < S" "n \<le> k" for k
  proof (cases "Suc k < S")
    case True
    then show ?thesis
      using assms(1) n k h S by (cases "pp_head p = (pp_head p + Suc k) mod S")
        (auto simp: shift pp_wf_def simp flip: S_def)
  next
    case False
    then have "Suc k = S" using k by simp
    then have "(pp_head p + Suc k) mod S = pp_head p" using h by simp
    then show ?thesis using h S by (simp only: shift) simp
  qed
  moreover have "(Suc (pp_head p) mod S + n) mod S = (pp_head p + Suc n) mod S" by (rule shift)
  ultimately show ?thesis
    using assms(1) n h nS unfolding pp_wf_def behead_def
    by (simp add: pp_capacity_def S flip: S_def)
qed

lemma drop_head_eq:
  "drop_head c b p =
     (if pp_count p = 0 then (False, p, [])
      else (True, behead c p,
        (if cf_pointer c then [Delete (pp_data p ! pp_head p)] else []) @ (if b then [Input_one] else [])))"
  by (simp add: drop_head_def clear_item_def behead_def pp_capacity_def Let_def)

lemma pp_pull_eq:
  "pp_pull c p =
     (if pp_closed p then (Returned None, p, [])
      else if pp_count p > 0
      then (Returned (Some (pp_data p ! pp_head p)), behead c p,
        (if pp_count p = pp_capacity p then [Input_one] else []) @
        (if pp_count p = 1 then [Notify False] else []))
      else (Waits, p, []))"
  by (auto simp: pp_pull_def clear_item_def behead_def pp_capacity_def Let_def)

section \<open>What each call does\<close>

lemma pp_wf_capacity: "pp_wf c p \<Longrightarrow> 0 < pp_capacity p"
  by (auto simp: pp_wf_def)

lemma push_slot_simps [simp]:
  "pp_capacity (fst (push_slot x p)) = pp_capacity p" "pp_closed (fst (push_slot x p)) = pp_closed p"
  "pp_count (fst (push_slot x p)) = pp_count p + 1"
  by (simp_all add: push_slot_def pp_capacity_def)

lemma pipe_push_closed: "pp_closed p \<Longrightarrow> push_loop c x p evs = Some (Returned False, p, evs)"
  by (subst push_loop.simps) simp

lemma pipe_push_room:
  "\<not> pp_closed p \<Longrightarrow> pp_count p < pp_capacity p \<Longrightarrow>
   push_loop c x p evs = Some (Returned True, fst (push_slot x p), evs @ snd (push_slot x p))"
  by (subst push_loop.simps) (simp add: case_prod_beta)

lemma pipe_push_full:
  assumes "\<not> pp_closed p" and "pp_count p = pp_capacity p" and "0 < pp_capacity p"
  shows "push_loop c x p evs =
    (case cf_kind c of
       Waiting \<Rightarrow> Some (Waits, p, evs)
     | Throwing \<Rightarrow> Some (Threw (Invalid ''Pipeline ful''), p, evs)
     | Dropping \<Rightarrow> Some (Returned True, fst (push_slot x (behead c p)),
         evs @ Hook_drop (pp_data p ! pp_head p)
           # (if cf_pointer c then [Delete (pp_data p ! pp_head p)] else [])
           @ snd (push_slot x (behead c p))))"
  using assms
  by (subst push_loop.simps) (simp add: drop_head_eq pipe_push_room split: kind.split)

lemma pp_count_cases:
  assumes "pp_wf c p"
  obtains "pp_count p < pp_capacity p" | "pp_count p = pp_capacity p"
proof -
  have "pp_count p \<le> pp_capacity p" using assms by (simp add: pp_wf_def)
  then show thesis using that by linarith
qed

text \<open>Every push comes to an end.\<close>

lemma pp_push_total:
  assumes "pp_wf c p"
  shows "pp_push c x p \<noteq> None"
proof (cases "pp_closed p")
  case False
  show ?thesis
    using pipe_push_full [OF False _ pp_wf_capacity [OF assms]] pipe_push_room [OF False]
    by (rule_tac pp_count_cases [OF assms]) (simp_all add: pp_push_def split: kind.split)
qed (simp add: pp_push_def pipe_push_closed)

lemma clear_loop_eq:
  assumes "pp_wf c p"
  shows "\<exists>p'. clear_loop c p evs = (p', evs @ (if cf_pointer c then map Delete (pp_items p) else []))
    \<and> pp_wf c p' \<and> pp_count p' = 0 \<and> pp_closed p' = pp_closed p \<and> pp_capacity p' = pp_capacity p"
  using assms
proof (induction "pp_count p" arbitrary: p evs)
  case 0
  then show ?case by (subst clear_loop.simps) (simp add: pp_items_def)
next
  case (Suc n)
  have pos: "0 < pp_count p" using Suc(2) by simp
  define more where "more = (if cf_pointer c then [Delete (pp_data p ! pp_head p)] else [])"
  obtain p' where p': "clear_loop c (behead c p) (evs @ more)
      = (p', (evs @ more) @ (if cf_pointer c then map Delete (pp_items (behead c p)) else []))"
      "pp_wf c p'" "pp_count p' = 0" "pp_closed p' = pp_closed p" "pp_capacity p' = pp_capacity p"
  proof -
    have "n = pp_count (behead c p)" using Suc(2) by simp
    from Suc(1) [OF this behead_wf [OF Suc(3) pos], of "evs @ more"] show thesis
      using that by (simp only: behead_simps) blast
  qed
  have "clear_loop c p evs = clear_loop c (behead c p) (evs @ more)"
    using pos by (subst clear_loop.simps) (simp add: drop_head_eq more_def)
  then show ?case using p' behead_items [OF Suc(3) pos] by (simp add: more_def)
qed

lemma pp_clear_eq:
  assumes "pp_wf c p"
  shows "\<exists>p'. pp_clear c p = (p', (if cf_pointer c then map Delete (pp_items p) else [])
      @ (if 0 < pp_count p \<and> \<not> pp_closed p then [Input_one] else []))
    \<and> pp_wf c p' \<and> pp_count p' = 0 \<and> pp_closed p' = pp_closed p \<and> pp_capacity p' = pp_capacity p"
  using clear_loop_eq [OF assms, of "[]"] by (auto simp: pp_clear_def)

lemma close_wf: "pp_wf c p \<Longrightarrow> pp_wf c (p\<lparr>pp_closed := b\<rparr>)"
  by (simp add: pp_wf_def pp_capacity_def)

lemma close_items [simp]: "pp_items (p\<lparr>pp_closed := b\<rparr>) = pp_items p"
  by (simp add: pp_items_def)

lemma close_capacity [simp]: "pp_capacity (p\<lparr>pp_closed := b\<rparr>) = pp_capacity p"
  by (simp add: pp_capacity_def)

lemma pp_close_eq:
  assumes "pp_wf c p" and "\<not> pp_closed p"
  shows "\<exists>p'. pp_close c p = (p', [Output_all, Input_all] @ (if cf_pointer c then map Delete (pp_items p) else []))
    \<and> pp_wf c p' \<and> pp_count p' = 0 \<and> pp_closed p' \<and> pp_capacity p' = pp_capacity p"
  using pp_clear_eq [OF close_wf [OF assms(1)], of True] assms(2) by (auto simp: pp_close_def)

section \<open>Refinement to a bounded queue\<close>

text \<open>
  The abstract queue: its items from the oldest on, and whether it is closed. A call gives
  its outcome, the new queue, and the items whose objects were deleted.
\<close>

datatype 'a call = Push 'a | Pull | Drop | Drop_if | Clear | Close

datatype 'a answer = Pushed "bool outcome" | Pulled "'a option outcome" | Did bool | Done

fun queue_call :: "'a config \<Rightarrow> nat \<Rightarrow> 'a call \<Rightarrow> 'a list \<times> bool \<Rightarrow> 'a answer \<times> ('a list \<times> bool) \<times> 'a list" where
  "queue_call c S (Push x) (q, closed) =
     (if closed then (Pushed (Returned False), (q, closed), [])
      else if length q < S then (Pushed (Returned True), (q @ [x], closed), [])
      else case cf_kind c of
        Waiting \<Rightarrow> (Pushed Waits, (q, closed), [])
      | Throwing \<Rightarrow> (Pushed (Threw (Invalid ''Pipeline ful'')), (q, closed), [])
      | Dropping \<Rightarrow> (Pushed (Returned True), (tl q @ [x], closed), take 1 q))"
| "queue_call c S Pull (q, closed) =
     (if closed then (Pulled (Returned None), (q, closed), [])
      else case q of
        [] \<Rightarrow> (Pulled Waits, (q, closed), [])
      | x # xs \<Rightarrow> (Pulled (Returned (Some x)), (xs, closed), []))"
| "queue_call c S Drop (q, closed) = (Did (q \<noteq> []), (tl q, closed), take 1 q)"
| "queue_call c S Drop_if (q, closed) =
     (if length q = S then (Did True, (tl q, closed), take 1 q) else (Did False, (q, closed), []))"
| "queue_call c S Clear (q, closed) = (Done, ([], closed), q)"
| "queue_call c S Close (q, closed) = (Done, (if closed then q else [], True), if closed then [] else q)"

text \<open>The pipeline's calls, the same way; \<open>None\<close> if a call does not come to an end.\<close>

fun pipe_call :: "'a config \<Rightarrow> 'a call \<Rightarrow> 'a pipe \<Rightarrow> ('a answer \<times> 'a pipe \<times> 'a event list) option" where
  "pipe_call c (Push x) p = map_option (\<lambda>(r, s). (Pushed r, s)) (pp_push c x p)"
| "pipe_call c Pull p = (let (r, s) = pp_pull c p in Some (Pulled r, s))"
| "pipe_call c Drop p = (let (r, s) = pp_drop c p in Some (Did r, s))"
| "pipe_call c Drop_if p = (let (r, s) = pp_drop_if c p in Some (Did r, s))"
| "pipe_call c Clear p = Some (Done, pp_clear c p)"
| "pipe_call c Close p = Some (Done, pp_close c p)"

fun deleted :: "'a event list \<Rightarrow> 'a list" where
  "deleted [] = []"
| "deleted (Delete x # evs) = x # deleted evs"
| "deleted (_ # evs) = deleted evs"

definition pipe_abs :: "'a pipe \<Rightarrow> 'a list \<times> bool" where
  "pipe_abs p = (pp_items p, pp_closed p)"

lemma deleted_append [simp]: "deleted (u @ v) = deleted u @ deleted v"
  by (induction u rule: deleted.induct) auto

lemma deleted_map [simp]: "deleted (map Delete xs) = xs"
  by (induction xs) auto

lemma deleted_push_slot [simp]: "deleted (snd (push_slot x p)) = []"
  by (simp add: push_slot_def)

definition refines :: "'a config \<Rightarrow> 'a call \<Rightarrow> 'a pipe \<Rightarrow> bool" where
  "refines c call p =
     (case pipe_call c call p of
        None \<Rightarrow> False
      | Some (r, p', evs) \<Rightarrow>
          (case queue_call c (pp_capacity p) call (pipe_abs p) of (r', q', del) \<Rightarrow>
             r = r' \<and> pipe_abs p' = q' \<and> deleted evs = (if cf_pointer c then del else [])
             \<and> pp_wf c p' \<and> pp_capacity p' = pp_capacity p))"

lemma refines_push:
  assumes wf: "pp_wf c p"
  shows "refines c (Push x) p"
proof (cases "pp_closed p")
  case True
  then show ?thesis using wf by (simp add: refines_def pp_push_def pipe_push_closed pipe_abs_def)
next
  case opened: False
  show ?thesis
  proof (rule pp_count_cases [OF wf])
    assume "pp_count p < pp_capacity p"
    then show ?thesis using wf opened
      by (simp add: refines_def pp_push_def pipe_push_room pipe_abs_def push_slot_items push_slot_wf case_prod_beta)
  next
    assume full: "pp_count p = pp_capacity p"
    have pos: "0 < pp_count p" using pp_wf_capacity [OF wf] full by simp
    have room: "pp_count (behead c p) < pp_capacity (behead c p)" using pos full by simp
    note b = behead_wf [OF wf pos] behead_items [OF wf pos]
    show ?thesis
      using wf opened full pos b push_slot_items [OF b(1) room] push_slot_wf [OF b(1) room]
      by (simp add: refines_def pp_push_def pipe_push_full pipe_abs_def split: kind.split)
  qed
qed

lemma refines_pull:
  assumes wf: "pp_wf c p"
  shows "refines c Pull p"
proof (cases "pp_count p = 0")
  case True
  then show ?thesis
    using wf by (simp add: refines_def pp_pull_eq pipe_abs_def pp_items_empty [THEN iffD2])
next
  case False
  then show ?thesis
    using wf behead_wf [OF wf] behead_items [OF wf]
    by (simp add: refines_def pp_pull_eq pipe_abs_def)
qed

lemma refines_drop:
  assumes wf: "pp_wf c p"
  shows "refines c Drop p" and "refines c Drop_if p"
  using wf behead_wf [OF wf] behead_items [OF wf] pp_items_empty [of p] pp_wf_capacity [OF wf]
  by (cases "pp_count p = 0";
      simp add: refines_def pp_drop_def pp_drop_if_def drop_head_eq pipe_abs_def)+

lemma refines_clear:
  assumes wf: "pp_wf c p"
  shows "refines c Clear p" and "refines c Close p"
  using pp_clear_eq [OF wf] pp_close_eq [OF wf] wf
  by (auto simp: refines_def pipe_abs_def pp_items_empty pp_close_def)

lemma refines_all: "pp_wf c p \<Longrightarrow> refines c call p"
  by (cases call) (simp_all add: refines_push refines_pull refines_drop refines_clear)

section \<open>What goes in comes out\<close>

definition pipe_state :: "'a config \<Rightarrow> 'a call \<Rightarrow> 'a pipe \<Rightarrow> 'a pipe" where
  "pipe_state c call p = (case pipe_call c call p of Some (_, p', _) \<Rightarrow> p' | None \<Rightarrow> p)"

fun pipe_added :: "'a config \<Rightarrow> 'a call \<Rightarrow> 'a pipe \<Rightarrow> 'a list" where
  "pipe_added c (Push x) p =
     (case pp_push c x p of Some (Returned True, _) \<Rightarrow> [x] | _ \<Rightarrow> [])"
| "pipe_added c _ p = []"

fun hooked :: "'a event list \<Rightarrow> 'a list" where
  "hooked [] = []"
| "hooked (Hook_drop x # evs) = x # hooked evs"
| "hooked (_ # evs) = hooked evs"

text \<open>What a pull returned, what a push dropped, and what the other calls throw away.\<close>

fun pipe_removed :: "'a config \<Rightarrow> 'a call \<Rightarrow> 'a pipe \<Rightarrow> 'a list" where
  "pipe_removed c (Push x) p = (case pp_push c x p of Some (_, _, evs) \<Rightarrow> hooked evs | None \<Rightarrow> [])"
| "pipe_removed c Pull p = (case fst (pp_pull c p) of Returned (Some x) \<Rightarrow> [x] | _ \<Rightarrow> [])"
| "pipe_removed c Drop p = (if fst (pp_drop c p) then take 1 (pp_items p) else [])"
| "pipe_removed c Drop_if p = (if fst (pp_drop_if c p) then take 1 (pp_items p) else [])"
| "pipe_removed c Clear p = pp_items p"
| "pipe_removed c Close p = (if pp_closed p then [] else pp_items p)"

lemma refined:
  assumes "pp_wf c p"
  obtains r p' evs q' del where "pipe_call c call p = Some (r, p', evs)"
    "queue_call c (pp_capacity p) call (pipe_abs p) = (r, q', del)" "pipe_abs p' = q'"
    "deleted evs = (if cf_pointer c then del else [])" "pp_wf c p'" "pp_capacity p' = pp_capacity p"
  using refines_all [OF assms, of call]
  by (auto simp: refines_def split: option.splits prod.splits)

lemma pipe_state_wf: "pp_wf c p \<Longrightarrow> pp_wf c (pipe_state c call p)"
  and pipe_state_capacity: "pp_wf c p \<Longrightarrow> pp_capacity (pipe_state c call p) = pp_capacity p"
  by (erule refined [of c p call]; simp add: pipe_state_def)+

lemma hooked_append [simp]: "hooked (u @ v) = hooked u @ hooked v"
  by (induction u rule: hooked.induct) auto

lemma hooked_push_slot [simp]: "hooked (snd (push_slot x p)) = []"
  by (simp add: push_slot_def)

lemma hooked_deletes [simp]: "hooked (if b then [Delete x] else []) = []"
  by simp

lemma push_conserves:
  assumes wf: "pp_wf c p"
  shows "pp_items p @ pipe_added c (Push x) p = pipe_removed c (Push x) p @ pp_items (pipe_state c (Push x) p)"
proof (cases "pp_closed p")
  case True
  then show ?thesis by (simp add: pipe_state_def pp_push_def pipe_push_closed)
next
  case opened: False
  show ?thesis
  proof (rule pp_count_cases [OF wf])
    assume room: "pp_count p < pp_capacity p"
    then show ?thesis
      using opened push_slot_items [OF wf room, of x]
      by (simp add: pipe_state_def pp_push_def pipe_push_room case_prod_beta)
  next
    assume full: "pp_count p = pp_capacity p"
    have pos: "0 < pp_count p" using pp_wf_capacity [OF wf] full by simp
    have room: "pp_count (behead c p) < pp_capacity (behead c p)" using pos full by simp
    show ?thesis
      using opened full pos behead_items [OF wf pos] push_slot_items [OF behead_wf [OF wf pos] room, of x]
      by (simp add: pipe_state_def pp_push_def pipe_push_full case_prod_beta split: kind.split)
  qed
qed

lemma call_conserves:
  assumes wf: "pp_wf c p"
  shows "pp_items p @ pipe_added c call p = pipe_removed c call p @ pp_items (pipe_state c call p)"
proof (cases call)
  case Pull
  then show ?thesis
    using behead_items [OF wf] by (simp add: pipe_state_def pp_pull_eq)
next
  case Drop
  then show ?thesis
    using behead_items [OF wf] pp_items_empty [of p]
    by (cases "pp_count p = 0") (simp_all add: pipe_state_def pp_drop_def drop_head_eq)
next
  case Drop_if
  then show ?thesis
    using behead_items [OF wf] pp_wf_capacity [OF wf]
    by (simp add: pipe_state_def pp_drop_if_def drop_head_eq)
next
  case Clear
  then show ?thesis using pp_clear_eq [OF wf] by (auto simp: pipe_state_def pp_items_empty)
next
  case Close
  then show ?thesis using pp_close_eq [OF wf] by (auto simp: pipe_state_def pp_items_empty pp_close_def)
next
  case (Push x)
  then show ?thesis using push_conserves [OF wf, of x] by (simp only:)
qed

lemma count_capacity: "pp_wf c p \<Longrightarrow> pp_count p \<le> pp_capacity p"
  by (simp add: pp_wf_def)

interpretation pipe: fifo "pp_wf c" pp_items pp_capacity "pipe_state c" "pipe_added c" "pipe_removed c"
  for c :: "'a config"
  by unfold_locales
    (simp_all add: pipe_state_wf pipe_state_capacity call_conserves count_capacity)

section \<open>Deleted objects\<close>

text \<open>
  With pointers, an item that leaves the queue other than by a pull is deleted, and deleted
  once; one that is pulled is not.
\<close>

definition pipe_events :: "'a config \<Rightarrow> 'a call \<Rightarrow> 'a pipe \<Rightarrow> 'a event list" where
  "pipe_events c call p = (case pipe_call c call p of Some (_, _, evs) \<Rightarrow> evs | None \<Rightarrow> [])"

lemma deleted_removed:
  assumes wf: "pp_wf c p" and ptr: "cf_pointer c"
  shows "deleted (pipe_events c call p) = (if call = Pull then [] else pipe_removed c call p)"
proof (cases call)
  case (Push x)
  show ?thesis
  proof (cases "pp_closed p")
    case True
    then show ?thesis by (simp add: pipe_events_def pp_push_def pipe_push_closed Push)
  next
    case opened: False
    show ?thesis
      using pp_wf_capacity [OF wf] opened ptr
      by (rule_tac pp_count_cases [OF wf])
        (simp_all add: pipe_events_def pp_push_def pipe_push_room pipe_push_full case_prod_beta Push split: kind.split)
  qed
next
  case Drop
  then show ?thesis
    using behead_items [OF wf] ptr
    by (cases "pp_count p = 0") (simp_all add: pipe_events_def pp_drop_def drop_head_eq)
next
  case Drop_if
  then show ?thesis
    using behead_items [OF wf] pp_wf_capacity [OF wf] ptr
    by (simp add: pipe_events_def pp_drop_if_def drop_head_eq)
next
  case Clear
  then show ?thesis using pp_clear_eq [OF wf] ptr by (auto simp: pipe_events_def)
next
  case Close
  then show ?thesis using pp_close_eq [OF wf] ptr by (auto simp: pipe_events_def pp_close_def)
qed (simp add: pipe_events_def pp_pull_eq)

section \<open>The readiness that \<^verbatim>\<open>notify_pipeline\<close> keeps\<close>

text \<open>
  \<^verbatim>\<open>notify_pipeline\<close> overrides \<^verbatim>\<open>notify\<close>: it signals its \<^verbatim>\<open>notify_t\<close> or clears it. The
  descriptor is readable while a signal is pending.
\<close>

fun np_notify :: "bool \<Rightarrow> bool \<Rightarrow> bool" where
  "np_notify True readable = True"
| "np_notify False readable = False"

fun np_readable :: "'a event list \<Rightarrow> bool \<Rightarrow> bool" where
  "np_readable [] readable = readable"
| "np_readable (Notify pending # evs) readable = np_readable evs (np_notify pending readable)"
| "np_readable (_ # evs) readable = np_readable evs readable"

lemma np_readable_append [simp]: "np_readable (u @ v) b = np_readable v (np_readable u b)"
  by (induction u b rule: np_readable.induct) auto

lemma readable_push:
  assumes "pp_wf c p" and "cf_kind c \<noteq> Dropping"
  shows "np_readable (pipe_events c (Push x) p) (pp_count p > 0) = (pp_count (pipe_state c (Push x) p) > 0)"
proof (cases "pp_closed p")
  case True
  then show ?thesis by (simp add: pipe_events_def pipe_state_def pp_push_def pipe_push_closed)
next
  case False
  then show ?thesis
    using pp_wf_capacity [OF assms(1)] assms(2)
    by (rule_tac pp_count_cases [OF assms(1)])
      (auto simp: pipe_events_def pipe_state_def pp_push_def pipe_push_room pipe_push_full case_prod_beta push_slot_def
        split: kind.split)
qed

lemma readable_pull:
  assumes "pp_wf c p"
  shows "np_readable (pipe_events c Pull p) (pp_count p > 0) = (pp_count (pipe_state c Pull p) > 0)"
  by (auto simp: pipe_events_def pipe_state_def pp_pull_eq)

text \<open>The other calls change the count and do not notify.\<close>

lemma readable_deletes: "np_readable (if d then map Delete xs else []) b = b"
  by (induction xs) auto

lemma readable_others:
  assumes wf: "pp_wf c p" and call: "call \<in> {Drop, Drop_if, Clear, Close}"
  shows "np_readable (pipe_events c call p) b = b"
proof (cases call)
  case Drop
  then show ?thesis by (simp add: pipe_events_def pp_drop_def drop_head_eq)
next
  case Drop_if
  then show ?thesis by (simp add: pipe_events_def pp_drop_if_def drop_head_eq)
next
  case Clear
  obtain p' where "pp_clear c p = (p', (if cf_pointer c then map Delete (pp_items p) else [])
      @ (if 0 < pp_count p \<and> \<not> pp_closed p then [Input_one] else []))"
    using pp_clear_eq [OF wf] by blast
  then have "pipe_events c call p = (if cf_pointer c then map Delete (pp_items p) else [])
      @ (if 0 < pp_count p \<and> \<not> pp_closed p then [Input_one] else [])"
    by (simp add: pipe_events_def Clear)
  then show ?thesis by (simp only: np_readable_append readable_deletes) simp
next
  case Close
  show ?thesis
  proof (cases "pp_closed p")
    case True
    then show ?thesis by (simp add: pipe_events_def pp_close_def Close)
  next
    case False
    then obtain p' where "pp_close c p
        = (p', [Output_all, Input_all] @ (if cf_pointer c then map Delete (pp_items p) else []))"
      using pp_close_eq [OF wf] by blast
    then have "pipe_events c call p
        = [Output_all, Input_all] @ (if cf_pointer c then map Delete (pp_items p) else [])"
      by (simp add: pipe_events_def Close)
    then show ?thesis by (simp only: np_readable_append readable_deletes) simp
  qed
qed (use call in simp_all)

section \<open>Runs of calls\<close>

text \<open>What a sequence of calls puts in, takes out in order, pulls, and deletes.\<close>

fun calls_added :: "'a config \<Rightarrow> 'a call list \<Rightarrow> 'a pipe \<Rightarrow> 'a list" where
  "calls_added c [] p = []"
| "calls_added c (k # ks) p = pipe_added c k p @ calls_added c ks (pipe_state c k p)"

fun calls_removed :: "'a config \<Rightarrow> 'a call list \<Rightarrow> 'a pipe \<Rightarrow> 'a list" where
  "calls_removed c [] p = []"
| "calls_removed c (k # ks) p = pipe_removed c k p @ calls_removed c ks (pipe_state c k p)"

fun calls_pulled :: "'a config \<Rightarrow> 'a call list \<Rightarrow> 'a pipe \<Rightarrow> 'a list" where
  "calls_pulled c [] p = []"
| "calls_pulled c (k # ks) p =
     (if k = Pull then pipe_removed c k p else []) @ calls_pulled c ks (pipe_state c k p)"

fun calls_deleted :: "'a config \<Rightarrow> 'a call list \<Rightarrow> 'a pipe \<Rightarrow> 'a list" where
  "calls_deleted c [] p = []"
| "calls_deleted c (k # ks) p = deleted (pipe_events c k p) @ calls_deleted c ks (pipe_state c k p)"

lemma calls_added_run: "calls_added c ks p = pipe.all_added c ks p"
  by (induction ks arbitrary: p) simp_all

lemma calls_removed_run: "calls_removed c ks p = pipe.all_removed c ks p"
  by (induction ks arbitrary: p) simp_all

lemma removed_split:
  "pp_wf c p \<Longrightarrow> cf_pointer c \<Longrightarrow>
   mset (calls_removed c ks p) = mset (calls_pulled c ks p) + mset (calls_deleted c ks p)"
  by (induction ks arbitrary: p) (simp_all add: pipe_state_wf deleted_removed)

lemma push_dropping:
  assumes "pp_wf c p" and "cf_kind c = Dropping" and "\<not> pp_closed p"
  shows "pp_items (pipe_state c (Push x) p) =
      (if pp_count p < pp_capacity p then pp_items p @ [x] else tl (pp_items p) @ [x])"
    and "\<not> pp_closed (pipe_state c (Push x) p)"
  using refines_push [OF assms(1), of x] assms(2,3)
  by (auto simp: refines_def pipe_state_def pipe_abs_def split: option.splits prod.splits if_splits)

lemma dropping_run:
  assumes "pp_wf c p" and "cf_kind c = Dropping" and "\<not> pp_closed p"
  shows "pp_items (fold (\<lambda>x. pipe_state c (Push x)) xs p)
    = drop (pp_count p + length xs - pp_capacity p) (pp_items p @ xs)"
  using assms
proof (induction xs arbitrary: p)
  case Nil
  then show ?case using count_capacity [OF Nil(1)] by simp
next
  case (Cons x xs)
  define q where "q = pipe_state c (Push x) p"
  note step = push_dropping [OF Cons.prems, of x, folded q_def]
  have q: "pp_wf c q" "pp_capacity q = pp_capacity p"
    unfolding q_def using Cons.prems(1) by (simp_all add: pipe_state_wf pipe_state_capacity)
  have IH: "pp_items (fold (\<lambda>x. pipe_state c (Push x)) xs q)
      = drop (pp_count q + length xs - pp_capacity p) (pp_items q @ xs)"
    using Cons.IH [OF q(1) Cons.prems(2) step(2)] q(2) by simp
  have cq: "pp_count q = length (pp_items q)" by simp
  show ?case
  proof (cases "pp_count p < pp_capacity p")
    case True
    then show ?thesis using IH step(1) cq by (simp flip: q_def)
  next
    case False
    then have full: "pp_count p = pp_capacity p" using count_capacity [OF Cons.prems(1)] by simp
    obtain y ys where y: "pp_items p = y # ys"
      using pp_wf_capacity [OF Cons.prems(1)] full by (cases "pp_items p") (auto simp: pp_items_empty)
    then have "Suc (length ys) = pp_capacity p" using full by (metis length_Cons length_pp_items)
    then show ?thesis using IH step(1) cq y full by (simp flip: q_def)
  qed
qed

section \<open>Properties\<close>

text \<open>
  C1: every call on a well-formed pipeline of any kind ends, keeps the ring well formed, and
  does what the same call does on an abstract bounded queue: same answer (waiting and
  throwing included), same items in the same order, same flag, and the objects deleted.
\<close>

theorem pipeline_refines_queue:
  assumes "pp_wf c p"
  shows "\<exists>r p' evs lost. pipe_call c call p = Some (r, p', evs) \<and> pp_wf c p' \<and>
    pp_capacity p' = pp_capacity p \<and>
    queue_call c (pp_capacity p) call (pp_items p, pp_closed p) = (r, (pp_items p', pp_closed p'), lost) \<and>
    deleted evs = (if cf_pointer c then lost else [])"
  by (rule refined [OF assms, of call]) (auto simp: pipe_abs_def)

theorem pipeline_refines_queue_witness:
  "\<exists>r p' evs lost. pipe_call \<lparr>cf_kind = Dropping, cf_pointer = True, cf_zero = 0 :: nat\<rparr> (Push 7)
      (pp_new \<lparr>cf_kind = Dropping, cf_pointer = True, cf_zero = 0\<rparr> 2) = Some (r, p', evs) \<and>
    queue_call \<lparr>cf_kind = Dropping, cf_pointer = True, cf_zero = 0\<rparr> 2 (Push 7) ([], False)
      = (r, (pp_items p', pp_closed p'), lost)"
  using pipeline_refines_queue [OF pp_wf_new, of 2 "\<lparr>cf_kind = Dropping, cf_pointer = True, cf_zero = 0 :: nat\<rparr>" "Push 7"]
  by (auto simp: pp_new_def pp_capacity_def pp_items_def)

text \<open>
  C2: in any run of calls on a new pipeline, what left it (pulled, dropped or cleared), in
  order, followed by what it still holds, is exactly what its pushes accepted, in order; and
  it never holds more than \<open>S\<close> items.
\<close>

theorem pipeline_conserves_items:
  assumes "0 < S"
  shows "calls_added c ks (pp_new c S) =
      calls_removed c ks (pp_new c S) @ pp_items (fold (pipe_state c) ks (pp_new c S))
    \<and> length (calls_added c ks (pp_new c S)) \<le> length (calls_removed c ks (pp_new c S)) + S"
proof -
  have "pp_capacity (pp_new c S) = S" by (simp add: pp_new_def pp_capacity_def)
  then show ?thesis
    using pipe.run_from_empty [OF pp_wf_new [OF assms] pp_items_new, of c ks]
    by (simp add: calls_added_run calls_removed_run)
qed

theorem pipeline_conserves_items_witness:
  "calls_added \<lparr>cf_kind = Waiting, cf_pointer = False, cf_zero = 0 :: nat\<rparr> [Push 1, Push 2, Pull]
      (pp_new \<lparr>cf_kind = Waiting, cf_pointer = False, cf_zero = 0\<rparr> 2) =
    calls_removed \<lparr>cf_kind = Waiting, cf_pointer = False, cf_zero = 0\<rparr> [Push 1, Push 2, Pull]
      (pp_new \<lparr>cf_kind = Waiting, cf_pointer = False, cf_zero = 0\<rparr> 2) @
    pp_items (fold (pipe_state \<lparr>cf_kind = Waiting, cf_pointer = False, cf_zero = 0\<rparr>) [Push 1, Push 2, Pull]
      (pp_new \<lparr>cf_kind = Waiting, cf_pointer = False, cf_zero = 0\<rparr> 2))"
  using pipeline_conserves_items [of 2 "\<lparr>cf_kind = Waiting, cf_pointer = False, cf_zero = 0 :: nat\<rparr>"
      "[Push 1, Push 2, Pull]"] by simp

text \<open>
  C3: in a pipeline of pointers every accepted object is, after any run, in exactly one
  place: handed to a puller, deleted once, or still in the pipeline. Nothing leaks and
  nothing is deleted twice or after it was handed out.
\<close>

theorem pipeline_owns_objects_once:
  assumes "0 < S" and "cf_pointer c"
  shows "mset (calls_added c ks (pp_new c S)) =
    mset (calls_pulled c ks (pp_new c S)) + mset (calls_deleted c ks (pp_new c S)) +
    mset (pp_items (fold (pipe_state c) ks (pp_new c S)))"
  using pipe.run_from_empty(1) [OF pp_wf_new [OF assms(1)] pp_items_new, of c ks]
    removed_split [OF pp_wf_new [OF assms(1)] assms(2), of ks]
  by (simp add: calls_added_run calls_removed_run)

theorem pipeline_owns_objects_once_witness:
  "mset (calls_added \<lparr>cf_kind = Waiting, cf_pointer = True, cf_zero = 0 :: nat\<rparr> [Push 1, Push 2, Drop]
      (pp_new \<lparr>cf_kind = Waiting, cf_pointer = True, cf_zero = 0\<rparr> 2)) =
    mset (calls_pulled \<lparr>cf_kind = Waiting, cf_pointer = True, cf_zero = 0\<rparr> [Push 1, Push 2, Drop]
      (pp_new \<lparr>cf_kind = Waiting, cf_pointer = True, cf_zero = 0\<rparr> 2)) +
    mset (calls_deleted \<lparr>cf_kind = Waiting, cf_pointer = True, cf_zero = 0\<rparr> [Push 1, Push 2, Drop]
      (pp_new \<lparr>cf_kind = Waiting, cf_pointer = True, cf_zero = 0\<rparr> 2)) +
    mset (pp_items (fold (pipe_state \<lparr>cf_kind = Waiting, cf_pointer = True, cf_zero = 0\<rparr>) [Push 1, Push 2, Drop]
      (pp_new \<lparr>cf_kind = Waiting, cf_pointer = True, cf_zero = 0\<rparr> 2)))"
  using pipeline_owns_objects_once [of 2 "\<lparr>cf_kind = Waiting, cf_pointer = True, cf_zero = 0 :: nat\<rparr>"
      "[Push 1, Push 2, Drop]"] by simp

text \<open>
  A \<^verbatim>\<open>drop_pipeline\<close> that is only pushed to holds the newest \<open>S\<close> values, oldest first.
\<close>

theorem drop_pipeline_keeps_newest:
  assumes "0 < S" and "cf_kind c = Dropping"
  shows "pp_items (fold (\<lambda>x. pipe_state c (Push x)) xs (pp_new c S)) = drop (length xs - S) xs"
proof -
  have "pp_capacity (pp_new c S) = S" "pp_count (pp_new c S) = 0" "\<not> pp_closed (pp_new c S)"
    by (simp_all add: pp_new_def pp_capacity_def)
  then show ?thesis using dropping_run [OF pp_wf_new [OF assms(1)] assms(2), of xs] by simp
qed

theorem drop_pipeline_keeps_newest_witness:
  "pp_items (fold (\<lambda>x. pipe_state \<lparr>cf_kind = Dropping, cf_pointer = False, cf_zero = 0 :: nat\<rparr> (Push x)) [1, 2, 3]
    (pp_new \<lparr>cf_kind = Dropping, cf_pointer = False, cf_zero = 0\<rparr> 2)) = [2, 3]"
  using drop_pipeline_keeps_newest [of 2 "\<lparr>cf_kind = Dropping, cf_pointer = False, cf_zero = 0 :: nat\<rparr>" "[1, 2, 3]"]
  by simp

text \<open>
  A push to and a pull from a \<^verbatim>\<open>notify_pipeline\<close> keep its descriptor readable exactly
  while it holds items; \<^verbatim>\<open>drop\<close>, \<^verbatim>\<open>drop_if\<close>, \<^verbatim>\<open>clear\<close> and \<^verbatim>\<open>close\<close> never touch the
  descriptor, so that one that empties the pipeline leaves it readable.
\<close>

theorem notify_pipeline_readiness:
  assumes "pp_wf c p" and "cf_kind c = Waiting"
  shows "np_readable (pipe_events c (Push x) p) (pp_count p > 0) = (pp_count (pipe_state c (Push x) p) > 0)
    \<and> np_readable (pipe_events c Pull p) (pp_count p > 0) = (pp_count (pipe_state c Pull p) > 0)
    \<and> np_readable (pipe_events c Clear p) (pp_count p > 0) = (pp_count p > 0)
    \<and> pp_count (pipe_state c Clear p) = 0"
proof -
  have "pp_count (pipe_state c Clear p) = 0"
    using pp_clear_eq [OF assms(1)] by (auto simp: pipe_state_def)
  then show ?thesis
    using readable_push [OF assms(1), of x] readable_pull [OF assms(1)] readable_others [OF assms(1), of Clear]
      assms(2) by simp
qed

theorem notify_pipeline_readiness_witness:
  "np_readable (pipe_events \<lparr>cf_kind = Waiting, cf_pointer = False, cf_zero = 0 :: nat\<rparr> (Push 7)
     (pp_new \<lparr>cf_kind = Waiting, cf_pointer = False, cf_zero = 0\<rparr> 2)) False =
   (pp_count (pipe_state \<lparr>cf_kind = Waiting, cf_pointer = False, cf_zero = 0 :: nat\<rparr> (Push 7)
     (pp_new \<lparr>cf_kind = Waiting, cf_pointer = False, cf_zero = 0\<rparr> 2)) > 0)"
  using notify_pipeline_readiness [OF pp_wf_new, of 2 "\<lparr>cf_kind = Waiting, cf_pointer = False, cf_zero = 0 :: nat\<rparr>" 7]
  by (simp add: pp_new_def)

end
