(* ===== verification/Pipeline_Threads.thy ===== *)
theory Pipeline_Threads
  imports Pipeline Run_Contract
begin

text \<open>
  Threads that share a pipeline of \<^verbatim>\<open>src/src/pipeline.hpp\<close>: each thread calls \<^verbatim>\<open>push\<close>,
  \<^verbatim>\<open>pull\<close> or \<^verbatim>\<open>close\<close>. A call's loop runs under the mutex; a thread that has to wait first
  tests its condition and then goes to sleep, giving the mutex up, and these are two moves
  because \<^verbatim>\<open>close\<close> sets its flag and notifies without the mutex. A notified thread runs its
  loop again. A move names its thread, and which sleepers its notifications wake.

  The lemmas follow the notifications: those of a sole producer or consumer, those of a burst of
  calls when several threads sleep, and those of \<^verbatim>\<open>close\<close>.
\<close>

section \<open>Threads\<close>

datatype 'a phase =
    Idle
  | Pushing 'a
  | Pulling
  | Parking_in 'a
  | Parking_out
  | Asleep_in 'a
  | Asleep_out
  | Closed_flag
  | Closed_notified

datatype role = Producer | Consumer

record 'a world =
  w_pipe :: "'a pipe"
  w_phase :: "'a phase list"
  w_owner :: "nat option"

fun sleeps_in :: "'a phase \<Rightarrow> bool" where
  "sleeps_in (Asleep_in x) = True"
| "sleeps_in _ = False"

fun sleeps_out :: "'a phase \<Rightarrow> bool" where
  "sleeps_out Asleep_out = True"
| "sleeps_out _ = False"

fun woken :: "'a phase \<Rightarrow> 'a phase" where
  "woken (Asleep_in x) = Pushing x"
| "woken Asleep_out = Pulling"
| "woken q = q"

text \<open>\<^verbatim>\<open>notify_one\<close> wakes the chosen sleeper, or nobody when nobody sleeps.\<close>

definition notify_one :: "('a phase \<Rightarrow> bool) \<Rightarrow> nat \<Rightarrow> 'a phase list \<Rightarrow> 'a phase list option" where
  "notify_one sleeps t phases =
     (if t < length phases \<and> sleeps (phases ! t) then Some (phases[t := woken (phases ! t)])
      else if list_all (\<lambda>q. \<not> sleeps q) phases then Some phases else None)"

definition notify_all :: "('a phase \<Rightarrow> bool) \<Rightarrow> 'a phase list \<Rightarrow> 'a phase list" where
  "notify_all sleeps phases = map (\<lambda>q. if sleeps q then woken q else q) phases"

fun deliver :: "'a event list \<Rightarrow> nat \<Rightarrow> 'a phase list \<Rightarrow> 'a phase list option" where
  "deliver [] t phases = Some phases"
| "deliver (Input_one # evs) t phases =
     (case notify_one sleeps_in t phases of None \<Rightarrow> None | Some ps \<Rightarrow> deliver evs t ps)"
| "deliver (Output_one # evs) t phases =
     (case notify_one sleeps_out t phases of None \<Rightarrow> None | Some ps \<Rightarrow> deliver evs t ps)"
| "deliver (Input_all # evs) t phases = deliver evs t (notify_all sleeps_in phases)"
| "deliver (Output_all # evs) t phases = deliver evs t (notify_all sleeps_out phases)"
| "deliver (_ # evs) t phases = deliver evs t phases"

section \<open>Moves\<close>

datatype 'a move =
    Call_push nat 'a
  | Call_pull nat
  | Call_close nat
  | Run nat nat
  | Park nat
  | Spurious nat

definition set_phase :: "nat \<Rightarrow> 'a phase \<Rightarrow> 'a world \<Rightarrow> 'a world" where
  "set_phase t q w = w\<lparr>w_phase := (w_phase w)[t := q]\<rparr>"

text \<open>A call returned: the new pipeline, the notifications, and the thread is idle again.\<close>

definition finish :: "nat \<Rightarrow> nat \<Rightarrow> 'a pipe \<Rightarrow> 'a event list \<Rightarrow> 'a world \<Rightarrow> 'a world option" where
  "finish t choice p evs w =
     map_option (\<lambda>ps. w\<lparr>w_pipe := p, w_phase := ps\<rparr>) (deliver evs choice ((w_phase w)[t := Idle]))"

fun run_thread :: "'a config \<Rightarrow> nat \<Rightarrow> nat \<Rightarrow> 'a phase \<Rightarrow> 'a world \<Rightarrow> 'a world option" where
  "run_thread c t choice (Pushing x) w =
     (if w_owner w \<noteq> None then None
      else case pp_push c x (w_pipe w) of
        None \<Rightarrow> None
      | Some (Waits, p, evs) \<Rightarrow> Some (set_phase t (Parking_in x) (w\<lparr>w_owner := Some t\<rparr>))
      | Some (_, p, evs) \<Rightarrow> finish t choice p evs w)"
| "run_thread c t choice Pulling w =
     (if w_owner w \<noteq> None then None
      else case pp_pull c (w_pipe w) of
        (Waits, p, evs) \<Rightarrow> Some (set_phase t Parking_out (w\<lparr>w_owner := Some t\<rparr>))
      | (_, p, evs) \<Rightarrow> finish t choice p evs w)"
| "run_thread c t choice Closed_flag w =
     Some (set_phase t Closed_notified
       (w\<lparr>w_phase := notify_all sleeps_in (notify_all sleeps_out (w_phase w))\<rparr>))"
| "run_thread c t choice Closed_notified w =
     (if w_owner w \<noteq> None then None
      else let (p, evs) = pp_clear c (w_pipe w) in finish t choice p evs w)"
| "run_thread c t choice _ w = None"

fun park_thread :: "nat \<Rightarrow> 'a phase \<Rightarrow> 'a world \<Rightarrow> 'a world option" where
  "park_thread t (Parking_in x) w = Some (set_phase t (Asleep_in x) (w\<lparr>w_owner := None\<rparr>))"
| "park_thread t Parking_out w = Some (set_phase t Asleep_out (w\<lparr>w_owner := None\<rparr>))"
| "park_thread t _ w = None"

fun make_move :: "'a config \<Rightarrow> role list \<Rightarrow> 'a move \<Rightarrow> 'a world \<Rightarrow> 'a world option" where
  "make_move c roles (Call_push t x) w =
     (if t < length roles \<and> roles ! t = Producer \<and> w_phase w ! t = Idle
      then Some (set_phase t (Pushing x) w) else None)"
| "make_move c roles (Call_pull t) w =
     (if t < length roles \<and> roles ! t = Consumer \<and> w_phase w ! t = Idle
      then Some (set_phase t Pulling w) else None)"
| "make_move c roles (Call_close t) w =
     (if t < length roles \<and> w_phase w ! t = Idle \<and> \<not> pp_closed (w_pipe w)
      then Some (set_phase t Closed_flag (w\<lparr>w_pipe := (w_pipe w)\<lparr>pp_closed := True\<rparr>\<rparr>)) else None)"
| "make_move c roles (Run t choice) w =
     (if t < length roles then run_thread c t choice (w_phase w ! t) w else None)"
| "make_move c roles (Park t) w =
     (if t < length roles then park_thread t (w_phase w ! t) w else None)"
| "make_move c roles (Spurious t) w =
     (if t < length roles \<and> (sleeps_in (w_phase w ! t) \<or> sleeps_out (w_phase w ! t))
      then Some (set_phase t (woken (w_phase w ! t)) w) else None)"

definition w_start :: "'a config \<Rightarrow> role list \<Rightarrow> nat \<Rightarrow> 'a world" where
  "w_start c roles S =
     \<lparr>w_pipe = pp_new c S, w_phase = replicate (length roles) Idle, w_owner = None\<rparr>"

inductive reachable :: "'a config \<Rightarrow> role list \<Rightarrow> nat \<Rightarrow> 'a world \<Rightarrow> bool"
  for c roles S where
  start: "reachable c roles S (w_start c roles S)"
| move: "reachable c roles S w \<Longrightarrow> make_move c roles m w = Some w' \<Longrightarrow> reachable c roles S w'"

abbreviation make_moves :: "'a config \<Rightarrow> role list \<Rightarrow> 'a move list \<Rightarrow> 'a world \<Rightarrow> 'a world option" where
  "make_moves c roles \<equiv> run_moves (make_move c roles)"

interpretation moves: run_invariant "make_move c roles" "reachable c roles S" "\<lambda>_. False" for c roles S
  by unfold_locales (rule reachable.move)

lemma make_moves_reachable:
  "reachable c roles S w \<Longrightarrow> make_moves c roles ms w = Some w' \<Longrightarrow> reachable c roles S w'"
  by (rule moves.run_inv) simp_all

section \<open>Lost wake-ups\<close>

definition basic :: "nat config" where
  "basic = \<lparr>cf_kind = Waiting, cf_pointer = False, cf_zero = 0\<rparr>"

lemma replicate_2: "replicate 2 x = [x, x]"
  by (simp add: numeral_2_eq_2)

lemmas run_simps = replicate_2 basic_def w_start_def pp_new_def set_phase_def finish_def notify_one_def notify_all_def
  pp_push_def pipe_push_closed pipe_push_room pipe_push_full push_slot_def pp_pull_def pp_capacity_def clear_item_def

lemma two_consumers_trace:
  "make_moves basic [Consumer, Consumer, Producer]
    [Call_pull 0, Run 0 0, Park 0, Call_pull 1, Run 1 0, Park 1,
     Call_push 2 7, Run 2 0, Call_push 2 8, Run 2 0, Run 0 0] (w_start basic [Consumer, Consumer, Producer] 2)
   = Some \<lparr>w_pipe = \<lparr>pp_data = [0, 8], pp_head = 1, pp_tail = 0, pp_count = 1, pp_closed = False\<rparr>,
       w_phase = [Idle, Asleep_out, Idle], w_owner = None\<rparr>"
  by (simp add: run_simps)

text \<open>
  The same with producers: two pulls make room for both, and the second does not notify.
\<close>

lemma two_producers_trace:
  "make_moves basic [Producer, Producer, Consumer]
    [Call_push 0 5, Run 0 0, Call_push 0 6, Run 0 0, Call_push 0 7, Run 0 0, Park 0,
     Call_push 1 8, Run 1 0, Park 1,
     Call_pull 2, Run 2 0, Call_pull 2, Run 2 1, Run 0 0] (w_start basic [Producer, Producer, Consumer] 2)
   = Some \<lparr>w_pipe = \<lparr>pp_data = [7, 0], pp_head = 0, pp_tail = 1, pp_count = 1, pp_closed = False\<rparr>,
       w_phase = [Idle, Asleep_in 8, Idle], w_owner = None\<rparr>"
  by (simp add: run_simps)

text \<open>
  A consumer has found the pipeline empty and still holds the mutex; \<^verbatim>\<open>close\<close> sets the
  flag and notifies; then the consumer goes to sleep.
\<close>

lemma close_race_trace:
  "make_moves basic [Consumer, Producer]
    [Call_pull 0, Run 0 0, Call_close 1, Run 1 0, Park 0, Run 1 0] (w_start basic [Consumer, Producer] 2)
   = Some \<lparr>w_pipe = \<lparr>pp_data = [0, 0], pp_head = 0, pp_tail = 0, pp_count = 0, pp_closed = True\<rparr>,
       w_phase = [Asleep_out, Idle], w_owner = None\<rparr>"
  by (simp add: run_simps pp_clear_def clear_loop.simps)

section \<open>One producer, one consumer\<close>

text \<open>
  What a thread's phase says about the pipeline. The clauses on sleepers hold when no other
  thread has the same role.
\<close>

definition sole :: "role \<Rightarrow> role list \<Rightarrow> bool" where
  "sole r roles = (length (filter (\<lambda>q. q = r) roles) \<le> 1)"

fun phase_ok :: "role list \<Rightarrow> nat option \<Rightarrow> 'a pipe \<Rightarrow> nat \<Rightarrow> 'a phase \<Rightarrow> bool" where
  "phase_ok roles ow p t (Pushing x) = (roles ! t = Producer)"
| "phase_ok roles ow p t Pulling = (roles ! t = Consumer)"
| "phase_ok roles ow p t (Parking_in x) =
     (roles ! t = Producer \<and> ow = Some t \<and> (sole Producer roles \<longrightarrow> pp_closed p \<or> pp_count p = pp_capacity p))"
| "phase_ok roles ow p t (Asleep_in x) =
     (roles ! t = Producer \<and> (sole Producer roles \<longrightarrow> pp_closed p \<or> pp_count p = pp_capacity p))"
| "phase_ok roles ow p t Parking_out =
     (roles ! t = Consumer \<and> ow = Some t \<and> (sole Consumer roles \<longrightarrow> pp_count p = 0))"
| "phase_ok roles ow p t Asleep_out =
     (roles ! t = Consumer \<and> (sole Consumer roles \<longrightarrow> pp_count p = 0))"
| "phase_ok roles ow p t Closed_flag = pp_closed p"
| "phase_ok roles ow p t Closed_notified = pp_closed p"
| "phase_ok roles ow p t Idle = True"

definition world_ok :: "'a config \<Rightarrow> role list \<Rightarrow> nat \<Rightarrow> 'a world \<Rightarrow> bool" where
  "world_ok c roles S w =
     (length (w_phase w) = length roles \<and> pp_wf c (w_pipe w) \<and> pp_capacity (w_pipe w) = S \<and>
      (\<forall>t < length roles. phase_ok roles (w_owner w) (w_pipe w) t (w_phase w ! t)))"

lemma sole_unique:
  assumes "sole r roles" and "i < length roles" and "j < length roles" and "roles ! i = r" and "roles ! j = r"
  shows "i = j"
proof -
  have "card {k. k < length roles \<and> roles ! k = r} \<le> 1"
    using assms(1) by (simp add: sole_def length_filter_conv_card)
  moreover
  have "{i, j} \<subseteq> {k. k < length roles \<and> roles ! k = r}" using assms by auto
  then have "card {i, j} \<le> card {k. k < length roles \<and> roles ! k = r}" by (intro card_mono) simp_all
  ultimately have "card {i, j} \<le> 1" by linarith
  then show ?thesis by (cases "i = j") auto
qed

lemma notify_one_cases:
  assumes "notify_one sl t ps = Some qs"
  shows "length qs = length ps" and "\<forall>u < length ps. qs ! u = ps ! u \<or> qs ! u = woken (ps ! u)"
  using assms by (auto simp: notify_one_def nth_list_update split: if_splits)

lemma woken_woken [simp]: "woken (woken q) = woken q"
  by (cases q) auto

lemma woken_awake [simp]: "\<not> sleeps_in (woken q)" "\<not> sleeps_out (woken q)"
  by (cases q; simp)+

lemma notify_all_nth:
  "u < length ps \<Longrightarrow> notify_all sl ps ! u = ps ! u \<or> notify_all sl ps ! u = woken (ps ! u)"
  by (simp add: notify_all_def)

lemma length_notify_all [simp]: "length (notify_all sl ps) = length ps"
  by (simp add: notify_all_def)

text \<open>Phases of which some were woken.\<close>

definition woken_from :: "'a phase list \<Rightarrow> 'a phase list \<Rightarrow> bool" where
  "woken_from ps qs =
     (length qs = length ps \<and> (\<forall>u < length ps. qs ! u = ps ! u \<or> qs ! u = woken (ps ! u)))"

lemma woken_from_refl [simp]: "woken_from ps ps"
  by (simp add: woken_from_def)

lemma woken_from_trans: "woken_from ps qs \<Longrightarrow> woken_from qs rs \<Longrightarrow> woken_from ps rs"
  by (simp add: woken_from_def) (metis woken_woken)

lemma woken_from_all [simp]: "woken_from ps (notify_all sl ps)"
  by (simp add: woken_from_def notify_all_nth)

lemma woken_from_one: "notify_one sl t ps = Some qs \<Longrightarrow> woken_from ps qs"
  using notify_one_cases [of sl t ps qs] by (simp add: woken_from_def)

lemma deliver_woken: "deliver evs t ps = Some qs \<Longrightarrow> woken_from ps qs"
  by (induction evs t ps rule: deliver.induct)
    (auto split: option.splits dest: woken_from_one intro: woken_from_trans woken_from_all)

text \<open>Of at most one sleeper, none is left after a notification.\<close>

definition at_most_one :: "('a phase \<Rightarrow> bool) \<Rightarrow> 'a phase list \<Rightarrow> bool" where
  "at_most_one sl ps = (\<forall>u < length ps. \<forall>v < length ps. sl (ps ! u) \<and> sl (ps ! v) \<longrightarrow> u = v)"

lemma at_most_one_woken:
  assumes "woken_from ps qs" and "at_most_one sl ps" and "\<And>q. \<not> sl (woken q)"
  shows "at_most_one sl qs"
  using assms unfolding at_most_one_def woken_from_def by metis

lemma none_woken:
  assumes "woken_from ps qs" and "\<forall>u < length ps. \<not> sl (ps ! u)" and "\<And>q. \<not> sl (woken q)"
  shows "\<forall>u < length qs. \<not> sl (qs ! u)"
  using assms unfolding woken_from_def by metis

lemma notify_one_none:
  assumes "notify_one sl t ps = Some qs" and "at_most_one sl ps" and "\<And>q. \<not> sl (woken q)"
  shows "\<forall>u < length qs. \<not> sl (qs ! u)"
  using assms
  by (auto simp: notify_one_def at_most_one_def nth_list_update list_all_length split: if_splits)

lemma deliver_output:
  "deliver evs t ps = Some qs \<Longrightarrow> Output_one \<in> set evs \<Longrightarrow> at_most_one sleeps_out ps \<Longrightarrow>
   \<forall>u < length qs. \<not> sleeps_out (qs ! u)"
proof (induction evs t ps rule: deliver.induct)
  case (2 evs t ps)
  then obtain rs where rs: "notify_one sleeps_in t ps = Some rs" "deliver evs t rs = Some qs"
    by (auto split: option.splits)
  show ?case
    using 2(1) [OF rs] 2(3,4) at_most_one_woken [OF woken_from_one [OF rs(1)], of sleeps_out] by simp
next
  case (3 evs t ps)
  then obtain rs where rs: "notify_one sleeps_out t ps = Some rs" "deliver evs t rs = Some qs"
    by (auto split: option.splits)
  show ?case
    using notify_one_none [OF rs(1) 3(4)] none_woken [OF deliver_woken [OF rs(2)], of sleeps_out] by simp
next
  case (4 evs t ps)
  then show ?case using at_most_one_woken [OF woken_from_all, of sleeps_out ps sleeps_in] by simp
next
  case (5 evs t ps)
  then show ?case using at_most_one_woken [OF woken_from_all, of sleeps_out ps sleeps_out] by simp
qed auto

lemma deliver_input:
  "deliver evs t ps = Some qs \<Longrightarrow> Input_one \<in> set evs \<Longrightarrow> at_most_one sleeps_in ps \<Longrightarrow>
   \<forall>u < length qs. \<not> sleeps_in (qs ! u)"
proof (induction evs t ps rule: deliver.induct)
  case (3 evs t ps)
  then obtain rs where rs: "notify_one sleeps_out t ps = Some rs" "deliver evs t rs = Some qs"
    by (auto split: option.splits)
  show ?case
    using 3(1) [OF rs] 3(3,4) at_most_one_woken [OF woken_from_one [OF rs(1)], of sleeps_in] by simp
next
  case (2 evs t ps)
  then obtain rs where rs: "notify_one sleeps_in t ps = Some rs" "deliver evs t rs = Some qs"
    by (auto split: option.splits)
  show ?case
    using notify_one_none [OF rs(1) 2(4)] none_woken [OF deliver_woken [OF rs(2)], of sleeps_in] by simp
next
  case (4 evs t ps)
  then show ?case using at_most_one_woken [OF woken_from_all, of sleeps_in ps sleeps_in] by simp
next
  case (5 evs t ps)
  then show ?case using at_most_one_woken [OF woken_from_all, of sleeps_in ps sleeps_out] by simp
qed auto

section \<open>What the calls do to the count\<close>

lemma push_effect:
  assumes wf: "pp_wf c p" and r: "pp_push c x p = Some (r, p', evs)"
  shows "if r = Waits then \<not> pp_closed p \<and> pp_count p = pp_capacity p \<and> p' = p
    else pp_wf c p' \<and> pp_closed p' = pp_closed p \<and> pp_capacity p' = pp_capacity p \<and>
      (pp_count p' = pp_count p \<or> \<not> pp_closed p \<and> pp_count p < pp_capacity p) \<and>
      (pp_count p = 0 \<and> pp_count p' \<noteq> 0 \<longrightarrow> Output_one \<in> set evs)"
proof (cases "pp_closed p")
  case True
  then show ?thesis using r wf by (auto simp: pp_push_def pipe_push_closed)
next
  case False
  show ?thesis
  proof (rule pp_count_cases [OF wf])
    assume room: "pp_count p < pp_capacity p"
    then show ?thesis using r False push_slot_wf [OF wf room, of x]
      by (auto simp: pp_push_def pipe_push_room push_slot_def pp_capacity_def)
  next
    assume full: "pp_count p = pp_capacity p"
    have pos: "0 < pp_count p" using pp_wf_capacity [OF wf] full by simp
    have room: "pp_count (behead c p) < pp_capacity (behead c p)" using pos full by simp
    show ?thesis
      using r wf False full pos push_slot_wf [OF behead_wf [OF wf pos] room, of x]
      by (auto simp: pp_push_def pipe_push_full split: kind.splits)
  qed
qed

lemma pull_effect:
  assumes wf: "pp_wf c p" and r: "pp_pull c p = (r, p', evs)"
  shows "if r = Waits then pp_count p = 0
    else pp_wf c p' \<and> pp_closed p' = pp_closed p \<and> pp_capacity p' = pp_capacity p \<and>
      (pp_count p = 0 \<longrightarrow> pp_count p' = 0) \<and> (pp_closed p \<longrightarrow> pp_count p' = pp_count p) \<and>
      (\<not> pp_closed p \<and> pp_count p = pp_capacity p \<longrightarrow> Input_one \<in> set evs)"
  using r wf behead_wf [OF wf] pp_wf_capacity [OF wf] by (auto simp: pp_pull_eq split: if_splits)

section \<open>The invariant is kept\<close>

lemma world_ok_phase:
  "world_ok c roles S w \<Longrightarrow> t < length roles \<Longrightarrow>
   phase_ok roles (w_owner w) (w_pipe w) t (w_phase w ! t)"
  by (simp add: world_ok_def)

lemma phase_ok_woken:
  "phase_ok roles ow p t q \<Longrightarrow> phase_ok roles ow p t (woken q)"
  by (cases q) auto

lemma phase_ok_woken_cases:
  "q' = q \<or> q' = woken q \<Longrightarrow> phase_ok roles ow p t q \<Longrightarrow> phase_ok roles ow p t q'"
  by (auto intro: phase_ok_woken)

lemma world_ok_start: "0 < S \<Longrightarrow> world_ok c roles S (w_start c roles S)"
  using pp_wf_new [of S c] by (simp add: world_ok_def w_start_def pp_capacity_def pp_new_def)

lemma sleepers_sole:
  assumes "world_ok c roles S w"
  shows "sole Producer roles \<Longrightarrow> at_most_one sleeps_in ((w_phase w)[t := Idle])"
    and "sole Consumer roles \<Longrightarrow> at_most_one sleeps_out ((w_phase w)[t := Idle])"
proof -
  have role: "u < length roles \<Longrightarrow> sleeps_in (w_phase w ! u) \<Longrightarrow> roles ! u = Producer"
    "u < length roles \<Longrightarrow> sleeps_out (w_phase w ! u) \<Longrightarrow> roles ! u = Consumer" for u
    using world_ok_phase [OF assms, of u] by (cases "w_phase w ! u"; simp)+
  have len: "length (w_phase w) = length roles" using assms by (simp add: world_ok_def)
  have idle: "sl ((w_phase w)[t := Idle] ! u) \<Longrightarrow> u < length roles \<Longrightarrow> \<not> sl Idle \<Longrightarrow> sl (w_phase w ! u)" for sl u
    using len by (cases "u = t") auto
  show "sole Producer roles \<Longrightarrow> at_most_one sleeps_in ((w_phase w)[t := Idle])"
    unfolding at_most_one_def using role(1) idle [of sleeps_in] len
    by (auto intro!: sole_unique [of Producer roles])
  show "sole Consumer roles \<Longrightarrow> at_most_one sleeps_out ((w_phase w)[t := Idle])"
    unfolding at_most_one_def using role(2) idle [of sleeps_out] len
    by (auto intro!: sole_unique [of Consumer roles])
qed

text \<open>A call by thread \<open>t\<close> returned: its effect keeps what the other phases say.\<close>

lemma finish_ok:
  assumes ok: "world_ok c roles S w" and fin: "finish t choice p evs w = Some w'"
    and ow: "w_owner w = None" and wf: "pp_wf c p" and cap: "pp_capacity p = pp_capacity (w_pipe w)"
    and closed: "pp_closed (w_pipe w) \<Longrightarrow> pp_closed p"
    and empty: "pp_count (w_pipe w) = 0 \<Longrightarrow> pp_count p \<noteq> 0 \<Longrightarrow> Output_one \<in> set evs"
    and full: "\<not> pp_closed p \<Longrightarrow> pp_count (w_pipe w) = pp_capacity p \<Longrightarrow>
      pp_count p \<noteq> pp_capacity p \<Longrightarrow> Input_one \<in> set evs"
  shows "world_ok c roles S w'"
proof -
  define ps where "ps = (w_phase w)[t := Idle]"
  obtain qs where qs: "deliver evs choice ps = Some qs" and w': "w' = w\<lparr>w_pipe := p, w_phase := qs\<rparr>"
    using fin by (auto simp: finish_def ps_def)
  have wok: "woken_from ps qs" by (rule deliver_woken [OF qs])
  have len: "length ps = length roles" "length qs = length roles"
    using ok wok by (simp_all add: world_ok_def ps_def woken_from_def)
  have "phase_ok roles None p u (qs ! u)" if u: "u < length roles" for u
  proof -
    have old: "phase_ok roles None (w_pipe w) u (ps ! u)"
      using world_ok_phase [OF ok u] u len ow by (cases "u = t") (auto simp: ps_def)
    have out: "sole Consumer roles \<Longrightarrow> pp_count (w_pipe w) = 0 \<Longrightarrow> pp_count p = 0 \<or> \<not> sleeps_out (qs ! u)"
      using empty deliver_output [OF qs] sleepers_sole(2) [OF ok, of t] u len by (auto simp: ps_def)
    have inp: "sole Producer roles \<Longrightarrow> \<not> pp_closed p \<Longrightarrow> pp_count (w_pipe w) = pp_capacity p \<Longrightarrow>
        pp_count p = pp_capacity p \<or> \<not> sleeps_in (qs ! u)"
      using full deliver_input [OF qs] sleepers_sole(1) [OF ok, of t] u len by (auto simp: ps_def)
    have "qs ! u = ps ! u \<or> qs ! u = woken (ps ! u)" using wok u len by (simp add: woken_from_def)
    then show ?thesis
    proof
      assume eq: "qs ! u = ps ! u"
      show ?thesis using old out inp closed cap unfolding eq by (cases "ps ! u") auto
    next
      assume eq: "qs ! u = woken (ps ! u)"
      show ?thesis using old closed unfolding eq by (cases "ps ! u") auto
    qed
  qed
  then show ?thesis using ok len wf cap ow by (simp add: world_ok_def w')
qed

text \<open>Thread \<open>t\<close> changes its phase, and perhaps who holds the mutex.\<close>

lemma set_phase_ok:
  assumes ok: "world_ok c roles S w" and t: "t < length roles"
    and q: "phase_ok roles ow (w_pipe w) t q"
    and others: "\<And>u. u < length roles \<Longrightarrow> u \<noteq> t \<Longrightarrow> w_owner w = Some u \<Longrightarrow> ow = Some u"
  shows "world_ok c roles S (set_phase t q (w\<lparr>w_owner := ow\<rparr>))"
proof -
  have "phase_ok roles ow (w_pipe w) u (w_phase w ! u)" if "u < length roles" "u \<noteq> t" for u
    using world_ok_phase [OF ok that(1)] others [OF that] by (cases "w_phase w ! u") auto
  then show ?thesis
    using ok t q by (auto simp: world_ok_def set_phase_def nth_list_update)
qed

lemma closed_wf: "pp_wf c (p\<lparr>pp_closed := b\<rparr>) = pp_wf c p"
  by (simp add: pp_wf_def pp_capacity_def)

lemma run_thread_ok:
  assumes ok: "world_ok c roles S w" and t: "t < length roles"
    and run: "run_thread c t choice (w_phase w ! t) w = Some w'"
  shows "world_ok c roles S w'"
proof (cases "w_phase w ! t")
  case (Pushing x)
  have wf: "pp_wf c (w_pipe w)" using ok by (simp add: world_ok_def)
  have role: "roles ! t = Producer" using world_ok_phase [OF ok t] Pushing by simp
  have ow: "w_owner w = None" using run Pushing by (simp split: if_splits)
  obtain r p evs where push: "pp_push c x (w_pipe w) = Some (r, p, evs)"
    using pp_push_total [OF wf, of x] by (cases "pp_push c x (w_pipe w)") auto
  note eff = push_effect [OF wf push]
  show ?thesis
  proof (cases "r = Waits")
    case True
    then have "w' = set_phase t (Parking_in x) (w\<lparr>w_owner := Some t\<rparr>)"
      using run Pushing push ow by simp
    then show ?thesis using set_phase_ok [OF ok t] True eff role ow by simp
  next
    case False
    then have fin: "finish t choice p evs w = Some w'"
      using run Pushing push ow by (cases r) simp_all
    show ?thesis by (rule finish_ok [OF ok fin ow]) (use False eff in auto)
  qed
next
  case Pulling
  have wf: "pp_wf c (w_pipe w)" using ok by (simp add: world_ok_def)
  have role: "roles ! t = Consumer" using world_ok_phase [OF ok t] Pulling by simp
  have ow: "w_owner w = None" using run Pulling by (simp split: if_splits)
  obtain r p evs where pull: "pp_pull c (w_pipe w) = (r, p, evs)"
    by (cases "pp_pull c (w_pipe w)") auto
  note eff = pull_effect [OF wf pull]
  show ?thesis
  proof (cases "r = Waits")
    case True
    then have "w' = set_phase t Parking_out (w\<lparr>w_owner := Some t\<rparr>)"
      using run Pulling pull ow by simp
    then show ?thesis using set_phase_ok [OF ok t] True eff role ow by simp
  next
    case False
    then have fin: "finish t choice p evs w = Some w'"
      using run Pulling pull ow by (cases r) simp_all
    show ?thesis by (rule finish_ok [OF ok fin ow]) (use False eff in auto)
  qed
next
  case Closed_flag
  define w1 where "w1 = w\<lparr>w_phase := notify_all sleeps_in (notify_all sleeps_out (w_phase w))\<rparr>"
  have "woken_from (w_phase w) (w_phase w1)"
    unfolding w1_def by (simp add: woken_from_trans [OF woken_from_all woken_from_all])
  then have "world_ok c roles S w1"
    using ok phase_ok_woken_cases unfolding world_ok_def woken_from_def
    by (simp add: w1_def) blast
  moreover have "w' = set_phase t Closed_notified (w1\<lparr>w_owner := w_owner w1\<rparr>)"
    using run Closed_flag by (simp add: w1_def)
  moreover have "pp_closed (w_pipe w1)" using world_ok_phase [OF ok t] Closed_flag by (simp add: w1_def)
  ultimately show ?thesis using set_phase_ok [of c roles S w1 t "w_owner w1"] t by simp
next
  case Closed_notified
  have wf: "pp_wf c (w_pipe w)" using ok by (simp add: world_ok_def)
  have closed: "pp_closed (w_pipe w)" using world_ok_phase [OF ok t] Closed_notified by simp
  obtain p evs where clear: "pp_clear c (w_pipe w) = (p, evs)" by (cases "pp_clear c (w_pipe w)")
  have ow: "w_owner w = None" and fin: "finish t choice p evs w = Some w'"
    using run Closed_notified clear by (simp_all split: if_splits)
  show ?thesis
    by (rule finish_ok [OF ok fin ow]) (use pp_clear_eq [OF wf] clear closed in auto)
qed (use run in simp_all)

lemma make_move_ok:
  assumes ok: "world_ok c roles S w" and mv: "make_move c roles m w = Some w'"
  shows "world_ok c roles S w'"
proof (cases m)
  case (Call_push t x)
  then show ?thesis
    using mv set_phase_ok [OF ok, of t "w_owner w" "Pushing x"] by (simp split: if_splits)
next
  case (Call_pull t)
  then show ?thesis
    using mv set_phase_ok [OF ok, of t "w_owner w" Pulling] by (simp split: if_splits)
next
  case (Call_close t)
  define w1 where "w1 = w\<lparr>w_pipe := (w_pipe w)\<lparr>pp_closed := True\<rparr>\<rparr>"
  have "phase_ok roles ow (p\<lparr>pp_closed := True\<rparr>) u q" if "phase_ok roles ow p u q" for ow u q and p :: "'a pipe"
    using that by (cases q) (auto simp: pp_capacity_def)
  then have "world_ok c roles S w1"
    using ok by (auto simp: world_ok_def w1_def closed_wf)
  then show ?thesis
    using Call_close mv set_phase_ok [of c roles S w1 t "w_owner w1" Closed_flag]
    by (simp add: w1_def split: if_splits)
next
  case (Run t choice)
  then show ?thesis using mv run_thread_ok [OF ok] by (simp split: if_splits)
next
  case (Park t)
  then have t: "t < length roles" and park: "park_thread t (w_phase w ! t) w = Some w'"
    using mv by (simp_all split: if_splits)
  show ?thesis
    using park set_phase_ok [OF ok t, of None] world_ok_phase [OF ok t]
    by (cases "w_phase w ! t") auto
next
  case (Spurious t)
  then show ?thesis
    using mv set_phase_ok [OF ok, of t "w_owner w" "woken (w_phase w ! t)"]
      phase_ok_woken [OF world_ok_phase [OF ok]] by (simp split: if_splits)
qed

lemma reachable_ok: "reachable c roles S w \<Longrightarrow> 0 < S \<Longrightarrow> world_ok c roles S w"
  by (induction rule: reachable.induct) (auto intro: world_ok_start make_move_ok)

lemma pp_count_pos_items: "pp_count p = 0 \<Longrightarrow> pp_items p = []"
  by (simp add: pp_items_empty)

section \<open>Properties\<close>

text \<open>
  C4: in every reachable world a consumer that has no fellow consumer sleeps only while the
  pipeline is empty, and a producer that has no fellow producer sleeps only while it is full
  or closed: with one consumer no notification of \<^verbatim>\<open>push\<close> is lost, and with one producer none of
  \<^verbatim>\<open>pull\<close>, whatever spurious wake-ups happen. (A sleeper on a closed pipeline is not excluded:
  what \<^verbatim>\<open>close\<close> can miss is the subject of the last section.)
\<close>

theorem sole_sleepers_have_reason:
  assumes "reachable c roles S w" and "0 < S" and "t < length roles"
  shows "(sole Consumer roles \<and> w_phase w ! t = Asleep_out \<longrightarrow> pp_items (w_pipe w) = [])
    \<and> (sole Producer roles \<and> w_phase w ! t = Asleep_in x \<longrightarrow>
        pp_closed (w_pipe w) \<or> length (pp_items (w_pipe w)) = S)"
  using world_ok_phase [OF reachable_ok [OF assms(1,2)] assms(3)] reachable_ok [OF assms(1,2)]
  by (auto simp: pp_items_empty world_ok_def)

lemma sole_consumer_trace:
  "make_moves basic [Producer, Consumer] [Call_pull 1, Run 1 0, Park 1] (w_start basic [Producer, Consumer] 2)
   = Some \<lparr>w_pipe = \<lparr>pp_data = [0, 0], pp_head = 0, pp_tail = 0, pp_count = 0, pp_closed = False\<rparr>,
       w_phase = [Idle, Asleep_out], w_owner = None\<rparr>"
  by (simp add: run_simps)

theorem sole_sleepers_have_reason_witness:
  "reachable basic [Producer, Consumer] 2
      \<lparr>w_pipe = \<lparr>pp_data = [0, 0], pp_head = 0, pp_tail = 0, pp_count = 0, pp_closed = False\<rparr>,
       w_phase = [Idle, Asleep_out], w_owner = None\<rparr> \<and>
   pp_items \<lparr>pp_data = [0, 0 :: nat], pp_head = 0, pp_tail = 0, pp_count = 0, pp_closed = False\<rparr> = []"
  using sole_sleepers_have_reason [OF make_moves_reachable [OF reachable.start sole_consumer_trace], of 1 0]
    make_moves_reachable [OF reachable.start sole_consumer_trace]
  by (simp add: sole_def)

section \<open>Several producers or consumers\<close>

text \<open>Calls of one thread, each run before the next begins.\<close>

definition in_turn :: "nat \<Rightarrow> nat \<Rightarrow> 'a move list \<Rightarrow> 'a move list" where
  "in_turn t k calls = List.concat (map (\<lambda>m. [m, Run t k]) calls)"

lemma in_turn_simps [simp]:
  "in_turn t k [] = []" "in_turn t k (m # ms) = m # Run t k # in_turn t k ms"
  by (simp_all add: in_turn_def)

text \<open>A thread that may call: it exists, is idle, and nobody holds the mutex of the open pipeline.\<close>

definition may_call :: "'a config \<Rightarrow> role list \<Rightarrow> nat \<Rightarrow> role \<Rightarrow> 'a world \<Rightarrow> bool" where
  "may_call c roles t r w =
     (t < length roles \<and> roles ! t = r \<and> length (w_phase w) = length roles \<and> w_phase w ! t = Idle
      \<and> w_owner w = None \<and> pp_wf c (w_pipe w) \<and> \<not> pp_closed (w_pipe w))"

lemma may_call_reachable:
  "reachable c roles S w \<Longrightarrow> 0 < S \<Longrightarrow> t < length roles \<Longrightarrow> w_phase w ! t = Idle \<Longrightarrow> w_owner w = None
   \<Longrightarrow> \<not> pp_closed (w_pipe w) \<Longrightarrow> may_call c roles t (roles ! t) w \<and> pp_capacity (w_pipe w) = S"
  using reachable_ok [of c roles S w] by (simp add: may_call_def world_ok_def)

text \<open>One push with room: it notifies one consumer when the pipeline was empty, else nobody.\<close>

lemma push_once:
  fixes x :: 'a
  assumes call: "may_call c roles t Producer w" and room: "pp_count (w_pipe w) < pp_capacity (w_pipe w)"
    and sleeper: "pp_count (w_pipe w) = 0 \<Longrightarrow> k < length roles \<and> w_phase w ! k = Asleep_out"
  defines "w1 \<equiv> w\<lparr>w_pipe := fst (push_slot x (w_pipe w)),
    w_phase := if pp_count (w_pipe w) = 0 then (w_phase w)[k := Pulling] else w_phase w\<rparr>"
  shows "make_moves c roles (Call_push t x # Run t k # ms) w = make_moves c roles ms w1
    \<and> may_call c roles t Producer w1 \<and> pp_items (w_pipe w1) = pp_items (w_pipe w) @ [x]"
proof -
  have c: "t < length roles" "roles ! t = Producer" "length (w_phase w) = length roles" "w_phase w ! t = Idle"
      "w_owner w = None" "pp_wf c (w_pipe w)" "\<not> pp_closed (w_pipe w)"
    using call by (simp_all add: may_call_def)
  have again: "(w_phase w)[t := Idle] = w_phase w"
    using c(4) by (metis list_update_id)
  have wake: "deliver (snd (push_slot x (w_pipe w))) k (w_phase w) = Some (w_phase w1)"
    using sleeper c(3) by (auto simp: push_slot_def notify_one_def w1_def)
  have "make_moves c roles (Call_push t x # Run t k # ms) w = make_moves c roles ms w1"
    using c room wake by (simp add: case_prod_beta set_phase_def pp_push_def pipe_push_room finish_def again w1_def)
  moreover have "k \<noteq> t" if "pp_count (w_pipe w) = 0" using sleeper [OF that] c(4) by auto
  ultimately show ?thesis
    using c push_slot_wf [OF c(6) room, of x] push_slot_items [OF c(6) room, of x] by (simp add: may_call_def w1_def)
qed

text \<open>One pull of an item: it notifies one producer when the pipeline was full, else nobody.\<close>

lemma pull_once:
  assumes call: "may_call c roles t Consumer w" and some: "0 < pp_count (w_pipe w)"
    and sleeper: "pp_count (w_pipe w) = pp_capacity (w_pipe w) \<Longrightarrow> k < length roles \<and> w_phase w ! k = Asleep_in y"
  defines "w1 \<equiv> w\<lparr>w_pipe := behead c (w_pipe w),
    w_phase := if pp_count (w_pipe w) = pp_capacity (w_pipe w) then (w_phase w)[k := Pushing y] else w_phase w\<rparr>"
  shows "make_moves c roles (Call_pull t # Run t k # ms) w = make_moves c roles ms w1
    \<and> may_call c roles t Consumer w1 \<and> pp_items (w_pipe w1) = tl (pp_items (w_pipe w))"
proof -
  have c: "t < length roles" "roles ! t = Consumer" "length (w_phase w) = length roles" "w_phase w ! t = Idle"
      "w_owner w = None" "pp_wf c (w_pipe w)" "\<not> pp_closed (w_pipe w)"
    using call by (simp_all add: may_call_def)
  have again: "(w_phase w)[t := Idle] = w_phase w"
    using c(4) by (metis list_update_id)
  obtain r evs where pull: "pp_pull c (w_pipe w) = (Returned r, behead c (w_pipe w), evs)"
      "evs = (if pp_count (w_pipe w) = pp_capacity (w_pipe w) then [Input_one] else [])
        @ (if pp_count (w_pipe w) = 1 then [Notify False] else [])"
    using some c(7) by (simp add: pp_pull_eq)
  have wake: "deliver evs k (w_phase w) = Some (w_phase w1)"
    using sleeper c(3) unfolding pull(2) by (auto simp: notify_one_def w1_def)
  have "make_moves c roles (Call_pull t # Run t k # ms) w = make_moves c roles ms w1"
    using c wake by (simp add: set_phase_def pull(1) finish_def again w1_def)
  moreover have "k \<noteq> t" if "pp_count (w_pipe w) = pp_capacity (w_pipe w)" using sleeper [OF that] c(4) by auto
  ultimately show ?thesis
    using c behead_wf [OF c(6) some] behead_items [OF c(6) some] by (simp add: may_call_def w1_def)
qed

text \<open>Runs of them: after the first, a push finds items and a pull finds room, so nobody is notified.\<close>

lemma push_more:
  assumes "may_call c roles t Producer w" and "0 < pp_count (w_pipe w)"
    and "pp_count (w_pipe w) + length xs \<le> pp_capacity (w_pipe w)"
  shows "\<exists>p. make_moves c roles (in_turn t k (map (Call_push t) xs)) w = Some (w\<lparr>w_pipe := p\<rparr>)
    \<and> pp_items p = pp_items (w_pipe w) @ xs"
  using assms
proof (induction xs arbitrary: w)
  case Nil
  show ?case by (intro exI [of _ "w_pipe w"]) simp
next
  case (Cons x xs)
  define w1 where "w1 = w\<lparr>w_pipe := fst (push_slot x (w_pipe w))\<rparr>"
  have step: "make_moves c roles (Call_push t x # Run t k # ms) w = make_moves c roles ms w1
      \<and> may_call c roles t Producer w1 \<and> pp_items (w_pipe w1) = pp_items (w_pipe w) @ [x]" for ms
    using push_once [OF Cons.prems(1), of k x ms] Cons.prems(2,3) by (simp add: w1_def)
  obtain p where "make_moves c roles (in_turn t k (map (Call_push t) xs)) w1 = Some (w1\<lparr>w_pipe := p\<rparr>)"
      "pp_items p = pp_items (w_pipe w1) @ xs"
    using Cons.IH [OF conjunct1 [OF conjunct2 [OF step [of "[]"]]]] Cons.prems(3) by (auto simp: w1_def)
  then show ?case
    using step by (intro exI [of _ p]) (simp add: w1_def del: run_moves.simps)
qed

lemma pull_more:
  assumes "may_call c roles t Consumer w" and "pp_count (w_pipe w) < pp_capacity (w_pipe w)"
    and "n \<le> pp_count (w_pipe w)"
  shows "\<exists>p. make_moves c roles (in_turn t k (replicate n (Call_pull t))) w = Some (w\<lparr>w_pipe := p\<rparr>)
    \<and> pp_items p = drop n (pp_items (w_pipe w))"
  using assms
proof (induction n arbitrary: w)
  case 0
  show ?case by (intro exI [of _ "w_pipe w"]) simp
next
  case (Suc n)
  define w1 where "w1 = w\<lparr>w_pipe := behead c (w_pipe w)\<rparr>"
  have step: "make_moves c roles (Call_pull t # Run t k # ms) w = make_moves c roles ms w1
      \<and> may_call c roles t Consumer w1 \<and> pp_items (w_pipe w1) = tl (pp_items (w_pipe w))" for ms
    using pull_once [OF Suc.prems(1), of k undefined ms] Suc.prems(2,3) by (simp add: w1_def)
  have left: "pp_count (w_pipe w1) < pp_capacity (w_pipe w1)" "n \<le> pp_count (w_pipe w1)"
    using Suc.prems(2,3) by (simp_all add: w1_def)
  obtain p where "make_moves c roles (in_turn t k (replicate n (Call_pull t))) w1 = Some (w1\<lparr>w_pipe := p\<rparr>)"
      "pp_items p = drop n (pp_items (w_pipe w1))"
    using Suc.IH [OF conjunct1 [OF conjunct2 [OF step [of "[]"]]] left] by blast
  then show ?case
    using step by (intro exI [of _ p]) (simp add: w1_def drop_Suc del: run_moves.simps)
qed

lemma push_burst:
  assumes "may_call c roles t Producer w" and "xs \<noteq> []"
    and "pp_count (w_pipe w) + length xs \<le> pp_capacity (w_pipe w)"
    and "k < length roles" and "w_phase w ! k = Asleep_out"
  shows "\<exists>p. make_moves c roles (in_turn t k (map (Call_push t) xs)) w = Some (w\<lparr>w_pipe := p,
      w_phase := if pp_count (w_pipe w) = 0 then (w_phase w)[k := Pulling] else w_phase w\<rparr>)
    \<and> pp_items p = pp_items (w_pipe w) @ xs"
proof -
  obtain y ys where xs: "xs = y # ys" using assms(2) by (cases xs) auto
  define w1 where "w1 = w\<lparr>w_pipe := fst (push_slot y (w_pipe w)),
    w_phase := if pp_count (w_pipe w) = 0 then (w_phase w)[k := Pulling] else w_phase w\<rparr>"
  have step: "make_moves c roles (Call_push t y # Run t k # ms) w = make_moves c roles ms w1
      \<and> may_call c roles t Producer w1 \<and> pp_items (w_pipe w1) = pp_items (w_pipe w) @ [y]" for ms
    using push_once [OF assms(1), of k y ms] assms(3-5) xs unfolding w1_def by simp
  obtain p where "make_moves c roles (in_turn t k (map (Call_push t) ys)) w1 = Some (w1\<lparr>w_pipe := p\<rparr>)"
      "pp_items p = pp_items (w_pipe w1) @ ys"
    using push_more [OF conjunct1 [OF conjunct2 [OF step [of "[]"]]], of ys k] assms(3) xs by (auto simp: w1_def)
  then show ?thesis
    using step xs by (intro exI [of _ p]) (simp add: w1_def del: run_moves.simps)
qed

lemma pull_burst:
  assumes "may_call c roles t Consumer w" and "0 < n" and "n \<le> pp_count (w_pipe w)"
    and "k < length roles" and "w_phase w ! k = Asleep_in y"
  shows "\<exists>p. make_moves c roles (in_turn t k (replicate n (Call_pull t))) w = Some (w\<lparr>w_pipe := p,
      w_phase := if pp_count (w_pipe w) = pp_capacity (w_pipe w) then (w_phase w)[k := Pushing y] else w_phase w\<rparr>)
    \<and> pp_items p = drop n (pp_items (w_pipe w))"
proof -
  obtain m where n: "n = Suc m" using assms(2) by (cases n) auto
  define w1 where "w1 = w\<lparr>w_pipe := behead c (w_pipe w),
    w_phase := if pp_count (w_pipe w) = pp_capacity (w_pipe w) then (w_phase w)[k := Pushing y] else w_phase w\<rparr>"
  have step: "make_moves c roles (Call_pull t # Run t k # ms) w = make_moves c roles ms w1
      \<and> may_call c roles t Consumer w1 \<and> pp_items (w_pipe w1) = tl (pp_items (w_pipe w))" for ms
    using pull_once [OF assms(1), of k y ms] assms(2-5) unfolding w1_def by simp
  have "pp_count (w_pipe w) \<le> pp_capacity (w_pipe w)" using assms(1) by (simp add: may_call_def pp_wf_def)
  then have left: "pp_count (w_pipe w1) < pp_capacity (w_pipe w1)" "m \<le> pp_count (w_pipe w1)"
    using assms(2,3) n by (simp_all add: w1_def)
  obtain p where "make_moves c roles (in_turn t k (replicate m (Call_pull t))) w1 = Some (w1\<lparr>w_pipe := p\<rparr>)"
      "pp_items p = drop m (pp_items (w_pipe w1))"
    using pull_more [OF conjunct1 [OF conjunct2 [OF step [of "[]"]]] left, of k] by blast
  then show ?thesis
    using step n by (intro exI [of _ p]) (simp add: w1_def drop_Suc del: run_moves.simps)
qed

text \<open>
  C13: with several consumers (or producers) asleep, a burst of calls wakes at most one of them. A
  thread that pushes any number of items, as many as there is room for, wakes the consumer that its
  first notification chooses, when the pipeline was empty, and leaves every other thread as it
  is, however many items it brings; when the pipeline was not empty it wakes nobody. In the same way pulls
  wake one producer when the pipeline was full, however much room they make, and else none.
  The other sleepers wait on although there are items (or room) for them.
\<close>

theorem bursts_wake_one:
  assumes "reachable c roles S w" and "0 < S" and "t < length roles" and "w_phase w ! t = Idle"
    and "w_owner w = None" and "\<not> pp_closed (w_pipe w)" and "k < length roles"
  shows "(roles ! t = Producer \<and> w_phase w ! k = Asleep_out \<and> xs \<noteq> [] \<and> length (pp_items (w_pipe w)) + length xs \<le> S \<longrightarrow>
      (\<exists>p. make_moves c roles (in_turn t k (map (Call_push t) xs)) w = Some (w\<lparr>w_pipe := p,
          w_phase := if pp_items (w_pipe w) = [] then (w_phase w)[k := Pulling] else w_phase w\<rparr>)
        \<and> pp_items p = pp_items (w_pipe w) @ xs))
    \<and> (roles ! t = Consumer \<and> w_phase w ! k = Asleep_in y \<and> 0 < n \<and> n \<le> length (pp_items (w_pipe w)) \<longrightarrow>
      (\<exists>p. make_moves c roles (in_turn t k (replicate n (Call_pull t))) w = Some (w\<lparr>w_pipe := p,
          w_phase := if length (pp_items (w_pipe w)) = S then (w_phase w)[k := Pushing y] else w_phase w\<rparr>)
        \<and> pp_items p = drop n (pp_items (w_pipe w))))"
proof -
  have call: "may_call c roles t (roles ! t) w" "pp_capacity (w_pipe w) = S"
    using may_call_reachable [OF assms(1-6)] by simp_all
  show ?thesis
    unfolding pp_items_empty length_pp_items
  proof (intro conjI impI; elim conjE)
    assume "roles ! t = Producer" "w_phase w ! k = Asleep_out" "xs \<noteq> []" "pp_count (w_pipe w) + length xs \<le> S"
    then show "\<exists>p. make_moves c roles (in_turn t k (map (Call_push t) xs)) w = Some (w\<lparr>w_pipe := p,
          w_phase := if pp_count (w_pipe w) = 0 then (w_phase w)[k := Pulling] else w_phase w\<rparr>)
        \<and> pp_items p = pp_items (w_pipe w) @ xs"
      using push_burst [of c roles t w xs k] call assms(7) by simp
  next
    assume "roles ! t = Consumer" "w_phase w ! k = Asleep_in y" "0 < n" "n \<le> pp_count (w_pipe w)"
    then show "\<exists>p. make_moves c roles (in_turn t k (replicate n (Call_pull t))) w = Some (w\<lparr>w_pipe := p,
          w_phase := if pp_count (w_pipe w) = S then (w_phase w)[k := Pushing y] else w_phase w\<rparr>)
        \<and> pp_items p = drop n (pp_items (w_pipe w))"
      using pull_burst [of c roles t w n k y] call assms(7) by simp
  qed
qed

lemma sleeping_consumers_trace:
  "make_moves basic [Consumer, Consumer, Producer]
    [Call_pull 0, Run 0 0, Park 0, Call_pull 1, Run 1 0, Park 1] (w_start basic [Consumer, Consumer, Producer] 2)
   = Some \<lparr>w_pipe = \<lparr>pp_data = [0, 0], pp_head = 0, pp_tail = 0, pp_count = 0, pp_closed = False\<rparr>,
       w_phase = [Asleep_out, Asleep_out, Idle], w_owner = None\<rparr>"
  by (simp add: run_simps)

lemma sleeping_producers_trace:
  "make_moves basic [Producer, Producer, Consumer]
    [Call_push 0 5, Run 0 0, Call_push 0 6, Run 0 0, Call_push 0 7, Run 0 0, Park 0,
     Call_push 1 8, Run 1 0, Park 1] (w_start basic [Producer, Producer, Consumer] 2)
   = Some \<lparr>w_pipe = \<lparr>pp_data = [5, 6], pp_head = 0, pp_tail = 0, pp_count = 2, pp_closed = False\<rparr>,
       w_phase = [Asleep_in 7, Asleep_in 8, Idle], w_owner = None\<rparr>"
  by (simp add: run_simps)

theorem bursts_wake_one_witness:
  "(\<exists>w1. make_moves basic [Consumer, Consumer, Producer] (in_turn 2 0 (map (Call_push 2) [7, 8]))
      \<lparr>w_pipe = \<lparr>pp_data = [0, 0], pp_head = 0, pp_tail = 0, pp_count = 0, pp_closed = False\<rparr>,
       w_phase = [Asleep_out, Asleep_out, Idle], w_owner = None\<rparr> = Some w1
      \<and> w_phase w1 = [Pulling, Asleep_out, Idle] \<and> pp_items (w_pipe w1) = [7, 8])
   \<and> (\<exists>w1. make_moves basic [Producer, Producer, Consumer] (in_turn 2 1 (replicate 2 (Call_pull 2)))
      \<lparr>w_pipe = \<lparr>pp_data = [5, 6], pp_head = 0, pp_tail = 0, pp_count = 2, pp_closed = False\<rparr>,
       w_phase = [Asleep_in 7, Asleep_in 8, Idle], w_owner = None\<rparr> = Some w1
      \<and> w_phase w1 = [Asleep_in 7, Pushing 8, Idle] \<and> pp_items (w_pipe w1) = [])"
  using bursts_wake_one [OF make_moves_reachable [OF reachable.start sleeping_consumers_trace], of 2 0 "[7, 8]"]
    bursts_wake_one [OF make_moves_reachable [OF reachable.start sleeping_producers_trace], of 2 1 "[]" 8 2]
  by (auto simp: pp_items_def window_def simp del: in_turn_simps)

text \<open>
  Two runs: two consumers sleep, two items come, and after the first consumer has its item the
  other sleeps on while an item is there, the pipeline is open and every other thread is idle;
  and the same with a producer while there is room.
\<close>

lemma lost_wakeup_reachable:
  "(\<exists>w. reachable basic [Consumer, Consumer, Producer] 2 w \<and> w_phase w = [Idle, Asleep_out, Idle] \<and>
      pp_items (w_pipe w) = [8] \<and> \<not> pp_closed (w_pipe w)) \<and>
   (\<exists>w. reachable basic [Producer, Producer, Consumer] 2 w \<and> w_phase w = [Idle, Asleep_in 8, Idle] \<and>
      length (pp_items (w_pipe w)) < 2 \<and> \<not> pp_closed (w_pipe w))"
proof
  show "\<exists>w. reachable basic [Consumer, Consumer, Producer] 2 w \<and> w_phase w = [Idle, Asleep_out, Idle] \<and>
      pp_items (w_pipe w) = [8] \<and> \<not> pp_closed (w_pipe w)"
    using make_moves_reachable [OF reachable.start two_consumers_trace]
    by (intro exI conjI, assumption) (simp_all add: pp_items_def window_def)
  show "\<exists>w. reachable basic [Producer, Producer, Consumer] 2 w \<and> w_phase w = [Idle, Asleep_in 8, Idle] \<and>
      length (pp_items (w_pipe w)) < 2 \<and> \<not> pp_closed (w_pipe w)"
    using make_moves_reachable [OF reachable.start two_producers_trace]
    by (intro exI conjI, assumption) simp_all
qed

section \<open>Closing\<close>

text \<open>A thread that sleeps, or has decided to while it still holds the mutex.\<close>

definition sleeping :: "'a phase \<Rightarrow> bool" where
  "sleeping q = (sleeps_in q \<or> sleeps_out q)"

fun parking :: "'a phase \<Rightarrow> bool" where
  "parking (Parking_in x) = True"
| "parking Parking_out = True"
| "parking _ = False"

definition resting :: "'a phase \<Rightarrow> bool" where
  "resting q = (sleeping q \<or> parking q)"

lemma resting_simps [simp]:
  "\<not> resting Idle" "\<not> resting (Pushing x)" "\<not> resting Pulling" "\<not> resting Closed_flag" "\<not> resting Closed_notified"
  "resting (Parking_in x)" "resting Parking_out" "resting (Asleep_in x)" "resting Asleep_out"
  "resting (woken q) = parking q"
  by (simp_all add: resting_def sleeping_def) (cases q; simp)

lemma parking_owns: "phase_ok roles ow p t q \<Longrightarrow> parking q \<Longrightarrow> ow = Some t"
  by (cases q) simp_all

lemma resting_woken: "resting (woken q) \<Longrightarrow> resting q"
  by (cases q) simp_all

lemma woken_from_resting: "woken_from ps qs \<Longrightarrow> u < length ps \<Longrightarrow> resting (qs ! u) \<Longrightarrow> resting (ps ! u)"
  unfolding woken_from_def using resting_woken by metis

text \<open>On a closed pipeline no thread decides to sleep any more.\<close>

lemma finish_resting:
  assumes "finish t choice p evs w = Some w'" and "t < length (w_phase w)" and "u < length (w_phase w)"
  shows "w_pipe w' = p \<and> (resting (w_phase w' ! u) \<longrightarrow> resting (w_phase w ! u))"
proof -
  obtain qs where qs: "deliver evs choice ((w_phase w)[t := Idle]) = Some qs" "w' = w\<lparr>w_pipe := p, w_phase := qs\<rparr>"
    using assms(1) by (auto simp: finish_def)
  then show ?thesis
    using woken_from_resting [OF deliver_woken [OF qs(1)], of u] assms(2,3)
    by (cases "u = t") auto
qed

lemma run_closed:
  assumes "pp_closed (w_pipe w)" and "pp_wf c (w_pipe w)" and "t < length (w_phase w)" and "u < length (w_phase w)"
    and "run_thread c t choice (w_phase w ! t) w = Some w'"
  shows "pp_closed (w_pipe w') \<and> (resting (w_phase w' ! u) \<longrightarrow> resting (w_phase w ! u))"
proof (cases "w_phase w ! t")
  case (Pushing x)
  then have "finish t choice (w_pipe w) [] w = Some w'"
    using assms(1,5) by (simp add: pp_push_def pipe_push_closed split: if_splits)
  from finish_resting [OF this assms(3,4)] show ?thesis using assms(1) by simp
next
  case Pulling
  then have "finish t choice (w_pipe w) [] w = Some w'"
    using assms(1,5) by (simp add: pp_pull_eq split: if_splits)
  from finish_resting [OF this assms(3,4)] show ?thesis using assms(1) by simp
next
  case Closed_flag
  then have "w' = set_phase t Closed_notified
      (w\<lparr>w_phase := notify_all sleeps_in (notify_all sleeps_out (w_phase w))\<rparr>)"
    using assms(5) by simp
  then show ?thesis
    using woken_from_resting [OF woken_from_trans [OF woken_from_all woken_from_all], of u "w_phase w"] assms(1,3,4)
    by (cases "u = t") (auto simp: set_phase_def)
next
  case Closed_notified
  obtain p evs where clear: "pp_clear c (w_pipe w) = (p, evs)" by (cases "pp_clear c (w_pipe w)")
  then have "finish t choice p evs w = Some w'"
    using assms(5) Closed_notified by (simp split: if_splits)
  moreover have "pp_closed p" using pp_clear_eq [OF assms(2)] clear assms(1) by auto
  ultimately show ?thesis using finish_resting [OF _ assms(3,4)] by blast
qed (use assms(5) in simp_all)

lemma move_closed:
  assumes "pp_closed (w_pipe w)" and "world_ok c roles S w" and "u < length roles"
    and "make_move c roles m w = Some w'"
  shows "pp_closed (w_pipe w') \<and> (resting (w_phase w' ! u) \<longrightarrow> resting (w_phase w ! u))"
proof -
  have len: "length (w_phase w) = length roles" and wf: "pp_wf c (w_pipe w)"
    using assms(2) by (simp_all add: world_ok_def)
  have one: "resting ((w_phase w)[t := q] ! u) \<longrightarrow> resting (w_phase w ! u)"
    if "resting q \<Longrightarrow> resting (w_phase w ! t)" for t q
    using that assms(3) len by (cases "u = t") simp_all
  show ?thesis
  proof (cases m)
    case (Call_push t x)
    then show ?thesis using assms(1,4) one [of "Pushing x" t] by (auto simp: set_phase_def split: if_splits)
  next
    case (Call_pull t)
    then show ?thesis using assms(1,4) one [of Pulling t] by (auto simp: set_phase_def split: if_splits)
  next
    case (Run t choice)
    then show ?thesis
      using run_closed [OF assms(1) wf, of t u choice w'] assms(3,4) len by (simp split: if_splits)
  next
    case (Park t)
    then show ?thesis
      using assms(1,4) one [of "Asleep_in x" t for x] one [of Asleep_out t]
      by (cases "w_phase w ! t") (auto simp: set_phase_def split: if_splits)
  next
    case (Spurious t)
    then have "w' = set_phase t (woken (w_phase w ! t)) w" "t < length roles"
      using assms(4) by (simp_all split: if_splits)
    moreover have "resting ((w_phase w)[t := woken (w_phase w ! t)] ! u) \<longrightarrow> resting (w_phase w ! u)"
      by (rule one) (rule resting_woken)
    ultimately show ?thesis using assms(1) by (simp add: set_phase_def)
  qed (use assms(1,4) in \<open>simp split: if_splits\<close>)
qed

text \<open>What holds from the closing on: thread \<open>u\<close> rests only if it did so at some moment \<open>w0\<close>.\<close>

definition closed_since :: "'a config \<Rightarrow> role list \<Rightarrow> nat \<Rightarrow> nat \<Rightarrow> 'a world \<Rightarrow> 'a world \<Rightarrow> bool" where
  "closed_since c roles S u w0 w =
     (world_ok c roles S w \<and> u < length roles \<and> pp_closed (w_pipe w)
      \<and> (resting (w_phase w ! u) \<longrightarrow> resting (w_phase w0 ! u)))"

interpretation closing: run_invariant "make_move c roles" "closed_since c roles S u w0" "\<lambda>_. False"
  for c roles S u w0
  by unfold_locales (auto simp: closed_since_def intro: make_move_ok dest: move_closed)

lemma closed_refuses:
  assumes "pp_closed (w_pipe w)" and "u < length roles" and "w_owner w = None"
    and "w_phase w ! u = Pulling \<or> w_phase w ! u = Pushing x"
  shows "make_move c roles (Run u j) w = Some (set_phase u Idle w)"
  using assms by (auto simp: pp_push_def pipe_push_closed pp_pull_eq finish_def set_phase_def)

text \<open>
  C14: what \<^verbatim>\<open>close\<close> wakes and what it misses. In every reachable world the step that notifies after the
  flag was set wakes each sleeper of that moment and changes no other thread but the
  closing one. From then on, in every run, the pipeline stays closed, a woken thread
  that gets the mutex returns, and a thread can be asleep only if at the moment of
  the notification it held the mutex and had already decided to sleep: because the flag is set and the
  sleepers are notified without the mutex, that one thread can be missed, and no other.
\<close>

theorem close_misses_only_the_parking:
  assumes "reachable c roles S w" and "0 < S" and "t < length roles" and "w_phase w ! t = Closed_flag"
    and "make_move c roles (Run t k) w = Some w1" and "make_moves c roles ms w1 = Some w2" and "u < length roles"
  shows "w_phase w1 ! u = (if u = t then Closed_notified else woken (w_phase w ! u))
    \<and> pp_closed (w_pipe w2)
    \<and> (sleeping (w_phase w2 ! u) \<longrightarrow> parking (w_phase w ! u) \<and> w_owner w = Some u)
    \<and> (w_owner w2 = None \<and> (w_phase w2 ! u = Pulling \<or> w_phase w2 ! u = Pushing x) \<longrightarrow>
        make_move c roles (Run u j) w2 = Some (set_phase u Idle w2))"
proof -
  have ok: "world_ok c roles S w" by (rule reachable_ok [OF assms(1,2)])
  then have len: "length (w_phase w) = length roles" by (simp add: world_ok_def)
  have closed: "pp_closed (w_pipe w)" using world_ok_phase [OF ok assms(3)] assms(4) by simp
  have w1: "w1 = set_phase t Closed_notified
      (w\<lparr>w_phase := notify_all sleeps_in (notify_all sleeps_out (w_phase w))\<rparr>)"
    using assms(3-5) by simp
  have woke: "w_phase w1 ! u = (if u = t then Closed_notified else woken (w_phase w ! u))"
    using len assms(3,7) by (cases "w_phase w ! u") (auto simp: w1 set_phase_def notify_all_def nth_list_update)
  have "closed_since c roles S u w1 w1"
    using make_move_ok [OF ok assms(5)] closed assms(7) by (simp add: closed_since_def w1 set_phase_def)
  then have since: "closed_since c roles S u w1 w2" using closing.run_inv [OF _ assms(6)] by simp
  have "parking (w_phase w ! u)" if "sleeping (w_phase w2 ! u)"
    using that since woke by (auto simp: closed_since_def resting_def [of "w_phase w2 ! u"] split: if_splits)
  then show ?thesis
    using woke since closed_refuses [of w2 u roles x c j] parking_owns [OF world_ok_phase [OF ok assms(7)]]
    by (auto simp: closed_since_def)
qed

text \<open>
  Such a run: a consumer has found the pipeline open and empty and holds the mutex; the flag is
  set and the sleepers are notified; the consumer goes to sleep, and the closing call returns.
\<close>

lemma close_begins_trace:
  "make_moves basic [Consumer, Consumer, Producer]
    [Call_pull 1, Run 1 0, Park 1, Call_pull 0, Run 0 0, Call_close 2] (w_start basic [Consumer, Consumer, Producer] 2)
   = Some \<lparr>w_pipe = \<lparr>pp_data = [0, 0], pp_head = 0, pp_tail = 0, pp_count = 0, pp_closed = True\<rparr>,
       w_phase = [Parking_out, Asleep_out, Closed_flag], w_owner = Some 0\<rparr>"
  by (simp add: run_simps)

theorem close_misses_only_the_parking_witness:
  "\<exists>w1 w2. make_move basic [Consumer, Consumer, Producer] (Run 2 0)
      \<lparr>w_pipe = \<lparr>pp_data = [0, 0], pp_head = 0, pp_tail = 0, pp_count = 0, pp_closed = True\<rparr>,
       w_phase = [Parking_out, Asleep_out, Closed_flag], w_owner = Some 0\<rparr> = Some w1
    \<and> make_moves basic [Consumer, Consumer, Producer] [Park 0, Run 2 0] w1 = Some w2
    \<and> w_phase w2 = [Asleep_out, Pulling, Idle] \<and> w_phase w1 ! 1 = Pulling
    \<and> make_move basic [Consumer, Consumer, Producer] (Run 1 0) w2 = Some (set_phase 1 Idle w2)"
proof -
  let ?roles = "[Consumer, Consumer, Producer]"
  let ?w = "\<lparr>w_pipe = \<lparr>pp_data = [0, 0], pp_head = 0, pp_tail = 0, pp_count = 0, pp_closed = True\<rparr>,
       w_phase = [Parking_out, Asleep_out, Closed_flag], w_owner = Some 0\<rparr> :: nat world"
  define w1 where "w1 = ?w\<lparr>w_phase := [Parking_out, Pulling, Closed_notified]\<rparr>"
  define w2 where "w2 = ?w\<lparr>w_phase := [Asleep_out, Pulling, Idle], w_owner := None\<rparr>"
  have 1: "make_move basic ?roles (Run 2 0) ?w = Some w1"
    by (simp add: w1_def set_phase_def notify_all_def)
  have 2: "make_moves basic ?roles [Park 0, Run 2 0] w1 = Some w2"
    by (simp add: w1_def w2_def run_simps pp_clear_def clear_loop.simps)
  show ?thesis
    using close_misses_only_the_parking
        [OF make_moves_reachable [OF reachable.start close_begins_trace] _ _ _ 1 2, of 1 0 0] 1 2
    by (intro exI [of _ w1] exI [of _ w2]) (simp add: w2_def)
qed

text \<open>The thread that is missed may sleep for good: the pipeline is closed, all others are idle.\<close>

lemma close_misses_sleeper:
  "\<exists>w. reachable basic [Consumer, Producer] 2 w \<and> w_phase w = [Asleep_out, Idle] \<and> pp_closed (w_pipe w)"
  using make_moves_reachable [OF reachable.start close_race_trace]
  by (intro exI conjI, assumption) simp_all

end
