(* ===== verification/Scope_Contract.thy ===== *)
theory Scope_Contract
  imports Prelude "HOL-Library.Multiset"
begin

text \<open>
  What a movable scope object promises: it holds at most one duty (a handle to close, a
  mutex to unlock, a group to leave), moving hands the duty over, assigning over a scope
  discharges its own duty first, and the end of its life discharges what it holds. The
  lemmas say that in any program of such objects every duty is discharged exactly once.
  \<open>Locking\<close>, \<open>Sync_Scopes\<close>, \<open>Handles\<close>, \<open>Timer\<close> and \<open>Fsys\<close> interpret the locale on the
  library's classes.
\<close>

lemma carry_over:
  fixes a :: "'a multiset"
  assumes "a + t1 = b + d1" and "b + t2 = c + d2"
  shows "a + (t1 + t2) = c + (d1 + d2)"
proof -
  have "a + (t1 + t2) = (b + d1) + t2" using assms(1) by (simp flip: add.assoc)
  also have "\<dots> = (b + t2) + d1" by (simp add: ac_simps)
  also have "\<dots> = c + (d1 + d2)" unfolding assms(2) by (simp add: ac_simps)
  finally show ?thesis .
qed

text \<open>The objects alive are slots of a store; a slot without an object is \<open>None\<close>.\<close>

datatype 'a scope_call =
    Construct nat 'a
  | Move_construct nat nat
  | Move_assign nat nat
  | Destroy nat

text \<open>
  The operations of a scope class: the constructor and what it takes on, the move
  constructor (the new object and what is left of the old one), the move assignment (the
  target, what is left of the source, the duties discharged), the destructor.
\<close>

record ('a, 'd, 's) scope_ops =
  so_takes :: "'a \<Rightarrow> 'd option"
  so_make :: "'a \<Rightarrow> 's"
  so_move :: "'s \<Rightarrow> 's \<times> 's"
  so_assign :: "'s \<Rightarrow> 's \<Rightarrow> 's \<times> 's \<times> 'd list"
  so_finish :: "'s \<Rightarrow> 'd list"

definition duty_list :: "'d option \<Rightarrow> 'd list" where
  "duty_list h = (case h of None \<Rightarrow> [] | Some d \<Rightarrow> [d])"

lemma duty_list_simps [simp]: "duty_list None = []" "duty_list (Some d) = [d]"
  by (simp_all add: duty_list_def)

text \<open>
  A call that the language does not allow (an object constructed where one lives, a use of
  a slot without an object) changes nothing. Assigning an object to itself returns at once.
\<close>

fun scope_step :: "('a, 'd, 's) scope_ops \<Rightarrow> 'a scope_call \<Rightarrow> 's option list \<Rightarrow> 's option list \<times> 'd list" where
  "scope_step ops (Construct i a) st =
     (if i < length st \<and> st ! i = None then (st[i := Some (so_make ops a)], []) else (st, []))"
| "scope_step ops (Move_construct i j) st =
     (if i < length st \<and> j < length st \<and> i \<noteq> j \<and> st ! i = None
      then case st ! j of
        None \<Rightarrow> (st, [])
      | Some s \<Rightarrow> (case so_move ops s of (new, old) \<Rightarrow> (st[i := Some new, j := Some old], []))
      else (st, []))"
| "scope_step ops (Move_assign i j) st =
     (if i < length st \<and> j < length st \<and> i \<noteq> j
      then case st ! i of
        None \<Rightarrow> (st, [])
      | Some t \<Rightarrow> (case st ! j of
          None \<Rightarrow> (st, [])
        | Some s \<Rightarrow> (case so_assign ops t s of (t', s', ds) \<Rightarrow> (st[i := Some t', j := Some s'], ds)))
      else (st, []))"
| "scope_step ops (Destroy i) st =
     (if i < length st then case st ! i of None \<Rightarrow> (st, []) | Some s \<Rightarrow> (st[i := None], so_finish ops s)
      else (st, []))"

fun taken_on :: "('a, 'd, 's) scope_ops \<Rightarrow> 'a scope_call \<Rightarrow> 's option list \<Rightarrow> 'd list" where
  "taken_on ops (Construct i a) st = (if i < length st \<and> st ! i = None then duty_list (so_takes ops a) else [])"
| "taken_on ops _ st = []"

text \<open>A program of calls: the store it leaves, the duties taken on, the duties discharged.\<close>

fun scope_run :: "('a, 'd, 's) scope_ops \<Rightarrow> 'a scope_call list \<Rightarrow> 's option list
    \<Rightarrow> 's option list \<times> 'd list \<times> 'd list" where
  "scope_run ops [] st = (st, [], [])"
| "scope_run ops (c # cs) st =
     (case scope_step ops c st of (st1, ds) \<Rightarrow>
       case scope_run ops cs st1 of (st2, tk, ds2) \<Rightarrow> (st2, taken_on ops c st @ tk, ds @ ds2))"

text \<open>
  The weaker contract: an assignment neither loses nor repeats a duty, but may leave both
  objects as they are.
\<close>

locale owner =
  fixes ops :: "('a, 'd, 's) scope_ops"
    and held :: "'s \<Rightarrow> 'd option"
  assumes own_make: "held (so_make ops a) = so_takes ops a"
    and own_move: "held (fst (so_move ops s)) = held s" "held (snd (so_move ops s)) = None"
    and own_assign: "so_assign ops t s = (t', s', ds) \<Longrightarrow>
      mset (duty_list (held t')) + mset (duty_list (held s')) + mset ds
      = mset (duty_list (held t)) + mset (duty_list (held s))"
    and own_finish: "so_finish ops s = duty_list (held s)"
begin

definition duties :: "'s option \<Rightarrow> 'd multiset" where
  "duties x = (case x of None \<Rightarrow> {#} | Some s \<Rightarrow> mset (duty_list (held s)))"

definition all_duties :: "'s option list \<Rightarrow> 'd multiset" where
  "all_duties st = sum_list (map duties st)"

lemma all_duties_update:
  "i < length st \<Longrightarrow> all_duties (st[i := x]) + duties (st ! i) = all_duties st + duties x"
proof (induction st arbitrary: i)
  case (Cons y st)
  show ?case
  proof (cases i)
    case 0
    then show ?thesis by (simp add: all_duties_def ac_simps)
  next
    case (Suc k)
    then show ?thesis using Cons.IH [of k] Cons.prems by (simp add: all_duties_def add.assoc)
  qed
qed simp

lemma duties_simps [simp]:
  "duties None = {#}" "duties (Some s) = mset (duty_list (held s))"
  by (simp_all add: duties_def)

lemma move_duties:
  "so_move ops s = (new, old) \<Longrightarrow> held new = held s \<and> held old = None"
  using own_move [of s] by simp

lemma update_two:
  assumes "i < length st" and "j < length st" and "i \<noteq> j"
  shows "all_duties (st[i := x, j := y]) + duties (st ! i) + duties (st ! j)
    = all_duties st + duties x + duties y"
proof -
  have "all_duties (st[i := x, j := y]) + duties (st ! j) = all_duties (st[i := x]) + duties y"
    using all_duties_update [of j "st[i := x]" y] assms by simp
  moreover have "all_duties (st[i := x]) + duties (st ! i) = all_duties st + duties x"
    using all_duties_update [OF assms(1)] .
  ultimately show ?thesis by (metis (no_types, lifting) add.assoc add.commute)
qed

lemma step_conserves:
  assumes "scope_step ops c st = (st', ds)"
  shows "all_duties st + mset (taken_on ops c st) = all_duties st' + mset ds \<and> length st' = length st"
proof (cases c)
  case (Construct i a)
  then show ?thesis
    using assms all_duties_update [of i st "Some (so_make ops a)"] own_make by (auto split: if_splits)
next
  case (Move_construct i j)
  show ?thesis
  proof (cases "i < length st \<and> j < length st \<and> i \<noteq> j \<and> st ! i = None \<and> st ! j \<noteq> None")
    case True
    then obtain s where s: "st ! j = Some s" by auto
    obtain new old where m: "so_move ops s = (new, old)" by (cases "so_move ops s")
    then show ?thesis
      using assms Move_construct True s update_two [of i st j "Some new" "Some old"] move_duties [OF m] by auto
  next
    case False
    then show ?thesis using assms Move_construct by (auto split: if_splits option.splits)
  qed
next
  case (Move_assign i j)
  show ?thesis
  proof (cases "i < length st \<and> j < length st \<and> i \<noteq> j \<and> st ! i \<noteq> None \<and> st ! j \<noteq> None")
    case True
    then obtain t s where s: "st ! i = Some t" "st ! j = Some s" by auto
    obtain t' s' es where m: "so_assign ops t s = (t', s', es)" by (cases "so_assign ops t s")
    then have eq: "st' = st[i := Some t', j := Some s']" "ds = es" "taken_on ops c st = []"
      using assms Move_assign True s by auto
    have "all_duties st' + (duties (Some t) + duties (Some s)) = all_duties st + (duties (Some t') + duties (Some s'))"
      using update_two [of i st j "Some t'" "Some s'"] True s eq by (simp add: add.assoc)
    also have "duties (Some t) + duties (Some s) = duties (Some t') + duties (Some s') + mset ds"
      using own_assign [OF m] eq by simp
    finally show ?thesis using eq by (simp add: ac_simps)
  next
    case False
    then show ?thesis using assms Move_assign by (auto split: if_splits option.splits)
  qed
next
  case (Destroy i)
  then show ?thesis
    using assms all_duties_update [of i st None] own_finish
    by (auto split: if_splits option.splits)
qed

lemma run_conserves:
  "scope_run ops cs st = (st', tk, ds) \<Longrightarrow> all_duties st + mset tk = all_duties st' + mset ds"
proof (induction cs arbitrary: st tk ds)
  case (Cons c cs)
  obtain st1 ds1 where 1: "scope_step ops c st = (st1, ds1)" by (cases "scope_step ops c st")
  obtain tk2 ds2 where 2: "scope_run ops cs st1 = (st', tk2, ds2)" and eq: "tk = taken_on ops c st @ tk2" "ds = ds1 @ ds2"
    using Cons.prems 1 by (auto split: prod.splits)
  from carry_over [OF conjunct1 [OF step_conserves [OF 1]] Cons.IH [OF 2]] show ?case by (simp add: eq)
qed simp

text \<open>From an empty store to an empty store, what was discharged is what was taken on.\<close>

lemma all_duties_none: "all_duties (replicate n None) = {#}"
  by (induction n) (simp_all add: all_duties_def)

lemma run_discharges_all:
  assumes "scope_run ops cs (replicate n None) = (replicate n None, tk, ds)"
  shows "mset ds = mset tk"
  using run_conserves [OF assms] by (simp add: all_duties_none)

end

text \<open>The full contract: the target discharges its own duty and takes over that of the source.\<close>

locale scope =
  fixes ops :: "('a, 'd, 's) scope_ops"
    and held :: "'s \<Rightarrow> 'd option"
  assumes held_make: "held (so_make ops a) = so_takes ops a"
    and held_move: "held (fst (so_move ops s)) = held s" "held (snd (so_move ops s)) = None"
    and held_assign: "held (fst (so_assign ops t s)) = held s" "held (fst (snd (so_assign ops t s))) = None"
    and assign_discharges: "snd (snd (so_assign ops t s)) = duty_list (held t)"
    and finish_discharges: "so_finish ops s = duty_list (held s)"

sublocale scope \<subseteq> owner ops held
proof
  fix t s t' s' ds
  assume "so_assign ops t s = (t', s', ds)"
  then have "held t' = held s" "held s' = None" "ds = duty_list (held t)"
    using held_assign [of t s] assign_discharges [of t s] by simp_all
  then show "mset (duty_list (held t')) + mset (duty_list (held s')) + mset ds
      = mset (duty_list (held t)) + mset (duty_list (held s))" by simp
qed (simp_all add: held_make held_move finish_discharges)

subsection \<open>Scopes that can discharge early\<close>

text \<open>
  Some scope classes have members that discharge the duty before the object ends
  (\<open>close\<close>, \<open>wait\<close>, \<open>drop\<close>); \<open>'e\<close> names them.
\<close>

datatype ('a, 'e) early_call = Call "'a scope_call" | Early nat 'e

fun early_step :: "('a, 'd, 's) scope_ops \<Rightarrow> ('e \<Rightarrow> 's \<Rightarrow> 's \<times> 'd list) \<Rightarrow> ('a, 'e) early_call
    \<Rightarrow> 's option list \<Rightarrow> 's option list \<times> 'd list" where
  "early_step ops ef (Call c) st = scope_step ops c st"
| "early_step ops ef (Early i e) st =
     (if i < length st
      then case st ! i of None \<Rightarrow> (st, []) | Some s \<Rightarrow> (case ef e s of (s', ds) \<Rightarrow> (st[i := Some s'], ds))
      else (st, []))"

fun early_taken :: "('a, 'd, 's) scope_ops \<Rightarrow> ('a, 'e) early_call \<Rightarrow> 's option list \<Rightarrow> 'd list" where
  "early_taken ops (Call c) st = taken_on ops c st"
| "early_taken ops (Early i e) st = []"

fun early_run :: "('a, 'd, 's) scope_ops \<Rightarrow> ('e \<Rightarrow> 's \<Rightarrow> 's \<times> 'd list) \<Rightarrow> ('a, 'e) early_call list
    \<Rightarrow> 's option list \<Rightarrow> 's option list \<times> 'd list \<times> 'd list" where
  "early_run ops ef [] st = (st, [], [])"
| "early_run ops ef (c # cs) st =
     (case early_step ops ef c st of (st1, ds) \<Rightarrow>
       case early_run ops ef cs st1 of (st2, tk, ds2) \<Rightarrow> (st2, early_taken ops c st @ tk, ds @ ds2))"

locale early_scope = scope ops held
  for ops :: "('a, 'd, 's) scope_ops" and held :: "'s \<Rightarrow> 'd option" +
  fixes early :: "'e \<Rightarrow> 's \<Rightarrow> 's \<times> 'd list"
  assumes early_held: "held (fst (early e s)) = None"
    and early_discharges: "snd (early e s) = duty_list (held s)"
begin

lemma early_step_conserves:
  assumes "early_step ops early c st = (st', ds)"
  shows "all_duties st + mset (early_taken ops c st) = all_duties st' + mset ds"
proof (cases c)
  case (Call d)
  then show ?thesis using assms step_conserves by auto
next
  case (Early i e)
  show ?thesis
  proof (cases "i < length st \<and> st ! i \<noteq> None")
    case True
    then obtain s where s: "i < length st" "st ! i = Some s" by auto
    obtain s' es where es: "early e s = (s', es)" by (cases "early e s")
    then show ?thesis
      using assms Early s all_duties_update [OF s(1), of "Some s'"] early_held [of e s] early_discharges [of e s]
      by simp
  next
    case False
    then show ?thesis using assms Early by (auto split: if_splits)
  qed
qed

lemma early_run_conserves:
  "early_run ops early cs st = (st', tk, ds) \<Longrightarrow> all_duties st + mset tk = all_duties st' + mset ds"
proof (induction cs arbitrary: st tk ds)
  case (Cons c cs)
  obtain st1 ds1 where 1: "early_step ops early c st = (st1, ds1)" by (cases "early_step ops early c st")
  obtain tk2 ds2 where 2: "early_run ops early cs st1 = (st', tk2, ds2)"
      and eq: "tk = early_taken ops c st @ tk2" "ds = ds1 @ ds2"
    using Cons.prems 1 by (auto split: prod.splits)
  from carry_over [OF early_step_conserves [OF 1] Cons.IH [OF 2]] show ?case by (simp add: eq)
qed simp

lemma early_run_discharges_all:
  assumes "early_run ops early cs (replicate n None) = (replicate n None, tk, ds)"
  shows "mset ds = mset tk"
  using early_run_conserves [OF assms] by (simp add: all_duties_none)

end

subsection \<open>Scopes whose duty can be handed out or replaced\<close>

text \<open>
  An object may also hand its duty to the caller, who answers for it from then on, or take on
  another one while it lives (\<open>release\<close>, an assignment of the bare resource). Such a member
  gives the object it leaves, the duties discharged and the duties handed out.
\<close>

fun act_step :: "('a, 'd, 's) scope_ops \<Rightarrow> ('e \<Rightarrow> 's \<Rightarrow> 's \<times> 'd list \<times> 'd list) \<Rightarrow> ('a, 'e) early_call
    \<Rightarrow> 's option list \<Rightarrow> 's option list \<times> 'd list \<times> 'd list" where
  "act_step ops act (Call c) st = (case scope_step ops c st of (st', ds) \<Rightarrow> (st', ds, []))"
| "act_step ops act (Early i e) st =
     (if i < length st
      then case st ! i of
        None \<Rightarrow> (st, [], [])
      | Some s \<Rightarrow> (case act e s of (s', ds, gs) \<Rightarrow> (st[i := Some s'], ds, gs))
      else (st, [], []))"

fun act_taken :: "('a, 'd, 's) scope_ops \<Rightarrow> ('e \<Rightarrow> 's \<Rightarrow> 'd list) \<Rightarrow> ('a, 'e) early_call
    \<Rightarrow> 's option list \<Rightarrow> 'd list" where
  "act_taken ops gain (Call c) st = taken_on ops c st"
| "act_taken ops gain (Early i e) st =
     (if i < length st then case st ! i of None \<Rightarrow> [] | Some s \<Rightarrow> gain e s else [])"

text \<open>The store that a program leaves, the duties taken on, discharged, and handed out.\<close>

fun act_run :: "('a, 'd, 's) scope_ops \<Rightarrow> ('e \<Rightarrow> 's \<Rightarrow> 's \<times> 'd list \<times> 'd list) \<Rightarrow> ('e \<Rightarrow> 's \<Rightarrow> 'd list)
    \<Rightarrow> ('a, 'e) early_call list \<Rightarrow> 's option list \<Rightarrow> 's option list \<times> 'd list \<times> 'd list \<times> 'd list" where
  "act_run ops act gain [] st = (st, [], [], [])"
| "act_run ops act gain (c # cs) st =
     (case act_step ops act c st of (st1, ds, gs) \<Rightarrow>
       case act_run ops act gain cs st1 of (st2, tk, ds2, gs2) \<Rightarrow>
         (st2, act_taken ops gain c st @ tk, ds @ ds2, gs @ gs2))"

locale acting_scope = scope ops held
  for ops :: "('a, 'd, 's) scope_ops" and held :: "'s \<Rightarrow> 'd option" +
  fixes act :: "'e \<Rightarrow> 's \<Rightarrow> 's \<times> 'd list \<times> 'd list"
    and gain :: "'e \<Rightarrow> 's \<Rightarrow> 'd list"
  assumes act_balance: "act e s = (s', ds, gs) \<Longrightarrow>
    mset (duty_list (held s)) + mset (gain e s) = mset (duty_list (held s')) + (mset ds + mset gs)"
begin

lemma act_step_conserves:
  assumes "act_step ops act c st = (st', ds, gs)"
  shows "all_duties st + mset (act_taken ops gain c st) = all_duties st' + (mset ds + mset gs)"
proof (cases c)
  case (Call d)
  then show ?thesis using assms step_conserves [of d st] by (auto split: prod.splits)
next
  case (Early i e)
  show ?thesis
  proof (cases "i < length st \<and> st ! i \<noteq> None")
    case True
    then obtain s where s: "i < length st" "st ! i = Some s" by auto
    obtain s' es hs where es: "act e s = (s', es, hs)" by (cases "act e s")
    have eq: "st' = st[i := Some s']" "ds = es" "gs = hs" "act_taken ops gain c st = gain e s"
      using assms Early s es by simp_all
    have up: "all_duties st' + duties (Some s) = all_duties st + duties (Some s')"
      using all_duties_update [OF s(1), of "Some s'"] s(2) eq(1) by simp
    have bal: "duties (Some s) + mset (gain e s) = duties (Some s') + (mset ds + mset gs)"
      using act_balance [OF es] eq by simp
    have "all_duties st + mset (gain e s) + duties (Some s)
        = all_duties st + duties (Some s') + (mset ds + mset gs)"
      using bal by (metis (no_types, lifting) add.assoc add.commute)
    also have "\<dots> = all_duties st' + (mset ds + mset gs) + duties (Some s)"
      using up by (metis (no_types, lifting) add.assoc add.commute)
    finally show ?thesis using eq(4) by simp
  next
    case False
    then show ?thesis using assms Early by (auto split: if_splits)
  qed
qed

lemma act_run_conserves:
  "act_run ops act gain cs st = (st', tk, ds, gs) \<Longrightarrow>
   all_duties st + mset tk = all_duties st' + (mset ds + mset gs)"
proof (induction cs arbitrary: st tk ds gs)
  case (Cons c cs)
  obtain st1 ds1 gs1 where 1: "act_step ops act c st = (st1, ds1, gs1)" by (cases "act_step ops act c st")
  obtain tk2 ds2 gs2 where 2: "act_run ops act gain cs st1 = (st', tk2, ds2, gs2)"
      and eq: "tk = act_taken ops gain c st @ tk2" "ds = ds1 @ ds2" "gs = gs1 @ gs2"
    using Cons.prems 1 by (auto split: prod.splits)
  from carry_over [OF act_step_conserves [OF 1] Cons.IH [OF 2]] show ?case by (simp add: eq ac_simps)
qed simp

lemma act_run_discharges_all:
  assumes "act_run ops act gain cs (replicate n None) = (replicate n None, tk, ds, gs)"
  shows "mset tk = mset ds + mset gs"
  using act_run_conserves [OF assms] by (simp add: all_duties_none)

end

end
