(* ===== verification/Locking.thy ===== *)
theory Locking
  imports Scope_Contract Run_Contract
begin

text \<open>
  The locking pointers of \<open>src/locking.hpp\<close>: \<open>exclusive_ptr\<close>, \<open>reader_ptr\<close>, \<open>writer_ptr\<close> and
  \<open>exclusive_guard\<close> over the guarded objects \<open>exclusive<T>\<close> and \<open>shared<T>\<close>. A guarded object
  is a number that names both its data and its mutex. The pointers are instances of the
  scope contract; on top of it runs of threads that create, hand over and drop pointers,
  with mutexes that block, show which pointers can reach one object at the same time.
\<close>

subsection \<open>The mutexes\<close>

text \<open>An \<open>hpx::mutex\<close> is only ever held exclusively, an \<open>hpx::shared_mutex\<close> in either way.\<close>

datatype mutex = Free | Held_exclusive | Held_shared nat

text \<open>A duty of a locking pointer: its mode (true for shared) and its object.\<close>

type_synonym lock_duty = "bool \<times> nat"

text \<open>\<open>None\<close> is a lock that has to wait.\<close>

fun mutex_lock :: "bool \<Rightarrow> mutex \<Rightarrow> mutex option" where
  "mutex_lock False Free = Some Held_exclusive"
| "mutex_lock False _ = None"
| "mutex_lock True Free = Some (Held_shared 1)"
| "mutex_lock True (Held_shared n) = Some (Held_shared (n + 1))"
| "mutex_lock True Held_exclusive = None"

fun mutex_unlock :: "bool \<Rightarrow> mutex \<Rightarrow> mutex" where
  "mutex_unlock False _ = Free"
| "mutex_unlock True (Held_shared n) = (if n \<le> 1 then Free else Held_shared (n - 1))"
| "mutex_unlock True m = m"

subsection \<open>The pointers\<close>

datatype lock_kind = Exclusive_ptr | Reader_ptr | Writer_ptr

fun is_shared :: "lock_kind \<Rightarrow> bool" where
  "is_shared Reader_ptr = True"
| "is_shared _ = False"

text \<open>
  A pointer is a \<open>unique_lock\<close> or \<open>shared_lock\<close> (its mutex and whether it owns it) with a
  pointer to the data. \<open>lp_kind\<close> is the class of the object.
\<close>

record lock_ptr =
  lp_kind :: lock_kind
  lp_mutex :: "nat option"
  lp_owns :: bool
  lp_ptr :: "nat option"

definition lock_make :: "lock_kind \<Rightarrow> nat \<Rightarrow> lock_ptr" where
  "lock_make k obj = \<lparr>lp_kind = k, lp_mutex = Some obj, lp_owns = True, lp_ptr = Some obj\<rparr>"

definition exclusive_make :: "nat \<Rightarrow> lock_ptr" where
  "exclusive_make obj = lock_make Exclusive_ptr obj"

definition reader_make :: "nat \<Rightarrow> lock_ptr" where
  "reader_make obj = lock_make Reader_ptr obj"

definition writer_make :: "nat \<Rightarrow> lock_ptr" where
  "writer_make obj = lock_make Writer_ptr obj"

definition lock_move :: "lock_ptr \<Rightarrow> lock_ptr \<times> lock_ptr" where
  "lock_move from = (from, from\<lparr>lp_mutex := None, lp_owns := False, lp_ptr := None\<rparr>)"

definition lock_duties :: "lock_ptr \<Rightarrow> lock_duty list" where
  "lock_duties p = (if lp_owns p then case lp_mutex p of None \<Rightarrow> [] | Some m \<Rightarrow> [(is_shared (lp_kind p), m)] else [])"

text \<open>\<open>unlock()\<close> of the public base: it throws when the lock is not owned.\<close>

definition lock_unlock :: "lock_ptr \<Rightarrow> (lock_ptr \<times> lock_duty list) res" where
  "lock_unlock p = (if \<not> lp_owns p then Inl (Error ''operation not permitted'')
     else Inr (p\<lparr>lp_owns := False\<rparr>, lock_duties p))"

text \<open>
  The assignment unlocks what the target owns, then takes over base and data pointer. Both
  sides are of one class.
\<close>

definition lock_assign :: "lock_ptr \<Rightarrow> lock_ptr \<Rightarrow> lock_ptr \<times> lock_ptr \<times> lock_duty list" where
  "lock_assign p from =
     (let ds = lock_duties p in
      case lock_move from of (p', from') \<Rightarrow> (p', from', ds))"

definition lock_finish :: "lock_ptr \<Rightarrow> lock_duty list" where
  "lock_finish p = lock_duties p"

text \<open>The three classes write these members out separately.\<close>

definition exclusive_move :: "lock_ptr \<Rightarrow> lock_ptr \<times> lock_ptr" where
  "exclusive_move from = lock_move from"

definition reader_move :: "lock_ptr \<Rightarrow> lock_ptr \<times> lock_ptr" where
  "reader_move from = lock_move from"

definition writer_move :: "lock_ptr \<Rightarrow> lock_ptr \<times> lock_ptr" where
  "writer_move from = lock_move from"

definition exclusive_assign :: "lock_ptr \<Rightarrow> lock_ptr \<Rightarrow> lock_ptr \<times> lock_ptr \<times> lock_duty list" where
  "exclusive_assign p from = lock_assign p from"

definition reader_assign :: "lock_ptr \<Rightarrow> lock_ptr \<Rightarrow> lock_ptr \<times> lock_ptr \<times> lock_duty list" where
  "reader_assign p from = lock_assign p from"

definition writer_assign :: "lock_ptr \<Rightarrow> lock_ptr \<Rightarrow> lock_ptr \<times> lock_ptr \<times> lock_duty list" where
  "writer_assign p from = lock_assign p from"

definition class_make :: "lock_kind \<Rightarrow> nat \<Rightarrow> lock_ptr" where
  "class_make k obj = (case k of Exclusive_ptr \<Rightarrow> exclusive_make obj | Reader_ptr \<Rightarrow> reader_make obj
     | Writer_ptr \<Rightarrow> writer_make obj)"

definition class_move :: "lock_ptr \<Rightarrow> lock_ptr \<times> lock_ptr" where
  "class_move from = (case lp_kind from of Exclusive_ptr \<Rightarrow> exclusive_move from
     | Reader_ptr \<Rightarrow> reader_move from | Writer_ptr \<Rightarrow> writer_move from)"

definition class_assign :: "lock_ptr \<Rightarrow> lock_ptr \<Rightarrow> lock_ptr \<times> lock_ptr \<times> lock_duty list" where
  "class_assign p from = (case lp_kind p of Exclusive_ptr \<Rightarrow> exclusive_assign p from
     | Reader_ptr \<Rightarrow> reader_assign p from | Writer_ptr \<Rightarrow> writer_assign p from)"

lemma class_members:
  "class_make k obj = lock_make k obj" "class_move p = lock_move p" "class_assign p q = lock_assign p q"
  by (simp_all add: class_make_def class_move_def class_assign_def exclusive_make_def reader_make_def writer_make_def
      exclusive_move_def reader_move_def writer_move_def exclusive_assign_def reader_assign_def writer_assign_def
      split: lock_kind.split)

text \<open>\<open>operator->\<close>, \<open>operator*\<close>, \<open>operator[]\<close> and \<open>at\<close> reach the data through this check.\<close>

definition lock_deref :: "string \<Rightarrow> lock_ptr \<Rightarrow> nat res" where
  "lock_deref msg p = (case lp_ptr p of None \<Rightarrow> Inl (Error msg) | Some obj \<Rightarrow> Inr obj)"

definition exclusive_deref :: "lock_ptr \<Rightarrow> nat res" where
  "exclusive_deref p = lock_deref ''exclusive lock error'' p"

definition reader_deref :: "lock_ptr \<Rightarrow> nat res" where
  "reader_deref p = lock_deref ''reader lock error'' p"

definition writer_deref :: "lock_ptr \<Rightarrow> nat res" where
  "writer_deref p = lock_deref ''writer lock error'' p"

text \<open>
  \<open>operator[]\<close>: the index operation of the object's class, on the data the pointer names.
\<close>

definition exclusive_index :: "(nat \<Rightarrow> 'i \<Rightarrow> 'e res) \<Rightarrow> lock_ptr \<Rightarrow> 'i \<Rightarrow> 'e res" where
  "exclusive_index index p i = (case exclusive_deref p of Inl e \<Rightarrow> Inl e | Inr obj \<Rightarrow> index obj i)"

definition reader_index :: "(nat \<Rightarrow> 'i \<Rightarrow> 'e res) \<Rightarrow> lock_ptr \<Rightarrow> 'i \<Rightarrow> 'e res" where
  "reader_index index p i = (case reader_deref p of Inl e \<Rightarrow> Inl e | Inr obj \<Rightarrow> index obj i)"

definition writer_index :: "(nat \<Rightarrow> 'i \<Rightarrow> 'e res) \<Rightarrow> lock_ptr \<Rightarrow> 'i \<Rightarrow> 'e res" where
  "writer_index index p i = (case writer_deref p of Inl e \<Rightarrow> Inl e | Inr obj \<Rightarrow> index obj i)"

definition lock_check :: "lock_ptr \<Rightarrow> nat res" where
  "lock_check p = (case lp_kind p of Exclusive_ptr \<Rightarrow> exclusive_deref p
     | Reader_ptr \<Rightarrow> reader_deref p | Writer_ptr \<Rightarrow> writer_deref p)"

lemmas deref_defs = lock_check_def exclusive_deref_def reader_deref_def writer_deref_def lock_deref_def

lemma lock_check_returns: "lock_check p = Inr obj \<longleftrightarrow> lp_ptr p = Some obj"
  by (cases "lp_kind p") (auto simp: deref_defs split: option.splits)

subsection \<open>exclusive_guard\<close>

text \<open>The guard holds the mutex from its constructor, which may wait, to its destructor.\<close>

definition guard_make :: "nat \<Rightarrow> (nat \<Rightarrow> mutex) \<Rightarrow> (nat \<times> (nat \<Rightarrow> mutex)) option" where
  "guard_make obj mx = (case mutex_lock False (mx obj) of None \<Rightarrow> None | Some m \<Rightarrow> Some (obj, mx(obj := m)))"

definition guard_finish :: "nat \<Rightarrow> (nat \<Rightarrow> mutex) \<Rightarrow> nat \<Rightarrow> mutex" where
  "guard_finish g mx = mx(g := mutex_unlock False (mx g))"

definition guard_deref :: "nat \<Rightarrow> nat" where
  "guard_deref g = g"

text \<open>While a guard lives no other guard or pointer of its object is made; then the object is free again.\<close>

lemma guard_excludes:
  assumes "guard_make obj mx = Some (g, mx')"
  shows "guard_make obj mx' = None" and "mutex_lock b (mx' obj) = None" and "guard_finish g mx' = mx"
    and "guard_deref g = obj"
  using assms by (cases b; cases "mx obj"; auto simp: guard_make_def guard_finish_def guard_deref_def)+

subsection \<open>The scope contract\<close>

definition lock_held :: "lock_ptr \<Rightarrow> lock_duty option" where
  "lock_held p = (if lp_owns p then map_option (Pair (is_shared (lp_kind p))) (lp_mutex p) else None)"

definition lock_ops :: "(lock_kind \<times> nat, lock_duty, lock_ptr) scope_ops" where
  "lock_ops = \<lparr>so_takes = (\<lambda>(k, obj). Some (is_shared k, obj)), so_make = (\<lambda>(k, obj). class_make k obj),
     so_move = class_move, so_assign = class_assign, so_finish = lock_finish\<rparr>"

lemma lock_duties_held: "lock_duties p = duty_list (lock_held p)"
  by (simp add: lock_duties_def lock_held_def split: option.splits)

interpretation ls: scope lock_ops lock_held
  by unfold_locales
    (auto simp: lock_ops_def class_members lock_duties_held lock_finish_def lock_assign_def lock_move_def
      lock_make_def Let_def, auto simp: lock_held_def lock_make_def)

subsection \<open>Runs\<close>

text \<open>
  The calls of all threads in the order they take effect. Creating a pointer waits for the
  mutex; only objects of one class are assigned to each other.
\<close>

datatype lock_call = Scope "(lock_kind \<times> nat) scope_call" | Unlock nat

record lock_state =
  ls_slots :: "lock_ptr option list"
  ls_mutex :: "nat \<Rightarrow> mutex"

fun unlock_all :: "lock_duty list \<Rightarrow> (nat \<Rightarrow> mutex) \<Rightarrow> nat \<Rightarrow> mutex" where
  "unlock_all [] mx = mx"
| "unlock_all ((b, m) # ds) mx = unlock_all ds (mx(m := mutex_unlock b (mx m)))"

definition lock_initial :: "nat \<Rightarrow> lock_state" where
  "lock_initial n = \<lparr>ls_slots = replicate n None, ls_mutex = (\<lambda>_. Free)\<rparr>"

definition same_class :: "lock_state \<Rightarrow> nat \<Rightarrow> nat \<Rightarrow> bool" where
  "same_class st i j = (case (ls_slots st ! i, ls_slots st ! j) of
     (Some p, Some q) \<Rightarrow> lp_kind p = lp_kind q | _ \<Rightarrow> True)"

fun lock_step :: "lock_call \<Rightarrow> lock_state \<Rightarrow> lock_state option" where
  "lock_step (Scope (Construct i (k, obj))) st =
     (if i < length (ls_slots st) \<and> ls_slots st ! i = None
      then case mutex_lock (is_shared k) (ls_mutex st obj) of
        None \<Rightarrow> None
      | Some m \<Rightarrow> Some \<lparr>ls_slots = (ls_slots st)[i := Some (lock_make k obj)], ls_mutex = (ls_mutex st)(obj := m)\<rparr>
      else None)"
| "lock_step (Scope (Move_assign i j)) st =
     (if same_class st i j
      then case scope_step lock_ops (Move_assign i j) (ls_slots st) of
        (slots, ds) \<Rightarrow> Some \<lparr>ls_slots = slots, ls_mutex = unlock_all ds (ls_mutex st)\<rparr>
      else None)"
| "lock_step (Scope c) st =
     (case scope_step lock_ops c (ls_slots st) of
       (slots, ds) \<Rightarrow> Some \<lparr>ls_slots = slots, ls_mutex = unlock_all ds (ls_mutex st)\<rparr>)"
| "lock_step (Unlock i) st =
     (if i < length (ls_slots st)
      then case ls_slots st ! i of
        None \<Rightarrow> None
      | Some p \<Rightarrow> (case lock_unlock p of
          Inl e \<Rightarrow> Some st
        | Inr (p', ds) \<Rightarrow> Some \<lparr>ls_slots = (ls_slots st)[i := Some p'], ls_mutex = unlock_all ds (ls_mutex st)\<rparr>)
      else None)"

abbreviation lock_run :: "lock_call list \<Rightarrow> lock_state \<Rightarrow> lock_state option" where
  "lock_run \<equiv> run_moves lock_step"

text \<open>
  A guard takes and gives back the mutex as an \<open>exclusive_ptr\<close> that is only made and destroyed, so
  what holds of runs with such pointers holds of guards.
\<close>

lemma guard_is_pointer:
  assumes "i < length (ls_slots st)" and "ls_slots st ! i = None"
  shows "map_option ls_mutex (lock_step (Scope (Construct i (Exclusive_ptr, obj))) st) = map_option snd (guard_make obj (ls_mutex st))"
    and "lock_step (Scope (Construct i (Exclusive_ptr, obj))) st = Some st' \<Longrightarrow>
      map_option ls_mutex (lock_step (Scope (Destroy i)) st') = Some (guard_finish obj (ls_mutex st'))"
  using assms
  by (auto simp: guard_make_def guard_finish_def lock_ops_def lock_finish_def lock_duties_def lock_make_def split: option.splits)

fun is_unlock :: "lock_call \<Rightarrow> bool" where
  "is_unlock (Unlock _) = True"
| "is_unlock _ = False"

text \<open>The mutexes agree with the duties the pointers hold.\<close>

definition mutex_agrees :: "mutex \<Rightarrow> nat \<Rightarrow> nat \<Rightarrow> bool" where
  "mutex_agrees m w r = (case m of Free \<Rightarrow> w = 0 \<and> r = 0 | Held_exclusive \<Rightarrow> w = 1 \<and> r = 0
     | Held_shared n \<Rightarrow> w = 0 \<and> r = n \<and> 0 < n)"

definition locks_agree :: "lock_duty multiset \<Rightarrow> (nat \<Rightarrow> mutex) \<Rightarrow> bool" where
  "locks_agree D mx = (\<forall>m. mutex_agrees (mx m) (count D (False, m)) (count D (True, m)))"

definition locks_inv :: "lock_state \<Rightarrow> bool" where
  "locks_inv st = locks_agree (ls.all_duties (ls_slots st)) (ls_mutex st)"

lemma mutex_agrees_simps [simp]:
  "mutex_agrees Free w r \<longleftrightarrow> w = 0 \<and> r = 0"
  "mutex_agrees Held_exclusive w r \<longleftrightarrow> w = 1 \<and> r = 0"
  "mutex_agrees (Held_shared n) w r \<longleftrightarrow> w = 0 \<and> r = n \<and> 0 < n"
  by (simp_all add: mutex_agrees_def)

lemma locks_agree_lock:
  assumes "locks_agree D mx" and "mutex_lock b (mx obj) = Some m"
  shows "locks_agree (add_mset (b, obj) D) (mx(obj := m))"
proof -
  have "mutex_agrees (mx obj) (count D (False, obj)) (count D (True, obj))"
    using assms(1) unfolding locks_agree_def by blast
  then have "mutex_agrees m (count (add_mset (b, obj) D) (False, obj)) (count (add_mset (b, obj) D) (True, obj))"
    using assms(2) by (cases b; cases "mx obj") auto
  then show ?thesis using assms(1) by (auto simp: locks_agree_def)
qed

lemma locks_agree_unlock:
  assumes "locks_agree (add_mset (b, obj) D) mx"
  shows "locks_agree D (mx(obj := mutex_unlock b (mx obj)))"
  unfolding locks_agree_def
proof
  fix m
  have "mutex_agrees (mx m) (count (add_mset (b, obj) D) (False, m)) (count (add_mset (b, obj) D) (True, m))"
    using assms unfolding locks_agree_def by blast
  then show "mutex_agrees ((mx(obj := mutex_unlock b (mx obj))) m) (count D (False, m)) (count D (True, m))"
    by (cases "m = obj"; cases b; cases "mx m") auto
qed

lemma locks_agree_unlock_all:
  "locks_agree (D + mset ds) mx \<Longrightarrow> locks_agree D (unlock_all ds mx)"
proof (induction ds arbitrary: mx)
  case (Cons d ds)
  obtain b obj where d: "d = (b, obj)" by (cases d)
  have "locks_agree (D + mset ds) (mx(obj := mutex_unlock b (mx obj)))"
    by (rule locks_agree_unlock) (use Cons.prems d in simp)
  then show ?case using Cons.IH d by simp
qed simp

lemma slots_step_inv:
  assumes "locks_inv st" and "scope_step lock_ops c (ls_slots st) = (slots, ds)"
    and "taken_on lock_ops c (ls_slots st) = []"
  shows "locks_inv \<lparr>ls_slots = slots, ls_mutex = unlock_all ds (ls_mutex st)\<rparr>"
proof -
  have "ls.all_duties (ls_slots st) = ls.all_duties slots + mset ds"
    using ls.step_conserves [OF assms(2)] assms(3) by simp
  then show ?thesis
    using assms(1) locks_agree_unlock_all by (simp add: locks_inv_def)
qed

lemma construct_inv:
  assumes "locks_inv st" and "i < length (ls_slots st)" and "ls_slots st ! i = None"
    and "mutex_lock (is_shared k) (ls_mutex st obj) = Some m"
  shows "locks_inv \<lparr>ls_slots = (ls_slots st)[i := Some (lock_make k obj)], ls_mutex = (ls_mutex st)(obj := m)\<rparr>"
proof -
  have "ls.all_duties ((ls_slots st)[i := Some (lock_make k obj)])
      = add_mset (is_shared k, obj) (ls.all_duties (ls_slots st))"
    using ls.all_duties_update [OF assms(2), of "Some (lock_make k obj)"] assms(3)
    by (simp add: lock_held_def lock_make_def)
  then show ?thesis
    using locks_agree_lock [of "ls.all_duties (ls_slots st)" "ls_mutex st" "is_shared k" obj m] assms(1,4)
    by (simp add: locks_inv_def)
qed

lemma unlock_inv:
  assumes "locks_inv st" and "i < length (ls_slots st)" and "ls_slots st ! i = Some p"
    and "lock_unlock p = Inr (p', ds)"
  shows "locks_inv \<lparr>ls_slots = (ls_slots st)[i := Some p'], ls_mutex = unlock_all ds (ls_mutex st)\<rparr>"
proof -
  have p: "p' = p\<lparr>lp_owns := False\<rparr>" "ds = duty_list (lock_held p)"
    using assms(4) by (auto simp: lock_unlock_def lock_duties_held split: if_splits)
  have "ls.all_duties (ls_slots st) = ls.all_duties ((ls_slots st)[i := Some p']) + mset ds"
    using ls.all_duties_update [OF assms(2), of "Some p'"] assms(3) p
    by (simp add: lock_held_def)
  then show ?thesis
    using assms(1) locks_agree_unlock_all by (simp add: locks_inv_def)
qed

lemma lock_step_inv: "locks_inv st \<Longrightarrow> lock_step c st = Some st' \<Longrightarrow> locks_inv st'"
  by (induction c st rule: lock_step.induct)
    (auto simp: class_members simp del: scope_step.simps split: if_splits option.splits prod.splits sum.splits
      intro: slots_step_inv construct_inv unlock_inv)

interpretation lock_calls: run_invariant lock_step locks_inv "\<lambda>_. False"
  by unfold_locales (rule lock_step_inv)

lemma locks_inv_initial: "locks_inv (lock_initial n)"
  by (simp add: locks_inv_def lock_initial_def ls.all_duties_none locks_agree_def)

subsection \<open>Ownership excludes\<close>

lemma duties_within: "i < length sl \<Longrightarrow> ls.duties (sl ! i) \<subseteq># ls.all_duties sl"
  using ls.all_duties_update [of i sl None] by (metis ls.duties_simps(1) add_0_right mset_subset_eq_add_right)

lemma two_duties_within:
  assumes "i < length sl" and "j < length sl" and "i \<noteq> j"
  shows "ls.duties (sl ! i) + ls.duties (sl ! j) \<subseteq># ls.all_duties sl"
proof -
  have "ls.duties (sl[i := None] ! j) \<subseteq># ls.all_duties (sl[i := None])"
    by (rule duties_within) (use assms in simp)
  moreover have "ls.all_duties sl = ls.all_duties (sl[i := None]) + ls.duties (sl ! i)"
    using ls.all_duties_update [OF assms(1), of None] by simp
  ultimately show ?thesis using assms by (simp add: add.commute)
qed

lemma owners_share:
  assumes "locks_inv st" and "i < length (ls_slots st)" and "j < length (ls_slots st)" and "i \<noteq> j"
    and "ls_slots st ! i = Some p" and "ls_slots st ! j = Some q"
    and "lock_held p = Some (b, obj)" and "lock_held q = Some (c, obj)"
  shows "b \<and> c"
proof -
  have sub: "{#(b, obj), (c, obj)#} \<subseteq># ls.all_duties (ls_slots st)"
    using two_duties_within [OF assms(2-4)] assms(5-8) by (simp add: add_mset_commute)
  have "mutex_agrees (ls_mutex st obj) (count (ls.all_duties (ls_slots st)) (False, obj))
      (count (ls.all_duties (ls_slots st)) (True, obj))"
    using assms(1) by (simp add: locks_inv_def locks_agree_def)
  moreover have "count {#(b, obj), (c, obj)#} d \<le> count (ls.all_duties (ls_slots st)) d" for d
    using sub by (rule mset_subset_eq_count)
  from this [of "(False, obj)"] this [of "(True, obj)"] calculation show ?thesis
    by (cases b; cases c; cases "ls_mutex st obj") auto
qed

subsection \<open>A pointer without a direct unlock points exactly while it owns\<close>

definition ptr_follows_lock :: "lock_ptr option \<Rightarrow> bool" where
  "ptr_follows_lock x = (case x of None \<Rightarrow> True | Some p \<Rightarrow> lp_ptr p = (if lp_owns p then lp_mutex p else None))"

lemma ptr_follows_simps [simp]:
  "ptr_follows_lock None"
  "ptr_follows_lock (Some (lock_make k obj))"
  "ptr_follows_lock (Some (p\<lparr>lp_mutex := None, lp_owns := False, lp_ptr := None\<rparr>))"
  by (simp_all add: ptr_follows_lock_def lock_make_def)

lemma list_all_set: "list_all P xs \<Longrightarrow> P y \<Longrightarrow> list_all P (xs[i := y])"
  by (cases "i < length xs") (simp_all add: list_all_length nth_list_update)

lemma follows_nth: "list_all ptr_follows_lock sl \<Longrightarrow> i < length sl \<Longrightarrow> ptr_follows_lock (sl ! i)"
  by (simp add: list_all_length)

lemma scope_step_follows:
  assumes "list_all ptr_follows_lock sl" and "scope_step lock_ops c sl = (sl', ds)"
  shows "list_all ptr_follows_lock sl'"
proof -
  have "ptr_follows_lock (Some p)" if "i < length sl" and "sl ! i = Some p" for i p
    using follows_nth [OF assms(1) that(1)] that(2) by simp
  with assms show ?thesis
    by (cases c) (auto simp: lock_ops_def class_members lock_move_def lock_assign_def Let_def
        split: if_splits option.splits prod.splits intro!: list_all_set)
qed

lemma lock_step_follows:
  "list_all ptr_follows_lock (ls_slots st) \<Longrightarrow> lock_step c st = Some st' \<Longrightarrow> \<not> is_unlock c
   \<Longrightarrow> list_all ptr_follows_lock (ls_slots st')"
  by (induction c st rule: lock_step.induct)
    (auto simp: class_members simp del: scope_step.simps split: if_splits option.splits prod.splits sum.splits
      intro: scope_step_follows intro!: list_all_set)

interpretation kept_locks: run_invariant lock_step "\<lambda>st. list_all ptr_follows_lock (ls_slots st)" is_unlock
  by unfold_locales (rule lock_step_follows)

lemma follows_held:
  "ptr_follows_lock (Some p) \<Longrightarrow> lp_ptr p = Some obj \<Longrightarrow> lock_held p = Some (is_shared (lp_kind p), obj)"
  by (auto simp: ptr_follows_lock_def lock_held_def split: if_splits)

lemma follows_initial: "list_all ptr_follows_lock (ls_slots (lock_initial n))"
  by (simp add: lock_initial_def list_all_iff)

definition points_to :: "lock_state \<Rightarrow> nat \<Rightarrow> nat \<Rightarrow> lock_kind \<Rightarrow> bool" where
  "points_to st i obj k =
     (i < length (ls_slots st) \<and> (case ls_slots st ! i of
        None \<Rightarrow> False | Some p \<Rightarrow> lp_kind p = k \<and> lock_check p = Inr obj))"

lemma points_to_held:
  assumes "list_all ptr_follows_lock (ls_slots st)" and "points_to st i obj k"
  obtains p where "i < length (ls_slots st)" and "ls_slots st ! i = Some p"
    and "lock_held p = Some (is_shared k, obj)"
proof -
  obtain p where p: "i < length (ls_slots st)" "ls_slots st ! i = Some p" "lp_kind p = k" "lock_check p = Inr obj"
    using assms(2) by (auto simp: points_to_def split: option.splits)
  moreover have "lock_held p = Some (is_shared k, obj)"
    using follows_held [of p obj] follows_nth [OF assms(1) p(1)] p by (simp add: lock_check_returns)
  ultimately show ?thesis using that by blast
qed

text \<open>
  C5: in every run of threads that create, hand over, assign and destroy locking pointers,
  two different pointers through which the data of one object can be reached are both
  \<open>reader_ptr\<close>s: whoever may change an object reaches it alone.
\<close>

theorem locks_exclude:
  assumes "lock_run cs (lock_initial n) = Some st" and "\<not> list_ex is_unlock cs" and "i \<noteq> j"
    and "points_to st i obj k" and "points_to st j obj l"
  shows "k = Reader_ptr \<and> l = Reader_ptr"
proof -
  note f = kept_locks.run_inv [OF follows_initial assms(1,2)]
  note inv = lock_calls.run_inv [OF locks_inv_initial assms(1) list_ex_False]
  obtain p where p: "i < length (ls_slots st)" "ls_slots st ! i = Some p" "lock_held p = Some (is_shared k, obj)"
    using points_to_held [OF f assms(4)] .
  obtain q where q: "j < length (ls_slots st)" "ls_slots st ! j = Some q" "lock_held q = Some (is_shared l, obj)"
    using points_to_held [OF f assms(5)] .
  have "is_shared k \<and> is_shared l"
    using owners_share [OF inv p(1) q(1) assms(3) p(2) q(2) p(3) q(3)] .
  then show ?thesis by (cases k; cases l) simp_all
qed

lemma locks_exclude_witness:
  "\<exists>st. lock_run [Scope (Construct 0 (Reader_ptr, 7)), Scope (Construct 1 (Reader_ptr, 7)),
      Scope (Move_construct 2 0)] (lock_initial 3) = Some st
    \<and> points_to st 1 7 Reader_ptr \<and> points_to st 2 7 Reader_ptr"
proof -
  define cs where "cs = [Scope (Construct 0 (Reader_ptr, 7)), Scope (Construct 1 (Reader_ptr, 7)),
      Scope (Move_construct 2 0)]"
  have "lock_run cs (lock_initial 3) \<noteq> None"
    by (simp add: cs_def lock_initial_def lock_ops_def class_members lock_move_def lock_make_def eval_nat_numeral)
  then obtain st where run: "lock_run cs (lock_initial 3) = Some st" by blast
  then have pts: "points_to st 1 7 Reader_ptr" "points_to st 2 7 Reader_ptr"
    by (auto simp: cs_def points_to_def lock_initial_def lock_ops_def class_members lock_move_def lock_make_def
        lock_check_returns eval_nat_numeral)
  have "\<not> list_ex is_unlock cs" by (simp add: cs_def)
  from locks_exclude [OF run this _ pts] run pts show ?thesis by (auto simp: cs_def)
qed

text \<open>
  The guarantee needs the data pointer to follow the lock, and the public base class
  breaks that: after \<open>unlock()\<close> on an \<open>exclusive_ptr\<close> its \<open>operator->\<close> does not throw, so a
  second pointer made meanwhile reaches the same object at the same time.
\<close>

theorem unlock_breaks_exclusion:
  "(case lock_run [Scope (Construct 0 (Exclusive_ptr, 7)), Unlock 0, Scope (Construct 1 (Exclusive_ptr, 7))]
      (lock_initial 2) of None \<Rightarrow> False
    | Some st \<Rightarrow> points_to st 0 7 Exclusive_ptr \<and> points_to st 1 7 Exclusive_ptr)"
  by (simp add: points_to_def lock_initial_def class_members lock_make_def lock_unlock_def lock_duties_def
      lock_check_returns eval_nat_numeral)

text \<open>
  A pointer that was moved from reaches nothing: each of the three classes throws its own
  error, and the pointer moved to reaches what the old one did, with the lock handed over.
\<close>

theorem moved_pointers_throw:
  "lock_move p = (p', from) \<Longrightarrow>
     exclusive_deref from = Inl (Error ''exclusive lock error'')
   \<and> reader_deref from = Inl (Error ''reader lock error'')
   \<and> writer_deref from = Inl (Error ''writer lock error'')
   \<and> lock_check p' = lock_check p \<and> lock_finish from = [] \<and> lock_finish p' = lock_finish p"
  by (auto simp: lock_move_def deref_defs lock_finish_def lock_duties_def)

lemma moved_pointers_throw_witness:
  "reader_deref (snd (lock_move (reader_make 3))) = Inl (Error ''reader lock error'')"
  using moved_pointers_throw [of "reader_make 3" "fst (lock_move (reader_make 3))" "snd (lock_move (reader_make 3))"]
  by simp

end
