(* ===== verification/Wait_Group.thy ===== *)
theory Wait_Group
  imports Prelude
begin

text \<open>
  \<open>wait_group\<close> of \<open>src/sync.hpp\<close>: a 32-bit count of outstanding tasks with a condition
  variable. The operations run under the group's mutex, so each is one step; \<open>wait\<close> is a
  step that checks the count and, for a thread that sleeps, one more step for each time it
  wakes up.
\<close>

subsection \<open>The operations\<close>

record wait_group =
  wg_counter :: "32 word"

definition wg_new :: "32 word \<Rightarrow> wait_group" where
  "wg_new init = \<lparr>wg_counter = init\<rparr>"

definition wg_add :: "32 word \<Rightarrow> wait_group \<Rightarrow> wait_group" where
  "wg_add n g = g\<lparr>wg_counter := wg_counter g + n\<rparr>"

definition wg_increment :: "wait_group \<Rightarrow> wait_group" where
  "wg_increment g = wg_add 1 g"

definition wg_plus :: "32 word \<Rightarrow> wait_group \<Rightarrow> wait_group" where
  "wg_plus n g = wg_add n g"

text \<open>The group, the result, and whether \<open>notify_all\<close> was called.\<close>

definition wg_release :: "wait_group \<Rightarrow> wait_group \<times> bool \<times> bool" where
  "wg_release g =
     (if wg_counter g = 0 then (g, True, False)
      else let g' = g\<lparr>wg_counter := wg_counter g - 1\<rparr> in
        if wg_counter g' = 0 then (g', True, True) else (g', False, False))"

text \<open>The predicate that \<open>wait\<close>, \<open>wait_for\<close> and \<open>wait_until\<close> give to the condition variable.\<close>

definition wg_done :: "wait_group \<Rightarrow> bool" where
  "wg_done g = (wg_counter g = 0)"

definition wg_count :: "wait_group \<Rightarrow> 32 word" where
  "wg_count g = wg_counter g"

fun wg_releases :: "nat \<Rightarrow> wait_group \<Rightarrow> wait_group \<times> bool list \<times> nat" where
  "wg_releases 0 g = (g, [], 0)"
| "wg_releases (Suc n) g =
     (case wg_release g of (g1, r, nt) \<Rightarrow>
       case wg_releases n g1 of (g2, rs, notes) \<Rightarrow> (g2, r # rs, notes + (if nt then 1 else 0)))"

lemma word_pred_nat: "(w::32 word) \<noteq> 0 \<Longrightarrow> unat (w - 1) = unat w - 1"
  by (simp add: unat_minus_one)

lemma wg_release_nat:
  assumes "wg_release g = (g', r, nt)"
  shows "unat (wg_counter g') = unat (wg_counter g) - 1
    \<and> r = (unat (wg_counter g) \<le> 1) \<and> nt = (unat (wg_counter g) = 1)"
proof (cases "wg_counter g = 0")
  case False
  then have u: "unat (wg_counter g - 1) = unat (wg_counter g) - 1" "0 < unat (wg_counter g)"
    by (simp_all add: word_pred_nat unat_gt_0)
  then have "wg_counter g - 1 = 0 \<longleftrightarrow> unat (wg_counter g) = 1"
    by (metis One_nat_def Suc_diff_1 unat_eq_0 diff_self_eq_0)
  then show ?thesis using assms False u by (auto simp: wg_release_def Let_def split: if_splits)
qed (use assms in \<open>simp add: wg_release_def\<close>)

text \<open>
  \<open>wait_for\<close> and \<open>wait_until\<close>: the group when the call begins and at each wake-up of the thread,
  with whether the time is then up. \<open>None\<close> while the thread still waits.
\<close>

fun wg_timed_wait :: "wait_group \<Rightarrow> (wait_group \<times> bool) list \<Rightarrow> bool option" where
  "wg_timed_wait g [] = (if wg_done g then Some True else None)"
| "wg_timed_wait g ((g', late) # ws) =
     (if wg_done g then Some True else if late then Some (wg_done g') else wg_timed_wait g' ws)"

definition wg_wait_for :: "wait_group \<Rightarrow> (wait_group \<times> bool) list \<Rightarrow> bool option" where
  "wg_wait_for g ws = wg_timed_wait g ws"

definition wg_wait_until :: "wait_group \<Rightarrow> (wait_group \<times> bool) list \<Rightarrow> bool option" where
  "wg_wait_until g ws = wg_timed_wait g ws"

text \<open>
  A timed wait returns with the first wake-up that finds the group done or the time up, and
  says whether it is done; so it returns as soon as there is one.
\<close>

lemma wg_timed_wait_result:
  "wg_timed_wait g ws = (case dropWhile (\<lambda>(g', late). \<not> wg_done g' \<and> \<not> late) ((g, False) # ws) of
     [] \<Rightarrow> None | (g', late) # _ \<Rightarrow> Some (wg_done g'))"
  by (induction g ws rule: wg_timed_wait.induct) auto

text \<open>
  Releases of a wait group count its tasks down to zero and never below; the result says
  whether the group is done, and the waiters are notified once, at the last task.
\<close>

theorem wait_group_releases:
  "unat (wg_counter (fst (wg_releases k g))) = unat (wg_counter g) - k
   \<and> fst (snd (wg_releases k g)) = map (\<lambda>i. unat (wg_counter g) \<le> i + 1) [0..<k]
   \<and> snd (snd (wg_releases k g)) = of_bool (0 < unat (wg_counter g) \<and> unat (wg_counter g) \<le> k)"
proof (induction k arbitrary: g)
  case (Suc k)
  obtain g' r nt where g': "wg_release g = (g', r, nt)" by (cases "wg_release g")
  obtain g2 rs n where g2: "wg_releases k g' = (g2, rs, n)" by (cases "wg_releases k g'")
  have "map (\<lambda>i. unat (wg_counter g') \<le> i + 1) [0..<k] = map (\<lambda>i. unat (wg_counter g) \<le> i + 1) (map Suc [0..<k])"
    using wg_release_nat [OF g'] by auto
  then show ?case
    using Suc.IH [of g'] g' g2 wg_release_nat [OF g'] by (auto simp: map_Suc_upt upt_conv_Cons simp del: upt_Suc)
qed (simp, linarith)

subsection \<open>Waiting threads\<close>

datatype wg_phase = Outside | Asleep | Awake

record wg_world =
  ww_group :: wait_group
  ww_threads :: "wg_phase list"

datatype wg_move =
    W_add "32 word"
  | W_release
  | W_wait nat      \<comment> \<open>a thread calls \<open>wait\<close>\<close>
  | W_spurious nat  \<comment> \<open>a sleeper wakes up unnotified\<close>
  | W_check nat     \<comment> \<open>a woken thread has the mutex again and tests the predicate\<close>

definition wake_all :: "wg_phase list \<Rightarrow> wg_phase list" where
  "wake_all ts = map (\<lambda>p. if p = Asleep then Awake else p) ts"

definition wg_set_phase :: "wg_world \<Rightarrow> nat \<Rightarrow> wg_phase \<Rightarrow> wg_world" where
  "wg_set_phase w t p = w\<lparr>ww_threads := (ww_threads w)[t := p]\<rparr>"

definition wg_check :: "wg_world \<Rightarrow> nat \<Rightarrow> wg_world" where
  "wg_check w t = wg_set_phase w t (if wg_done (ww_group w) then Outside else Asleep)"

text \<open>The destructor waits, so it begins and goes on like a call of \<open>wait\<close>.\<close>

definition wg_destroy :: "wg_world \<Rightarrow> nat \<Rightarrow> wg_world" where
  "wg_destroy w t = wg_check w t"

definition in_phase :: "wg_world \<Rightarrow> nat \<Rightarrow> wg_phase \<Rightarrow> bool" where
  "in_phase w t p = (t < length (ww_threads w) \<and> ww_threads w ! t = p)"

inductive wg_step :: "wg_move \<Rightarrow> wg_world \<Rightarrow> wg_world \<Rightarrow> bool" where
  add: "wg_step (W_add n) w (w\<lparr>ww_group := wg_add n (ww_group w)\<rparr>)"
| release_quiet: "wg_release (ww_group w) = (g, r, False) \<Longrightarrow> wg_step W_release w (w\<lparr>ww_group := g\<rparr>)"
| release_last: "wg_release (ww_group w) = (g, r, True)
    \<Longrightarrow> wg_step W_release w (w\<lparr>ww_group := g, ww_threads := wake_all (ww_threads w)\<rparr>)"
| enter_wait: "in_phase w t Outside \<Longrightarrow> wg_step (W_wait t) w (wg_check w t)"
| wake_up: "in_phase w t Asleep \<Longrightarrow> wg_step (W_spurious t) w (wg_set_phase w t Awake)"
| check_again: "in_phase w t Awake \<Longrightarrow> wg_step (W_check t) w (wg_check w t)"

code_pred wg_step .

inductive_cases wg_addE: "wg_step (W_add n) w w'"
inductive_simps wg_step_simps:
  "wg_step (W_add n) w w'" "wg_step (W_wait t) w w'" "wg_step (W_spurious t) w w'" "wg_step (W_check t) w w'"

text \<open>The states of a group made with count \<open>init\<close> and \<open>n\<close> threads; an \<open>add\<close> that fits does not wrap.\<close>

definition add_fits :: "wg_move \<Rightarrow> wg_world \<Rightarrow> bool" where
  "add_fits m w = (case m of W_add n \<Rightarrow> unat (wg_counter (ww_group w)) + unat n < 2 ^ 32 | _ \<Rightarrow> True)"

definition wg_initial :: "32 word \<Rightarrow> nat \<Rightarrow> wg_world" where
  "wg_initial init n = \<lparr>ww_group = wg_new init, ww_threads = replicate n Outside\<rparr>"

inductive wg_reach :: "32 word \<Rightarrow> nat \<Rightarrow> wg_world \<Rightarrow> bool" for init n where
  start: "wg_reach init n (wg_initial init n)"
| more: "wg_reach init n w \<Longrightarrow> add_fits m w \<Longrightarrow> wg_step m w w' \<Longrightarrow> wg_reach init n w'"

definition no_stuck_waiter :: "wg_world \<Rightarrow> bool" where
  "no_stuck_waiter w = (wg_done (ww_group w) \<longrightarrow> Asleep \<notin> set (ww_threads w))"

lemma asleep_wake_all: "Asleep \<notin> set (wake_all ts)"
  by (auto simp: wake_all_def)

lemma asleep_update: "Asleep \<notin> set ts \<Longrightarrow> p \<noteq> Asleep \<Longrightarrow> Asleep \<notin> set (ts[t := p])"
  using set_update_subset_insert [of ts t p] by auto

lemma add_fits_done:
  "add_fits (W_add n) w \<Longrightarrow> wg_done (wg_add n (ww_group w)) \<Longrightarrow> wg_done (ww_group w)"
  using unat_add_lem [of "wg_counter (ww_group w)" n]
  by (simp add: add_fits_def wg_done_def wg_add_def) (metis add_is_0 unat_0 unat_eq_0)

lemma release_quiet_done: "wg_release g = (g', r, False) \<Longrightarrow> wg_done g' \<Longrightarrow> wg_done g"
  by (auto simp: wg_release_def wg_done_def Let_def split: if_splits)

lemma wg_step_keeps:
  assumes "wg_step m w w'" and "add_fits m w" and "no_stuck_waiter w"
  shows "no_stuck_waiter w'"
  using assms
proof (induction rule: wg_step.induct)
  case (add n w)
  then show ?case using add_fits_done [of n w] by (auto simp: no_stuck_waiter_def)
next
  case (release_quiet w g r)
  then show ?case using release_quiet_done by (auto simp: no_stuck_waiter_def)
qed (auto simp: no_stuck_waiter_def asleep_wake_all wg_check_def wg_set_phase_def asleep_update)

text \<open>
  C12: while no \<open>add\<close> wraps the count around, no thread sleeps in \<open>wait\<close> once the count is
  zero, whatever the interleaving of adds, releases, waits and spurious wake-ups: every
  waiter of a finished group has been woken and returns at its next check.
\<close>

theorem wait_group_wakes_all:
  assumes "wg_reach init n w" and "wg_count (ww_group w) = 0"
  shows "Asleep \<notin> set (ww_threads w)
    \<and> list_all (\<lambda>t. in_phase w t Awake = wg_step (W_check t) w (wg_set_phase w t Outside)) [0..<length (ww_threads w)]"
proof -
  have "no_stuck_waiter w"
    using assms(1)
  proof induction
    case start
    then show ?case by (auto simp: no_stuck_waiter_def wg_initial_def)
  qed (rule wg_step_keeps)
  then show ?thesis
    using assms(2) by (auto simp: no_stuck_waiter_def wg_count_def wg_done_def list_all_iff wg_step_simps wg_check_def)
qed

lemma wait_group_wakes_all_witness:
  "wg_step (W_check 0) \<lparr>ww_group = wg_new 0, ww_threads = [Awake]\<rparr> \<lparr>ww_group = wg_new 0, ww_threads = [Outside]\<rparr>"
proof -
  have 0: "wg_reach 1 1 \<lparr>ww_group = wg_new 1, ww_threads = [Outside]\<rparr>"
    using wg_reach.start [of 1 1] by (simp add: wg_initial_def)
  have 1: "wg_reach 1 1 \<lparr>ww_group = wg_new 1, ww_threads = [Asleep]\<rparr>"
    by (rule wg_reach.more [OF 0, of "W_wait 0"])
      (simp_all add: wg_step_simps add_fits_def in_phase_def wg_check_def wg_set_phase_def wg_done_def wg_new_def)
  have "wg_release (wg_new 1) = (wg_new 0, True, True)"
    by (simp add: wg_release_def wg_new_def)
  then have 2: "wg_reach 1 1 \<lparr>ww_group = wg_new 0, ww_threads = [Awake]\<rparr>"
    using wg_reach.more [OF 1, of W_release] wg_step.release_last [of "\<lparr>ww_group = wg_new 1, ww_threads = [Asleep]\<rparr>"]
    by (auto simp: add_fits_def wake_all_def)
  from wait_group_wakes_all [OF 2] show ?thesis
    by (simp add: wg_count_def wg_new_def in_phase_def wg_set_phase_def)
qed

text \<open>
  An \<open>add\<close> that wraps the count to zero leaves a waiter asleep on a finished group; the
  count is zero, \<open>release\<close> answers true, and nothing notifies the waiter.
\<close>

theorem wait_group_wrap_strands:
  "\<exists>w. wg_step (W_wait 0) (wg_initial 1 1) w \<and>
     (let w' = w\<lparr>ww_group := wg_add (- 1) (ww_group w)\<rparr> in
       wg_step (W_add (- 1)) w w' \<and> wg_done (ww_group w') \<and> in_phase w' 0 Asleep
       \<and> wg_release (ww_group w') = (ww_group w', True, False))"
  by (rule exI [of _ "\<lparr>ww_group = wg_new 1, ww_threads = [Asleep]\<rparr>"])
    (simp add: wg_step_simps wg_initial_def wg_check_def wg_set_phase_def wg_done_def wg_new_def wg_add_def
      in_phase_def wg_release_def Let_def)

end
