(* ===== verification/Sync_Scopes.thy ===== *)
theory Sync_Scopes
  imports Scope_Contract Wait_Group Run_Contract
begin

text \<open>
  The scope classes of \<open>src/sync.hpp\<close>: \<open>group_scope\<close>, \<open>semaphore_scope\<close> and
  \<open>barrier_scope\<close>, each an instance of the scope contract, and \<open>event\<close>. A group, a semaphore
  or a barrier is named by a number, a null pointer is \<open>None\<close>. The semaphores and barriers
  are those of hpx, with the behaviour of their \<open>std\<close> counterparts.
\<close>

subsection \<open>group_scope\<close>

record group_scope =
  gs_group :: "nat option"

definition gs_make :: "nat \<Rightarrow> group_scope" where
  "gs_make g = \<lparr>gs_group = Some g\<rparr>"

definition gs_move :: "group_scope \<Rightarrow> group_scope \<times> group_scope" where
  "gs_move other = (\<lparr>gs_group = gs_group other\<rparr>, other\<lparr>gs_group := None\<rparr>)"

text \<open>The duties are the groups on which \<open>wait_group::release\<close> was called.\<close>

definition gs_release :: "group_scope \<Rightarrow> group_scope \<times> nat list" where
  "gs_release s = (case gs_group s of None \<Rightarrow> (s, []) | Some g \<Rightarrow> (s\<lparr>gs_group := None\<rparr>, [g]))"

definition gs_assign :: "group_scope \<Rightarrow> group_scope \<Rightarrow> group_scope \<times> group_scope \<times> nat list" where
  "gs_assign s other = (case gs_release s of (s', ds) \<Rightarrow>
     (s'\<lparr>gs_group := gs_group other\<rparr>, other\<lparr>gs_group := None\<rparr>, ds))"

definition gs_finish :: "group_scope \<Rightarrow> nat list" where
  "gs_finish s = snd (gs_release s)"

definition gs_ops :: "(nat, nat, group_scope) scope_ops" where
  "gs_ops = \<lparr>so_takes = Some, so_make = gs_make, so_move = gs_move, so_assign = gs_assign, so_finish = gs_finish\<rparr>"

lemmas gs_defs = gs_ops_def gs_make_def gs_move_def gs_assign_def gs_finish_def gs_release_def

interpretation gs: scope gs_ops gs_group
  by unfold_locales (auto simp: gs_defs split: option.splits)

text \<open>The wait groups of a program, and the releases a run of scopes makes on them.\<close>

fun release_groups :: "nat list \<Rightarrow> (nat \<Rightarrow> wait_group) \<Rightarrow> nat \<Rightarrow> wait_group" where
  "release_groups [] wgs = wgs"
| "release_groups (g # gs) wgs = release_groups gs (wgs(g := fst (wg_release (wgs g))))"

lemma release_groups_count:
  "unat (wg_counter (release_groups gs wgs g)) = unat (wg_counter (wgs g)) - count (mset gs) g"
proof (induction gs arbitrary: wgs)
  case (Cons h gs)
  obtain g' r nt where "wg_release (wgs h) = (g', r, nt)" by (cases "wg_release (wgs h)")
  then show ?case using Cons.IH wg_release_nat by fastforce
qed simp

text \<open>
  C17: when each task added to a wait group gets one \<open>group_scope\<close>, then after any moves and
  assignments of those scopes, once none is alive every group is back at zero and done, and
  none was released too often.
\<close>

theorem group_scopes_finish_groups:
  assumes "scope_run gs_ops cs (replicate n None) = (replicate n None, tk, ds)"
    and "unat (wg_counter (wgs g)) = count (mset tk) g"
  shows "wg_done (release_groups ds wgs g) \<and> count (mset ds) g = unat (wg_counter (wgs g))"
proof -
  have "count (mset ds) g = count (mset tk) g"
    using gs.run_discharges_all [OF assms(1)] by simp
  then show ?thesis
    using assms(2) release_groups_count [of ds wgs g] by (simp add: wg_done_def flip: unat_eq_0)
qed

lemma group_scopes_finish_groups_witness:
  "wg_done (release_groups [4, 4] ((\<lambda>_. wg_new 0)(4 := wg_add 2 (wg_new 0))) 4)"
proof -
  have "scope_run gs_ops [Construct 0 4, Construct 1 4, Move_construct 2 0, Move_assign 1 2, Destroy 0,
      Destroy 1, Destroy 2] (replicate 3 None) = (replicate 3 None, [4, 4], [4, 4])"
    by (simp add: gs_defs eval_nat_numeral)
  from group_scopes_finish_groups [OF this, of "(\<lambda>_. wg_new 0)(4 := wg_add 2 (wg_new 0))" 4]
  show ?thesis by (simp add: wg_add_def wg_new_def)
qed

subsection \<open>semaphore_scope\<close>

record semaphore_scope =
  ss_sem :: "nat option"

definition ss_make :: "nat \<Rightarrow> semaphore_scope" where
  "ss_make s = \<lparr>ss_sem = Some s\<rparr>"

definition ss_move :: "semaphore_scope \<Rightarrow> semaphore_scope \<times> semaphore_scope" where
  "ss_move other = (\<lparr>ss_sem = ss_sem other\<rparr>, other\<lparr>ss_sem := None\<rparr>)"

definition ss_release :: "semaphore_scope \<Rightarrow> semaphore_scope \<times> nat list" where
  "ss_release s = (case ss_sem s of None \<Rightarrow> (s, []) | Some m \<Rightarrow> (s\<lparr>ss_sem := None\<rparr>, [m]))"

definition ss_assign :: "semaphore_scope \<Rightarrow> semaphore_scope \<Rightarrow> semaphore_scope \<times> semaphore_scope \<times> nat list" where
  "ss_assign s other = (case ss_release s of (s', ds) \<Rightarrow>
     (s'\<lparr>ss_sem := ss_sem other\<rparr>, other\<lparr>ss_sem := None\<rparr>, ds))"

definition ss_finish :: "semaphore_scope \<Rightarrow> nat list" where
  "ss_finish s = snd (ss_release s)"

definition ss_ops :: "(nat, nat, semaphore_scope) scope_ops" where
  "ss_ops = \<lparr>so_takes = Some, so_make = ss_make, so_move = ss_move, so_assign = ss_assign, so_finish = ss_finish\<rparr>"

lemmas ss_defs = ss_ops_def ss_make_def ss_move_def ss_assign_def ss_finish_def ss_release_def

interpretation ss: scope ss_ops ss_sem
  by unfold_locales (auto simp: ss_defs split: option.splits)

text \<open>
  The semaphores count the permits that are left. The constructor acquires one and waits
  (\<open>None\<close>) when there is none; the discharged duties are released.
\<close>

record sem_state =
  sm_slots :: "semaphore_scope option list"
  sm_permits :: "nat \<Rightarrow> nat"

definition release_permits :: "nat list \<Rightarrow> (nat \<Rightarrow> nat) \<Rightarrow> nat \<Rightarrow> nat" where
  "release_permits ds permits s = permits s + count (mset ds) s"

fun sem_step :: "nat scope_call \<Rightarrow> sem_state \<Rightarrow> sem_state option" where
  "sem_step (Construct i s) st =
     (if i < length (sm_slots st) \<and> sm_slots st ! i = None \<and> 0 < sm_permits st s
      then Some \<lparr>sm_slots = (sm_slots st)[i := Some (ss_make s)], sm_permits = (sm_permits st)(s := sm_permits st s - 1)\<rparr>
      else None)"
| "sem_step c st =
     (case scope_step ss_ops c (sm_slots st) of
        (slots, ds) \<Rightarrow> Some \<lparr>sm_slots = slots, sm_permits = release_permits ds (sm_permits st)\<rparr>)"

abbreviation sem_run :: "nat scope_call list \<Rightarrow> sem_state \<Rightarrow> sem_state option" where
  "sem_run \<equiv> run_moves sem_step"

definition permits_in_use :: "sem_state \<Rightarrow> nat \<Rightarrow> nat" where
  "permits_in_use st s = count (ss.all_duties (sm_slots st)) s"

lemma slots_keep_permits:
  assumes "scope_step ss_ops c (sm_slots st) = (slots, ds)" and "taken_on ss_ops c (sm_slots st) = []"
  shows "release_permits ds (sm_permits st) s + count (ss.all_duties slots) s
    = sm_permits st s + permits_in_use st s"
  using ss.step_conserves [OF assms(1)] assms(2) by (simp add: release_permits_def permits_in_use_def)

lemma sem_step_permits:
  "sem_step c st = Some st' \<Longrightarrow> sm_permits st' s + permits_in_use st' s = sm_permits st s + permits_in_use st s"
proof (cases c)
  case (Construct i m)
  assume "sem_step c st = Some st'"
  with Construct show ?thesis
    using ss.all_duties_update [of i "sm_slots st" "Some (ss_make m)"]
    by (auto simp: permits_in_use_def ss_make_def split: if_splits)
qed (auto simp del: scope_step.simps simp: permits_in_use_def split: prod.splits
    dest!: slots_keep_permits [where s = s])

interpretation permits: run_effect sem_step "\<lambda>_. True" "\<lambda>_. False"
    "\<lambda>_ st st'. sm_permits st' s + permits_in_use st' s = sm_permits st s + permits_in_use st s" for s
  by unfold_locales (auto dest: sem_step_permits)

lemma count_duties: "count (ss.duties x) s = (if x = Some \<lparr>ss_sem = Some s\<rparr> then 1 else 0)"
proof (cases x)
  case (Some a)
  obtain m where "a = \<lparr>ss_sem = m\<rparr>" by (cases a)
  with Some show ?thesis by (cases m) auto
qed simp

lemma holders_duties: "count (ss.all_duties sl) s = length (filter (\<lambda>x. x = Some \<lparr>ss_sem = Some s\<rparr>) sl)"
  by (induction sl) (auto simp: ss.all_duties_def count_duties)

text \<open>
  C18: in every run of threads that create, hand over, assign and destroy semaphore scopes,
  the permits of a semaphore and the scopes that hold it always add up to its initial value:
  no permit is lost or released twice, and no more scopes hold it than it allows.
\<close>

theorem semaphore_scopes_keep_permits:
  assumes "sem_run cs \<lparr>sm_slots = replicate n None, sm_permits = permits\<rparr> = Some st"
  shows "sm_permits st s + length (filter (\<lambda>x. x = Some \<lparr>ss_sem = Some s\<rparr>) (sm_slots st)) = permits s"
  using permits.run_has_effect [OF TrueI assms list_ex_False, of s] by (simp add: permits_in_use_def ss.all_duties_none flip: holders_duties)

lemma semaphore_scopes_keep_permits_witness:
  "(case sem_run [Construct 0 3, Move_construct 1 0, Construct 2 3, Move_assign 1 2]
      \<lparr>sm_slots = replicate 3 None, sm_permits = (\<lambda>_. 2)\<rparr> of None \<Rightarrow> False | Some st \<Rightarrow> sm_permits st 3 + 1 = 2)"
proof -
  let ?run = "sem_run [Construct 0 3, Move_construct 1 0, Construct 2 3, Move_assign 1 2]
      \<lparr>sm_slots = replicate 3 None, sm_permits = (\<lambda>_. 2)\<rparr>"
  note calc = ss_defs release_permits_def eval_nat_numeral
  have "?run \<noteq> None" by (simp add: calc)
  then obtain st where st: "?run = Some st" by blast
  then have "sm_slots st = [Some \<lparr>ss_sem = None\<rparr>, Some \<lparr>ss_sem = Some 3\<rparr>, Some \<lparr>ss_sem = None\<rparr>]"
    by (auto simp: calc)
  with semaphore_scopes_keep_permits [OF st, of 3] st show ?thesis by simp
qed

subsection \<open>barrier_scope\<close>

text \<open>
  What a scope does at its barrier. The pointer is part of the event, so that a call through
  a null pointer would show. A duty of a scope is to arrive at the barrier it points to.
\<close>

datatype barrier_event = Arrive_and_wait "nat option" | Arrive_and_drop "nat option"

fun event_barrier :: "barrier_event \<Rightarrow> nat option" where
  "event_barrier (Arrive_and_wait b) = b"
| "event_barrier (Arrive_and_drop b) = b"

record barrier_scope =
  bs_barrier :: "nat option"
  bs_dropped :: bool
  bs_waited :: bool

definition bs_make :: "nat \<Rightarrow> barrier_scope" where
  "bs_make b = \<lparr>bs_barrier = Some b, bs_dropped = False, bs_waited = False\<rparr>"

definition bs_move :: "barrier_scope \<Rightarrow> barrier_scope \<times> barrier_scope" where
  "bs_move other =
     (\<lparr>bs_barrier = bs_barrier other, bs_dropped = bs_dropped other, bs_waited = bs_waited other\<rparr>,
      \<lparr>bs_barrier = None, bs_dropped = True, bs_waited = True\<rparr>)"

definition bs_drop :: "barrier_scope \<Rightarrow> barrier_scope \<times> barrier_event list" where
  "bs_drop s = (if \<not> bs_dropped s \<and> \<not> bs_waited s
     then (s\<lparr>bs_dropped := True\<rparr>, [Arrive_and_drop (bs_barrier s)]) else (s, []))"

definition bs_wait :: "barrier_scope \<Rightarrow> barrier_scope \<times> barrier_event list" where
  "bs_wait s = (if \<not> bs_dropped s \<and> \<not> bs_waited s
     then (s\<lparr>bs_waited := True\<rparr>, [Arrive_and_wait (bs_barrier s)]) else (s, []))"

definition bs_assign :: "barrier_scope \<Rightarrow> barrier_scope \<Rightarrow> barrier_scope \<times> barrier_scope \<times> barrier_event list" where
  "bs_assign s other = (case bs_drop s of (s', es) \<Rightarrow>
     (s'\<lparr>bs_barrier := bs_barrier other, bs_dropped := bs_dropped other, bs_waited := bs_waited other\<rparr>,
      \<lparr>bs_barrier = None, bs_dropped = True, bs_waited = True\<rparr>, es))"

definition bs_finish :: "barrier_scope \<Rightarrow> barrier_event list" where
  "bs_finish s = (if \<not> bs_dropped s \<and> \<not> bs_waited s then [Arrive_and_wait (bs_barrier s)] else [])"

datatype barrier_member = Drop_member | Wait_member

definition bs_early :: "barrier_member \<Rightarrow> barrier_scope \<Rightarrow> barrier_scope \<times> nat option list" where
  "bs_early m s = (case (case m of Drop_member \<Rightarrow> bs_drop s | Wait_member \<Rightarrow> bs_wait s) of
     (s', es) \<Rightarrow> (s', map event_barrier es))"

definition bs_held :: "barrier_scope \<Rightarrow> nat option option" where
  "bs_held s = (if \<not> bs_dropped s \<and> \<not> bs_waited s then Some (bs_barrier s) else None)"

definition bs_ops :: "(nat, nat option, barrier_scope) scope_ops" where
  "bs_ops = \<lparr>so_takes = (\<lambda>b. Some (Some b)), so_make = bs_make, so_move = bs_move,
     so_assign = (\<lambda>s other. case bs_assign s other of (s', other', es) \<Rightarrow> (s', other', map event_barrier es)),
     so_finish = (\<lambda>s. map event_barrier (bs_finish s))\<rparr>"

lemmas bs_defs = bs_ops_def bs_make_def bs_move_def bs_assign_def bs_finish_def bs_drop_def bs_wait_def bs_early_def

interpretation bs: early_scope bs_ops bs_held bs_early
  by unfold_locales (auto simp: bs_defs bs_held_def split: barrier_member.splits if_splits)

lemma taken_barriers: "None \<notin> set (early_taken bs_ops c st)"
proof (cases c)
  case (Call d)
  then show ?thesis by (cases d) (simp_all add: bs_ops_def)
qed simp

lemma run_taken_barriers: "early_run bs_ops ef cs st = (st', tk, ds) \<Longrightarrow> None \<notin> set tk"
  by (induction cs arbitrary: st tk ds) (auto split: prod.splits simp: taken_barriers)

text \<open>
  In every program that constructs, moves, assigns, waits, drops and destroys barrier
  scopes and ends with none alive, each scope arrives at its barrier exactly once (by \<open>wait\<close>,
  \<open>drop\<close>, an assignment over it or its destructor) and never through a null pointer.
\<close>

theorem barrier_scopes_arrive_once:
  assumes "early_run bs_ops bs_early cs (replicate n None) = (replicate n None, tk, ds)"
  shows "mset ds = mset tk \<and> None \<notin> set ds"
  using bs.early_run_discharges_all [OF assms] run_taken_barriers [OF assms]
  by (metis mset_eq_setD)

lemma barrier_scopes_arrive_once_witness:
  "\<exists>tk ds. early_run bs_ops bs_early [Call (Construct 0 1), Call (Construct 1 1), Early 0 Wait_member, Call (Construct 2 2),
      Early 0 Drop_member, Call (Move_assign 2 1), Call (Destroy 0), Call (Destroy 1), Call (Destroy 2)]
      (replicate 3 None) = (replicate 3 None, tk, ds) \<and> tk = [Some 1, Some 1, Some 2] \<and> mset ds = mset tk"
proof -
  have run: "early_run bs_ops bs_early [Call (Construct 0 1), Call (Construct 1 1), Early 0 Wait_member, Call (Construct 2 2),
      Early 0 Drop_member, Call (Move_assign 2 1), Call (Destroy 0), Call (Destroy 1), Call (Destroy 2)]
      (replicate 3 None) = (replicate 3 None, [Some 1, Some 1, Some 2], [Some 1, Some 2, Some 1])"
    by (simp add: bs_defs eval_nat_numeral)
  from barrier_scopes_arrive_once [OF run] run show ?thesis by blast
qed

subsection \<open>event\<close>

text \<open>
  All copies of an \<open>event\<close> share one binary semaphore, whose count is 0 or 1. \<open>None\<close> is an
  acquire that waits; a release beyond the maximum is outside the semaphore's contract.
\<close>

definition ev_new :: bool where
  "ev_new = False"

definition ev_wait :: "bool \<Rightarrow> bool option" where
  "ev_wait bin = (if bin then Some False else None)"

definition ev_try_wait :: "bool \<Rightarrow> bool \<times> bool" where
  "ev_try_wait bin = (False, bin)"

definition ev_signal :: "bool \<Rightarrow> bool res" where
  "ev_signal bin = (if bin then Inl Undefined else Inr True)"

text \<open>
  The timed waits: whether the semaphore is free when the call begins and at each wake-up of the
  thread, with whether the time is then up. \<open>None\<close> while the thread still waits.
\<close>

fun ev_timed_wait :: "bool \<Rightarrow> (bool \<times> bool) list \<Rightarrow> (bool \<times> bool) option" where
  "ev_timed_wait True ws = Some (False, True)"
| "ev_timed_wait False [] = None"
| "ev_timed_wait False ((bin, late) # ws) = (if late \<and> \<not> bin then Some (False, False) else ev_timed_wait bin ws)"

definition ev_wait_for :: "bool \<Rightarrow> (bool \<times> bool) list \<Rightarrow> (bool \<times> bool) option" where
  "ev_wait_for bin ws = ev_timed_wait bin ws"

definition ev_wait_until :: "bool \<Rightarrow> (bool \<times> bool) list \<Rightarrow> (bool \<times> bool) option" where
  "ev_wait_until bin ws = ev_timed_wait bin ws"

lemma ev_timed_wait_result:
  "ev_timed_wait bin ws = (case dropWhile (\<lambda>(b, late). \<not> b \<and> \<not> late) ((bin, False) # ws) of
     [] \<Rightarrow> None | (b, late) # _ \<Rightarrow> Some (False, b))"
  by (induction bin ws rule: ev_timed_wait.induct) auto

text \<open>A signal lets exactly one waiter through; the next has to wait for another signal.\<close>

lemma event_signals_one:
  "ev_signal ev_new = Inr b \<Longrightarrow> ev_wait b = Some ev_new \<and> ev_wait ev_new = None \<and> ev_try_wait b = (ev_new, True)
    \<and> ev_signal b = Inl Undefined"
  by (auto simp: ev_signal_def ev_new_def ev_wait_def ev_try_wait_def)

end
