(* ===== verification/Timer.thy ===== *)
theory Timer
  imports Scope_Contract
begin

text \<open>
  \<open>src/src/timer.hpp\<close>: cancel tokens, \<open>cancel_guard\<close> and the worker loops behind \<open>once\<close> and
  \<open>periodic\<close>. A token is a shared flag, named by a number; a null token is \<open>None\<close>. Time is
  counted in microseconds.
\<close>

subsection \<open>Cancel tokens\<close>

text \<open>The flags that are set. \<open>make_token\<close> gives a fresh token whose flag is clear.\<close>

type_synonym flags = "nat set"

definition make_token :: "nat \<Rightarrow> flags \<Rightarrow> nat option \<times> flags" where
  "make_token fresh flags = (Some fresh, flags - {fresh})"

definition release_token :: "nat option \<Rightarrow> flags \<Rightarrow> nat option \<times> flags" where
  "release_token token flags = (case token of None \<Rightarrow> (None, flags) | Some t \<Rightarrow> (None, insert t flags))"

subsection \<open>cancel_guard\<close>

record cancel_guard =
  cg_token :: "nat option"

definition cg_make :: "nat option \<Rightarrow> cancel_guard" where
  "cg_make token = \<lparr>cg_token = token\<rparr>"

definition cg_move :: "cancel_guard \<Rightarrow> cancel_guard \<times> cancel_guard" where
  "cg_move other = (\<lparr>cg_token = cg_token other\<rparr>, other\<lparr>cg_token := None\<rparr>)"

text \<open>The duties are the tokens whose flag the guard sets. The assignment sets none.\<close>

definition cg_assign :: "cancel_guard \<Rightarrow> cancel_guard \<Rightarrow> cancel_guard \<times> cancel_guard \<times> nat list" where
  "cg_assign g other = (g\<lparr>cg_token := cg_token other\<rparr>, other\<lparr>cg_token := None\<rparr>, [])"

definition cg_finish :: "cancel_guard \<Rightarrow> nat list" where
  "cg_finish g = (case cg_token g of None \<Rightarrow> [] | Some t \<Rightarrow> [t])"

definition cg_ops :: "(nat option, nat, cancel_guard) scope_ops" where
  "cg_ops = \<lparr>so_takes = id, so_make = cg_make, so_move = cg_move, so_assign = cg_assign, so_finish = cg_finish\<rparr>"

lemmas cg_defs = cg_ops_def cg_make_def cg_move_def cg_assign_def cg_finish_def

text \<open>
  The guard keeps the scope contract but for one law: an assignment over a guard that holds a
  token forgets the token. So the contract holds for the operations with an assignment that
  cancels first, and for the library's own in programs without assignments.
\<close>

definition cg_assign_cancelling :: "cancel_guard \<Rightarrow> cancel_guard \<Rightarrow> cancel_guard \<times> cancel_guard \<times> nat list" where
  "cg_assign_cancelling g other = (case cg_assign g other of (g', other', ds) \<Rightarrow> (g', other', cg_finish g @ ds))"

definition cg_spec_ops :: "(nat option, nat, cancel_guard) scope_ops" where
  "cg_spec_ops = cg_ops\<lparr>so_assign := cg_assign_cancelling\<rparr>"

interpretation cg: scope cg_spec_ops cg_token
  by unfold_locales
    (auto simp: cg_spec_ops_def cg_assign_cancelling_def cg_defs duty_list_def split: option.splits)

fun is_move_assign :: "'a scope_call \<Rightarrow> bool" where
  "is_move_assign (Move_assign _ _) = True"
| "is_move_assign _ = False"

lemma cg_spec_members [simp]:
  "so_takes cg_spec_ops = so_takes cg_ops" "so_make cg_spec_ops = so_make cg_ops"
  "so_move cg_spec_ops = so_move cg_ops" "so_finish cg_spec_ops = so_finish cg_ops"
  by (simp_all add: cg_spec_ops_def)

lemma cg_step_eq: "\<not> is_move_assign c \<Longrightarrow> scope_step cg_spec_ops c st = scope_step cg_ops c st"
  by (cases c) (simp_all split: option.splits)

lemma cg_taken_eq: "taken_on cg_spec_ops c st = taken_on cg_ops c st"
  by (cases c) simp_all

lemma cg_run_eq: "\<not> list_ex is_move_assign cs \<Longrightarrow> scope_run cg_spec_ops cs st = scope_run cg_ops cs st"
  by (induction cs arbitrary: st) (auto simp: cg_step_eq cg_taken_eq split: prod.splits)

text \<open>
  In programs that construct, move-construct and destroy guards every token given to a
  guard is cancelled exactly once when no guard is left; an assignment over a guard loses the
  token it held, which then is never cancelled.
\<close>

theorem cancel_guards_cancel:
  assumes "scope_run cg_ops cs (replicate n None) = (replicate n None, tk, ds)"
    and "\<not> list_ex is_move_assign cs"
  shows "mset ds = mset tk
    \<and> scope_run cg_ops [Construct 0 (Some 1), Construct 1 (Some 2), Move_assign 0 1, Destroy 0, Destroy 1] [None, None]
      = ([None, None], [1, 2], [2])"
  using cg.run_discharges_all [of cs n tk ds] cg_run_eq [OF assms(2)] assms(1)
  by (auto simp: cg_defs eval_nat_numeral)

lemma cancel_guards_cancel_witness:
  "mset [5::nat] = mset [5]"
proof -
  have "scope_run cg_ops [Construct 0 (Some 5), Move_construct 1 0, Destroy 0, Destroy 1] (replicate 2 None)
    = (replicate 2 None, [5], [5])"
    by (simp add: cg_defs eval_nat_numeral)
  from cancel_guards_cancel [OF this] show ?thesis by simp
qed

subsection \<open>The workers\<close>

text \<open>
  \<open>timeout_worker\<close> calls back once its sleep is over. The operating system decides when a
  sleep that was asked to last until \<open>t\<close> ends: not before \<open>t\<close>, \<open>late\<close> microseconds after.
\<close>

definition timeout_worker :: "nat \<Rightarrow> nat \<Rightarrow> nat \<Rightarrow> nat" where
  "timeout_worker now delay late = now + delay + late"

text \<open>
  One turn of \<open>interval_worker\<close>: what the two loads of the flag see, and how late the sleep
  ends. The loop is given the turns of a run; its value is the times of the callbacks and
  whether the loop has ended. \<open>sleep_until\<close> a time already past returns at once, so a sleep
  never ends before \<open>now\<close>.
\<close>

record turn =
  seen_before :: bool
  lateness :: nat
  seen_after :: bool

fun interval_loop :: "nat \<Rightarrow> nat \<Rightarrow> nat \<Rightarrow> turn list \<Rightarrow> nat list \<times> bool" where
  "interval_loop interval now due [] = ([], False)"
| "interval_loop interval now due (t # ts) =
     (if seen_before t then ([], True)
      else let awake = max now due + lateness t in
        if seen_after t then ([], True)
        else case interval_loop interval awake (due + interval) ts of (calls, ended) \<Rightarrow> (awake # calls, ended))"

definition interval_worker :: "nat \<Rightarrow> nat \<Rightarrow> turn list \<Rightarrow> nat list \<times> bool" where
  "interval_worker interval start ts = interval_loop interval start (start + interval) ts"

fun saw_cancel :: "turn \<Rightarrow> bool" where
  "saw_cancel t = (seen_before t \<or> seen_after t)"

lemma interval_loop_count:
  "length (fst (interval_loop v now due ts)) = length (takeWhile (\<lambda>t. \<not> saw_cancel t) ts)
   \<and> snd (interval_loop v now due ts) = list_ex saw_cancel ts"
proof (induction ts arbitrary: now due)
  case (Cons t ts)
  show ?case
    using Cons.IH [of "max now due + lateness t" "due + v"] by (auto simp: Let_def split: prod.splits)
qed simp

lemma interval_loop_times:
  "i < length (fst (interval_loop v now due ts)) \<Longrightarrow> due + i * v \<le> fst (interval_loop v now due ts) ! i"
proof (induction ts arbitrary: now due i)
  case (Cons t ts)
  obtain cs e where rec: "interval_loop v (max now due + lateness t) (due + v) ts = (cs, e)"
    by (cases "interval_loop v (max now due + lateness t) (due + v) ts")
  show ?case
  proof (cases i)
    case (Suc k)
    then show ?thesis
      using Cons.prems Cons.IH [of k "max now due + lateness t" "due + v"] rec
      by (auto simp: Let_def split: if_splits)
  qed (use Cons.prems rec in \<open>auto simp: Let_def split: if_splits\<close>)
qed simp

text \<open>A late callback does not delay the schedule: on time again, the next ones are exact.\<close>

lemma interval_loop_exact:
  "i < length (fst (interval_loop v now due ts)) \<Longrightarrow> now \<le> due \<Longrightarrow> list_all (\<lambda>t. lateness t \<le> v) ts
   \<Longrightarrow> fst (interval_loop v now due ts) ! i = due + i * v + lateness (ts ! i)"
proof (induction ts arbitrary: now due i)
  case (Cons t ts)
  obtain cs e where rec: "interval_loop v (due + lateness t) (due + v) ts = (cs, e)"
    by (cases "interval_loop v (due + lateness t) (due + v) ts")
  show ?case
  proof (cases i)
    case (Suc k)
    then show ?thesis
      using Cons.prems Cons.IH [of k "due + lateness t" "due + v"] rec
      by (auto simp: Let_def max_def split: if_splits)
  qed (use Cons.prems rec in \<open>auto simp: Let_def max_def split: if_splits\<close>)
qed simp

text \<open>
  C39: a periodic timer calls back once for each turn until the first in which it sees its
  token cancelled, and then ends; its i-th callback comes no earlier than i + 1 intervals
  after the start, and, while no sleep is late by more than an interval, exactly by its own
  lateness after that: lateness does not add up.
\<close>

theorem interval_worker_schedule:
  assumes "interval_worker v start ts = (calls, ended)"
  shows "length calls = length (takeWhile (\<lambda>t. \<not> saw_cancel t) ts) \<and> ended = list_ex saw_cancel ts
    \<and> (\<forall>i < length calls. start + (i + 1) * v \<le> calls ! i
        \<and> (list_all (\<lambda>t. lateness t \<le> v) ts \<longrightarrow> calls ! i = start + (i + 1) * v + lateness (ts ! i)))"
  using assms interval_loop_count [of v start "start + v" ts] interval_loop_times [of _ v start "start + v" ts]
    interval_loop_exact [of _ v start "start + v" ts]
  by (auto simp: interval_worker_def add.assoc)

lemma interval_worker_schedule_witness:
  "fst (interval_worker 10 100 [\<lparr>seen_before = False, lateness = 3, seen_after = False\<rparr>,
     \<lparr>seen_before = False, lateness = 1, seen_after = False\<rparr>]) ! 1 = (121::nat)"
proof -
  have "interval_worker 10 100 [\<lparr>seen_before = False, lateness = 3, seen_after = False\<rparr>,
     \<lparr>seen_before = False, lateness = 1, seen_after = False\<rparr>] = ([113, 121], False)"
    by (simp add: interval_worker_def Let_def)
  from interval_worker_schedule [OF this] this show ?thesis by simp
qed

end
