(* ===== verification/Finalize.thy ===== *)
theory Finalize
  imports Prelude
begin

text \<open>
  \<open>src/finalize.hpp\<close>: the objects that call a function when their scope ends. Neither copies
  nor moves, so an object lives in the block that made it, and a block ends by destroying its
  objects in the reverse order of their construction.
\<close>

record ('f, 'a) defer_scope =
  df_func :: 'f
  df_args :: "'a list"

definition make_defer :: "'f \<Rightarrow> 'a list \<Rightarrow> ('f, 'a) defer_scope" where
  "make_defer func args = \<lparr>df_func = func, df_args = args\<rparr>"

definition make_detach :: "'f \<Rightarrow> 'a list \<Rightarrow> ('f, 'a) defer_scope" where
  "make_detach func args = \<lparr>df_func = func, df_args = args\<rparr>"

text \<open>A call in the thread that leaves the block, or a task that is handed to the runtime.\<close>

datatype ('f, 'a) final_call = Called 'f "'a list" | Spawned 'f "'a list"

definition defer_finish :: "('f, 'a) defer_scope \<Rightarrow> ('f, 'a) final_call" where
  "defer_finish d = (if df_args d = [] then Called (df_func d) [] else Called (df_func d) (df_args d))"

definition detach_finish :: "('f, 'a) defer_scope \<Rightarrow> ('f, 'a) final_call" where
  "detach_finish d = (if df_args d = [] then Spawned (df_func d) [] else Spawned (df_func d) (df_args d))"

text \<open>A block: its statements make objects (true for a detached one) and may leave it early.\<close>

datatype ('f, 'a) block_step = Make bool 'f "'a list" | Leave

fun run_block :: "('f, 'a) block_step list \<Rightarrow> (bool \<times> ('f, 'a) defer_scope) list \<Rightarrow> ('f, 'a) final_call list" where
  "run_block (Make detached f args # ss) objs =
     run_block ss ((detached, if detached then make_detach f args else make_defer f args) # objs)"
| "run_block _ objs = map (\<lambda>(detached, d). if detached then detach_finish d else defer_finish d) objs"

definition made_before_leaving :: "('f, 'a) block_step list \<Rightarrow> ('f, 'a) block_step list" where
  "made_before_leaving ss = takeWhile (\<lambda>s. s \<noteq> Leave) ss"

fun call_of :: "('f, 'a) block_step \<Rightarrow> ('f, 'a) final_call" where
  "call_of (Make detached f args) = (if detached then Spawned f args else Called f args)"
| "call_of Leave = undefined"

lemma run_block_calls:
  "run_block ss objs = rev (map call_of (made_before_leaving ss))
     @ map (\<lambda>(detached, d). if detached then detach_finish d else defer_finish d) objs"
  by (induction ss objs rule: run_block.induct)
    (auto simp: made_before_leaving_def make_defer_def make_detach_def defer_finish_def detach_finish_def)

text \<open>
  However a block is left, the functions of the objects made so far run exactly once, the last
  one made first, with the arguments they were made with; later ones do not run.
\<close>

lemma block_runs_finalizers: "run_block ss [] = rev (map call_of (made_before_leaving ss))"
  by (simp add: run_block_calls)

end
