(* ===== verification/Buffer.thy ===== *)
theory Buffer
  imports String_View
begin

text \<open>
  \<open>src/buffer.hpp\<close>: the stream buffer \<open>memorybuf\<close> over a block of memory, and the streams
  \<open>input_buffer\<close>, \<open>output_buffer\<close> and \<open>format_buffer\<close> that own one. The memory is the list of
  characters from \<open>data_\<close> on; the get and put pointers are offsets into it, each with its
  end pointer, or \<open>None\<close> when they are null. \<open>sputc\<close> and \<open>sputn\<close> are the public members of
  \<open>std::streambuf\<close> that the stream operators use.
\<close>

section \<open>memorybuf\<close>

record memorybuf =
  mb_data :: "string option"
  mb_size :: nat
  mb_get :: "(nat \<times> nat) option"
  mb_put :: "(nat \<times> nat) option"

definition mb_new :: memorybuf where
  "mb_new = \<lparr>mb_data = None, mb_size = 0, mb_get = None, mb_put = None\<rparr>"

definition mb_output :: "string \<Rightarrow> nat \<Rightarrow> memorybuf \<Rightarrow> memorybuf" where
  "mb_output buf n m = m\<lparr>mb_get := None, mb_put := Some (0, n), mb_data := Some buf, mb_size := 0\<rparr>"

definition mb_input :: "string \<Rightarrow> nat \<Rightarrow> memorybuf \<Rightarrow> memorybuf" where
  "mb_input buf n m = m\<lparr>mb_get := Some (0, n), mb_put := None, mb_data := Some buf, mb_size := n\<rparr>"

definition mb_memory :: "memorybuf \<Rightarrow> string" where
  "mb_memory m = (case mb_data m of None \<Rightarrow> [] | Some s \<Rightarrow> s)"

text \<open>
  \<open>size\<close>: of an input the size it was given, of an output what was written. For an empty input
  the code subtracts \<open>data_\<close> from a null pointer.
\<close>

definition mb_current_size :: "memorybuf \<Rightarrow> nat res" where
  "mb_current_size m =
     (if mb_size m \<noteq> 0 then Inr (mb_size m)
      else case mb_put m of
        Some (p, e) \<Rightarrow> Inr p
      | None \<Rightarrow> if mb_data m = None then Inr 0 else Inl Undefined)"

definition mb_used :: "memorybuf \<Rightarrow> nat" where
  "mb_used m = (if mb_size m \<noteq> 0 then (case mb_get m of None \<Rightarrow> 0 | Some (g, e) \<Rightarrow> g) else 0)"

definition mb_readable :: "memorybuf \<Rightarrow> bool" where
  "mb_readable m = (case mb_get m of None \<Rightarrow> False | Some (g, e) \<Rightarrow> g < e)"

definition mb_writable :: "memorybuf \<Rightarrow> bool" where
  "mb_writable m = (case mb_put m of None \<Rightarrow> False | Some (p, e) \<Rightarrow> p \<noteq> e)"

text \<open>\<open>gbump\<close> takes an \<open>int\<close>; a position outside of the block is undefined.\<close>

definition gbump :: "nat \<Rightarrow> nat \<times> nat \<Rightarrow> (nat \<times> nat) res" where
  "gbump n ge = (let p = int (fst ge) + sint (word_of_nat n :: 32 word) in
     if 0 \<le> p \<and> p \<le> int (snd ge) then Inr (nat p, snd ge) else Inl Undefined)"

text \<open>A view is \<open>None\<close> when it is the default one, with a null pointer.\<close>

definition zb_getbody :: "nat \<Rightarrow> memorybuf \<Rightarrow> (memorybuf \<times> string option) res" where
  "zb_getbody n m =
     (case mb_get m of
        None \<Rightarrow> Inr (m, None)
      | Some (g, e) \<Rightarrow>
          if e - g \<ge> n
          then map_res (\<lambda>ge. (m\<lparr>mb_get := Some ge\<rparr>, Some (take n (drop g (mb_memory m))))) (gbump n (g, e))
          else Inr (m, None))"




text \<open>\<open>None\<close> is the end-of-file value.\<close>

definition mb_underflow :: "memorybuf \<Rightarrow> char option" where
  "mb_underflow m =
     (case mb_get m of None \<Rightarrow> None | Some (g, e) \<Rightarrow> if g < e then Some (mb_memory m ! g) else None)"

definition mb_store :: "char \<Rightarrow> nat \<Rightarrow> nat \<Rightarrow> memorybuf \<Rightarrow> memorybuf" where
  "mb_store ch p e m = m\<lparr>mb_data := Some ((mb_memory m)[p := ch]), mb_put := Some (Suc p, e)\<rparr>"

definition mb_overflow :: "char option \<Rightarrow> memorybuf \<Rightarrow> memorybuf \<times> bool" where
  "mb_overflow ch m =
     (case mb_put m of
        None \<Rightarrow> (m, False)
      | Some (p, e) \<Rightarrow>
          (case ch of
             None \<Rightarrow> (m, False)
           | Some c \<Rightarrow> if p = e then (m, False) else (mb_store c p e m, True)))"

definition mb_sync :: "memorybuf \<Rightarrow> int" where
  "mb_sync m = 0"

definition sputc :: "char \<Rightarrow> memorybuf \<Rightarrow> memorybuf \<times> bool" where
  "sputc c m =
     (case mb_put m of
        None \<Rightarrow> mb_overflow (Some c) m
      | Some (p, e) \<Rightarrow> if p < e then (mb_store c p e m, True) else mb_overflow (Some c) m)"

text \<open>\<open>sputn\<close> stores characters until one is refused, and tells how many it stored.\<close>

fun sputn :: "string \<Rightarrow> memorybuf \<Rightarrow> memorybuf \<times> nat" where
  "sputn [] m = (m, 0)"
| "sputn (c # cs) m =
     (case sputc c m of
        (m1, False) \<Rightarrow> (m1, 0)
      | (m1, True) \<Rightarrow> (case sputn cs m1 of (m2, k) \<Rightarrow> (m2, Suc k)))"

section \<open>The streams\<close>

definition input_buffer :: "string \<Rightarrow> memorybuf" where
  "input_buffer mem = mb_input mem (length mem) mb_new"

definition in_is_open :: "memorybuf \<Rightarrow> bool" where
  "in_is_open b = mb_readable b"

text \<open>The positions of \<open>begin\<close> and \<open>end\<close> are offsets into the memory from \<open>data\<close> on.\<close>

definition in_size :: "memorybuf \<Rightarrow> nat res" where
  "in_size b = mb_current_size b"

definition in_used :: "memorybuf \<Rightarrow> nat" where
  "in_used b = mb_used b"

definition in_begin :: "memorybuf \<Rightarrow> nat" where
  "in_begin b = 0"

definition in_end :: "memorybuf \<Rightarrow> nat res" where
  "in_end b = map_res (\<lambda>n. in_begin b + n) (in_size b)"

definition getbody :: "nat \<Rightarrow> memorybuf \<Rightarrow> (memorybuf \<times> string option) res" where
  "getbody n b = zb_getbody n b"


definition output_buffer :: "string \<Rightarrow> nat \<Rightarrow> memorybuf" where
  "output_buffer mem n = mb_output mem n mb_new"

definition out_is_open :: "memorybuf \<Rightarrow> bool" where
  "out_is_open b = mb_writable b"

definition out_size :: "memorybuf \<Rightarrow> nat res" where
  "out_size b = mb_current_size b"

definition out_begin :: "memorybuf \<Rightarrow> nat" where
  "out_begin b = 0"

definition out_end :: "memorybuf \<Rightarrow> nat res" where
  "out_end b = map_res (\<lambda>n. out_begin b + n) (out_size b)"

text \<open>\<open>format_buffer<S>\<close> writes to the first S of its S + 1 zeroed characters.\<close>

definition fb_new :: "nat \<Rightarrow> memorybuf" where
  "fb_new S = output_buffer (replicate (S + 1) (CHR 0x00)) S"

definition fb_bool :: "memorybuf \<Rightarrow> bool res" where
  "fb_bool b = map_res (\<lambda>n. n > 0) (mb_current_size b)"

definition fb_not :: "memorybuf \<Rightarrow> bool res" where
  "fb_not b = map_res (\<lambda>n. n = 0) (mb_current_size b)"

definition fb_c_str :: "memorybuf \<Rightarrow> memorybuf res" where
  "fb_c_str b =
     (case mb_current_size b of
        Inl e \<Rightarrow> Inl e
      | Inr n \<Rightarrow> if n < length (mb_memory b) then Inr (b\<lparr>mb_data := Some ((mb_memory b)[n := CHR 0x00])\<rparr>)
               else Inl Undefined)"

text \<open>A \<open>std::string\<close> made from a C string ends before the first zero; there has to be one.\<close>

definition of_c_string :: "string \<Rightarrow> string res" where
  "of_c_string mem = (if CHR 0x00 \<in> set mem then Inr (takeWhile (\<lambda>c. c \<noteq> CHR 0x00) mem) else Inl Undefined)"

definition fb_to_string :: "memorybuf \<Rightarrow> string res" where
  "fb_to_string b = (case fb_c_str b of Inl e \<Rightarrow> Inl e | Inr b' \<Rightarrow> of_c_string (mb_memory b'))"

section \<open>Reading\<close>

text \<open>What is left to read.\<close>

definition mb_rest :: "memorybuf \<Rightarrow> string" where
  "mb_rest m = (case mb_get m of None \<Rightarrow> [] | Some (g, e) \<Rightarrow> drop g (take e (mb_memory m)))"

text \<open>An input whose get pointers lie within its memory, of a size that an \<open>int\<close> can count.\<close>

definition good_input :: "memorybuf \<Rightarrow> bool" where
  "good_input m = (case mb_get m of None \<Rightarrow> True
     | Some (g, e) \<Rightarrow> g \<le> e \<and> e \<le> length (mb_memory m) \<and> e < 2 ^ 31)"


lemma gbump_small: "g + n \<le> e \<Longrightarrow> e < 2 ^ 31 \<Longrightarrow> gbump n (g, e) = Inr (g + n, e)"
proof -
  assume le: "g + n \<le> e" and e: "e < 2 ^ 31"
  then have "sint (word_of_nat n :: 32 word) = int n"
    by (simp add: signed_of_nat signed_take_bit_int_eq_self)
  then show ?thesis using le by (simp add: gbump_def Let_def nat_add_distrib)
qed












text \<open>
  \<open>getbody\<close> returns the next n characters when there are as many, and else reads nothing.
\<close>

lemma getbody_takes:
  assumes "good_input m" and "mb_get m = Some (g, e)"
  shows "getbody n m = (if n \<le> length (mb_rest m)
    then Inr (m\<lparr>mb_get := Some (g + n, e)\<rparr>, Some (take n (mb_rest m))) else Inr (m, None))"
proof -
  have le: "g \<le> e" "e \<le> length (mb_memory m)" "e < 2 ^ 31"
    using assms by (simp_all add: good_input_def)
  have "length (mb_rest m) = e - g" using assms(2) le by (simp add: mb_rest_def)
  moreover have "take n (mb_rest m) = take n (drop g (mb_memory m))" if "n \<le> e - g"
    using that assms(2) by (simp add: mb_rest_def drop_take min_def)
  moreover have "gbump n (g, e) = Inr (g + n, e)" if "n \<le> e - g"
    using that le by (intro gbump_small) simp_all
  ultimately show ?thesis using assms(2) by (auto simp: getbody_def zb_getbody_def)
qed

text \<open>
  \<open>int(n)\<close> truncates: at the start of a block of more than 2 GB, \<open>getbody\<close> of 2 to 4 GB moves
  the get pointer to before the block.
\<close>

lemma getbody_truncates:
  assumes "mb_get m = Some (0, e)" and "2 ^ 31 \<le> n" and "n < 2 ^ 32" and "n \<le> e"
  shows "getbody n m = Inl Undefined"
proof -
  have "n div 2 ^ 31 = 1" using assms(2,3) by (intro div_nat_eqI) simp_all
  then have "bit n 31" by (simp only: bit_iff_odd) simp
  then have "bit (int n) 31" by (simp only: bit_of_nat_iff) simp
  then have "sint (word_of_nat n :: 32 word) < 0"
    by (simp add: signed_of_nat signed_take_bit_negative_iff)
  then show ?thesis using assms by (simp add: getbody_def zb_getbody_def gbump_def Let_def)
qed

section \<open>Writing\<close>

definition good_output :: "memorybuf \<Rightarrow> nat \<Rightarrow> nat \<Rightarrow> string \<Rightarrow> bool" where
  "good_output m p e mem = (mb_put m = Some (p, e) \<and> p \<le> e \<and> e \<le> length mem \<and> mb_data m = Some mem \<and> mb_size m = 0)"

lemma sputc_room:
  "good_output m p e mem \<Longrightarrow> p < e \<Longrightarrow> sputc c m = (mb_store c p e m, True) \<and> good_output (mb_store c p e m) (Suc p) e (mem[p := c])"
  by (simp add: sputc_def good_output_def mb_store_def mb_memory_def)

lemma sputc_full: "good_output m e e mem \<Longrightarrow> sputc c m = (m, False)"
  by (simp add: sputc_def good_output_def mb_overflow_def)

lemma sputn_stores:
  "good_output m p e mem \<Longrightarrow> sputn cs m = (m', k) \<Longrightarrow>
     k = min (length cs) (e - p) \<and> good_output m' (p + k) e (take p mem @ take k cs @ drop (p + k) mem)"
proof (induction cs arbitrary: m p mem k)
  case (Cons c cs)
  show ?case
  proof (cases "p < e")
    case True
    note s = sputc_room [OF Cons.prems(1) True, of c]
    obtain k' where k': "sputn cs (mb_store c p e m) = (m', k')" "k = Suc k'"
      using Cons.prems(2) s by (auto split: prod.splits)
    have "p < length mem" using Cons.prems(1) True by (simp add: good_output_def)
    then have "take (Suc p) (mem[p := c]) = take p mem @ [c]"
      by (simp add: take_Suc_conv_app_nth)
    moreover have "drop (Suc p + k') (mem[p := c]) = drop (p + k) mem" using k' by simp
    ultimately show ?thesis
      using Cons.IH [OF conjunct2 [OF s] k'(1)] k' True by auto
  next
    case False
    then have "p = e" using Cons.prems(1) by (simp add: good_output_def)
    then show ?thesis using Cons.prems sputc_full by fastforce
  qed
qed (auto simp: good_output_def)

lemma good_output_buffer: "n \<le> length mem \<Longrightarrow> good_output (output_buffer mem n) 0 n mem"
  by (simp add: good_output_def output_buffer_def mb_output_def mb_new_def)

lemma sputn_output:
  assumes "n \<le> length mem" and "sputn cs (output_buffer mem n) = (m, k)"
  shows "k = min (length cs) n \<and> good_output m k n (take k cs @ drop k mem)"
  using sputn_stores [OF good_output_buffer [OF assms(1)] assms(2)] by auto

lemma good_output_size: "good_output m p e mem \<Longrightarrow> mb_current_size m = Inr p"
  by (simp add: good_output_def mb_current_size_def)

text \<open>
  An \<open>output_buffer\<close> over n characters of memory takes the first n characters written to
  it and refuses the others; it changes no memory behind what it took, its size is what it
  took, and it is open exactly until it is full.
\<close>

theorem output_buffer_stores:
  assumes "n \<le> length mem" and "sputn cs (output_buffer mem n) = (m, k)"
  shows "k = min (length cs) n \<and> mb_memory m = take k cs @ drop k mem \<and> mb_current_size m = Inr k
    \<and> out_is_open m = (k < n)"
proof -
  have g: "k = min (length cs) n" "good_output m k n (take k cs @ drop k mem)"
    using sputn_output [OF assms] by blast+
  then show ?thesis
    using good_output_size [OF g(2)] by (auto simp: good_output_def mb_memory_def out_is_open_def mb_writable_def)
qed

lemma output_buffer_stores_witness:
  "mb_memory (fst (sputn ''hello'' (output_buffer ''......'' 3))) = ''hel...''"
  using output_buffer_stores [of 3 "''......''" "''hello''" "fst (sputn ''hello'' (output_buffer ''......'' 3))"
      "snd (sputn ''hello'' (output_buffer ''......'' 3))"]
  by simp

text \<open>
  C29: a \<open>format_buffer<S>\<close> keeps the first S characters written to it: its C string and its
  string are those up to a zero character, the terminating zero is always within the array,
  and the tests say whether anything was written.
\<close>

theorem format_buffer_text:
  assumes "sputn cs (fb_new S) = (m, k)"
  shows "fb_to_string m = Inr (takeWhile (\<lambda>c. c \<noteq> CHR 0x00) (take S cs)) \<and> returns (fb_c_str m)
    \<and> fb_bool m = Inr (k > 0) \<and> fb_not m = Inr (k = 0) \<and> k = min (length cs) S"
proof -
  let ?mem = "replicate (S + 1) (CHR 0x00)"
  have g: "good_output m k S (take k cs @ drop k ?mem)" and k: "k = min (length cs) S"
    using sputn_output [of S ?mem cs m k] assms unfolding fb_new_def by auto
  note sz = good_output_size [OF g]
  have mem: "mb_memory m = take S cs @ replicate (Suc (S - k)) (CHR 0x00)"
  proof -
    have "S + 1 - k = Suc (S - k)" using k by simp
    then have "drop k ?mem = replicate (Suc (S - k)) (CHR 0x00)" by (simp only: drop_replicate)
    moreover have "take k cs = take S cs" using k by (simp add: min_def)
    ultimately show ?thesis using g by (simp add: good_output_def mb_memory_def del: replicate.simps)
  qed
  have "(mb_memory m)[k := CHR 0x00] = mb_memory m"
    unfolding mem using k by (simp add: list_update_append list_update_same_conv nth_Cons')
  then have c: "fb_c_str m = Inr (m\<lparr>mb_data := Some (mb_memory m)\<rparr>)" 
    using sz k mem by (simp add: fb_c_str_def)
  then have "fb_to_string m = Inr (takeWhile (\<lambda>c. c \<noteq> CHR 0x00) (mb_memory m))"
    using mem by (simp add: fb_to_string_def of_c_string_def mb_memory_def)
  moreover have "takeWhile (\<lambda>c. c \<noteq> CHR 0x00) (mb_memory m) = takeWhile (\<lambda>c. c \<noteq> CHR 0x00) (take S cs)"
    by (auto simp: mem takeWhile_append intro: takeWhile_eq_all_conv [THEN iffD2, symmetric])
  ultimately show ?thesis using c sz k by (simp add: fb_bool_def fb_not_def)
qed

lemma format_buffer_text_witness:
  "fb_to_string (fst (sputn ''hi there'' (fb_new 32))) = Inr ''hi there''"
  using format_buffer_text [of "''hi there''" 32 "fst (sputn ''hi there'' (fb_new 32))"
      "snd (sputn ''hi there'' (fb_new 32))"]
  by simp

text \<open>
  The size of an input stream is the number of characters it was made with, except that
  for an empty one the code subtracts its pointer from a null pointer.
\<close>

theorem input_buffer_size:
  "mb_current_size (input_buffer mem) = (if mem = [] then Inl Undefined else Inr (length mem))
   \<and> mb_used (input_buffer mem) = 0 \<and> in_is_open (input_buffer mem) = (mem \<noteq> [])"
  by (simp add: mb_current_size_def input_buffer_def mb_input_def mb_new_def mb_used_def in_is_open_def mb_readable_def)

end
