(* ===== verification/Calendar.thy ===== *)
theory Calendar
  imports Prelude "HOL-Library.Product_Lexorder"
begin

text \<open>
  The calendar behind the times of \<open>src/print.hpp\<close> and \<open>src/system.hpp\<close>: the broken-down time
  \<open>std::tm\<close> with its order, POSIX \<open>gmtime_r\<close> on the proleptic Gregorian calendar, and
  \<open>gmt_time\<close>. The lemmas say that \<open>gmtime_r\<close> gives valid dates in the order of the times.
\<close>

section \<open>Broken-down times\<close>

text \<open>
  A \<open>std::tm\<close>; the year counts from 1900, the month from 0. The fields but the year have small
  values that are not negative. The days of the week and of the year and the flag of summer
  time, which the library never reads, are left out.
\<close>

record tm =
  tm_year :: int
  tm_mon :: nat
  tm_mday :: nat
  tm_hour :: nat
  tm_min :: nat
  tm_secs :: nat

definition tm_ok :: "tm \<Rightarrow> bool" where
  "tm_ok t = (tm_mon t < 12 \<and> 1 \<le> tm_mday t \<and> tm_mday t \<le> 31 \<and> tm_hour t < 24 \<and> tm_min t < 60 \<and> tm_secs t \<le> 60)"

text \<open>Times are ordered by their fields, the year first.\<close>

definition tm_key :: "'a tm_scheme \<Rightarrow> (int \<times> nat \<times> nat) \<times> (nat \<times> nat \<times> nat) \<times> 'a" where
  "tm_key t = ((tm_year t, tm_mon t, tm_mday t), (tm_hour t, tm_min t, tm_secs t), tm.more t)"

lemma tm_key_inject: "tm_key a = tm_key b \<longleftrightarrow> a = b"
  by (auto simp: tm_key_def)

instantiation tm_ext :: (linorder) linorder
begin

definition less_eq_tm_ext :: "'a tm_scheme \<Rightarrow> 'a tm_scheme \<Rightarrow> bool" where
  "less_eq_tm_ext a b = (tm_key a \<le> tm_key b)"

definition less_tm_ext :: "'a tm_scheme \<Rightarrow> 'a tm_scheme \<Rightarrow> bool" where
  "less_tm_ext a b = (tm_key a < tm_key b)"

instance
  by standard (auto simp: less_eq_tm_ext_def less_tm_ext_def less_le_not_le tm_key_inject dest: antisym)

end

lemma less_tm_iff:
  "(a :: tm) < b \<longleftrightarrow> (tm_year a, tm_mon a, tm_mday a) < (tm_year b, tm_mon b, tm_mday b)
    \<or> (tm_year a, tm_mon a, tm_mday a) = (tm_year b, tm_mon b, tm_mday b)
      \<and> (tm_hour a, tm_min a, tm_secs a) < (tm_hour b, tm_min b, tm_secs b)"
  by (auto simp: less_tm_ext_def tm_key_def)

section \<open>The Gregorian calendar\<close>

definition is_leap :: "int \<Rightarrow> bool" where
  "is_leap y = (y mod 4 = 0 \<and> (y mod 100 \<noteq> 0 \<or> y mod 400 = 0))"

definition year_days :: "int \<Rightarrow> nat" where
  "year_days y = (if is_leap y then 366 else 365)"

definition month_days :: "int \<Rightarrow> nat list" where
  "month_days y = [31, if is_leap y then 29 else 28, 31, 30, 31, 30, 31, 31, 30, 31, 30, 31]"

lemma year_days_pos [simp]: "0 < year_days y"
  by (simp add: year_days_def)

lemma month_days_len [simp]: "length (month_days y) = 12"
  by (simp add: month_days_def)

lemma month_days_sum: "sum_list (month_days y) = year_days y"
  by (simp add: month_days_def year_days_def)

text \<open>The year of a day counted from the start of year \<open>y\<close>, and the day within that year.\<close>

function year_loop :: "int \<Rightarrow> nat \<Rightarrow> int \<times> nat" where
  "year_loop y d = (if d < year_days y then (y, d) else year_loop (y + 1) (d - year_days y))"
  by pat_completeness auto
termination
  by (relation "measure snd") (auto simp: not_less intro!: diff_less elim: less_le_trans [OF year_days_pos])

declare year_loop.simps [simp del]

fun month_loop :: "nat list \<Rightarrow> nat \<Rightarrow> nat \<times> nat" where
  "month_loop [] d = (0, d)"
| "month_loop (n # ns) d = (if d < n then (0, d) else case month_loop ns (d - n) of (m, r) \<Rightarrow> (Suc m, r))"

text \<open>
  400 years have 146097 days; the calendar repeats after them, so that times before 1970 are
  counted from the start of their own 400 years.
\<close>

definition civil_day :: "int \<Rightarrow> int \<times> nat" where
  "civil_day days =
     (case year_loop 1970 (nat (days mod 146097)) of (y, yd) \<Rightarrow> (y + 400 * (days div 146097), yd))"

definition civil_date :: "int \<Rightarrow> int \<times> nat \<times> nat" where
  "civil_date days =
     (case civil_day days of (y, yd) \<Rightarrow> case month_loop (month_days y) yd of (m, d) \<Rightarrow> (y, m, Suc d))"

definition clock_time :: "nat \<Rightarrow> nat \<times> nat \<times> nat" where
  "clock_time s = (s div 3600, s mod 3600 div 60, s mod 60)"

text \<open>\<open>gmtime_r\<close> fails when the year does not fit its \<open>int\<close>.\<close>

definition gmtime_r :: "int \<Rightarrow> tm option" where
  "gmtime_r time =
     (case civil_date (time div 86400) of (y, m, d) \<Rightarrow>
      case clock_time (nat (time mod 86400)) of (h, mi, s) \<Rightarrow>
        if - (2 ^ 31) \<le> y - 1900 \<and> y - 1900 < 2 ^ 31
        then Some \<lparr>tm_year = y - 1900, tm_mon = m, tm_mday = d, tm_hour = h, tm_min = mi, tm_secs = s\<rparr>
        else None)"

text \<open>The result of a failed call is what it leaves in the zeroed \<open>local\<close>: a parameter.\<close>

definition gmt_time :: "tm \<Rightarrow> int \<Rightarrow> tm" where
  "gmt_time failed time = (case gmtime_r time of Some t \<Rightarrow> t | None \<Rightarrow> failed)"

text \<open>The time zone of \<open>localtime_r\<close> is the system's: a parameter.\<close>

definition local_time :: "(int \<Rightarrow> tm option) \<Rightarrow> tm \<Rightarrow> int \<Rightarrow> tm" where
  "local_time localtime_r failed time = (case localtime_r time of Some t \<Rightarrow> t | None \<Rightarrow> failed)"

section \<open>Valid dates in the order of the times\<close>

lemma year_loop_ge: "y \<le> fst (year_loop y d)"
proof (induction y d rule: year_loop.induct)
  case (1 y d)
  then show ?case by (cases "d < year_days y") (simp_all add: year_loop.simps [of y d])
qed

lemma year_loop_day: "snd (year_loop y d) < year_days (fst (year_loop y d))"
proof (induction y d rule: year_loop.induct)
  case (1 y d)
  then show ?case by (cases "d < year_days y") (simp_all add: year_loop.simps [of y d])
qed

lemma year_days_upt: "sum_list (map (\<lambda>i. year_days (y + int i)) [0..<Suc n])
    = year_days y + sum_list (map (\<lambda>i. year_days (y + 1 + int i)) [0..<n])"
  by (simp add: upt_rec [of 0] o_def add.assoc flip: map_Suc_upt del: upt_Suc)

lemma year_loop_below:
  "d < sum_list (map (\<lambda>i. year_days (y + int i)) [0..<n]) \<Longrightarrow> fst (year_loop y d) < y + int n"
proof (induction n arbitrary: y d)
  case (Suc n)
  show ?case
  proof (cases "d < year_days y")
    case False
    then have "d - year_days y < sum_list (map (\<lambda>i. year_days (y + 1 + int i)) [0..<n])"
      using Suc.prems year_days_upt [of y n] by linarith
    then show ?thesis using Suc.IH [of "d - year_days y" "y + 1"] False
      by (simp add: year_loop.simps [of y d])
  qed (simp add: year_loop.simps [of y d])
qed simp

lemma year_loop_from:
  "sum_list (map (\<lambda>i. year_days (y + int i)) [0..<n]) \<le> d \<Longrightarrow> y + int n \<le> fst (year_loop y d)"
proof (induction n arbitrary: y d)
  case 0
  then show ?case using year_loop_ge [of y d] by simp
next
  case (Suc n)
  then have "year_days y \<le> d"
    and "sum_list (map (\<lambda>i. year_days (y + 1 + int i)) [0..<n]) \<le> d - year_days y"
    using year_days_upt [of y n] by linarith+
  then show ?case using Suc.IH [of "y + 1" "d - year_days y"]
    by (simp add: year_loop.simps [of y d])
qed

lemma year_loop_mono: "d1 < d2 \<Longrightarrow> year_loop y d1 < year_loop y d2"
proof (induction y d1 arbitrary: d2 rule: year_loop.induct)
  case (1 y d1)
  show ?case
  proof (cases "d1 < year_days y")
    case True
    then show ?thesis
      using 1(2) year_loop_ge [of "y + 1" "d2 - year_days y"]
      by (cases "year_loop (y + 1) (d2 - year_days y)")
        (auto simp: year_loop.simps [of y d1] year_loop.simps [of y d2])
  next
    case False
    then show ?thesis
      using 1(1) [OF False, of "d2 - year_days y"] 1(2)
      by (simp add: year_loop.simps [of y d1] year_loop.simps [of y d2] diff_less_mono)
  qed
qed

lemma month_loop_mono: "d1 < d2 \<Longrightarrow> month_loop ns d1 < month_loop ns d2"
proof (induction ns arbitrary: d1 d2)
  case (Cons n ns)
  show ?case
  proof (cases "d1 < n")
    case False
    then have "month_loop ns (d1 - n) < month_loop ns (d2 - n)"
      using Cons by (intro Cons.IH diff_less_mono) auto
    then show ?thesis using False Cons.prems by (auto simp: less_prod_simp split: prod.splits)
  qed (use Cons.prems in \<open>auto split: prod.splits\<close>)
qed simp

lemma month_loop_in:
  "d < sum_list ns \<Longrightarrow> fst (month_loop ns d) < length ns \<and> snd (month_loop ns d) < ns ! fst (month_loop ns d)"
proof (induction ns arbitrary: d)
  case (Cons n ns)
  show ?case
  proof (cases "d < n")
    case False
    then have "d - n < sum_list ns" using Cons.prems by simp
    with Cons.IH [OF this] False show ?thesis by (auto split: prod.splits)
  qed simp
qed simp

lemma div_mod_less: "a < b \<Longrightarrow> a div k < b div k \<or> a div k = b div k \<and> a mod k < b mod (k::nat)"
  by (metis div_le_mono le_neq_implies_less less_imp_le mult_div_mod_eq nat_add_left_cancel_less)

lemma clock_time_mono: "s1 < s2 \<Longrightarrow> clock_time s1 < clock_time s2"
  using div_mod_less [of s1 s2 3600] div_mod_less [of "s1 mod 3600" "s2 mod 3600" 60]
  by (auto simp: clock_time_def less_prod_simp mod_mod_cancel)

text \<open>The days of 400 years; those up to the years that stand for 2000 and 1000.\<close>

lemma upt_012: "2 < (n::nat) \<Longrightarrow> [0..<n] = 0 # 1 # [2..<n]"
  by (simp add: upt_rec [of 0] upt_rec [of "Suc 0"] numeral_2_eq_2)

lemma cycle_days: "sum_list (map (\<lambda>i. year_days (1970 + int i)) [0..<400]) = 146097"
  by (simp add: upt_012 year_days_def is_leap_def upt_rec_numeral)

lemma days_to_2000: "sum_list (map (\<lambda>i. year_days (1970 + int i)) [0..<30]) = 10957"
  by (simp add: upt_012 year_days_def is_leap_def upt_rec_numeral)

lemma days_to_2200: "sum_list (map (\<lambda>i. year_days (1970 + int i)) [0..<230]) = 84006"
  by (simp add: upt_012 year_days_def is_leap_def upt_rec_numeral)

lemma civil_day_mono: "d1 < d2 \<Longrightarrow> civil_day d1 < civil_day d2"
proof -
  assume lt: "d1 < d2"
  obtain y1 n1 where 1: "year_loop 1970 (nat (d1 mod 146097)) = (y1, n1)" by (cases "year_loop 1970 (nat (d1 mod 146097))")
  obtain y2 n2 where 2: "year_loop 1970 (nat (d2 mod 146097)) = (y2, n2)" by (cases "year_loop 1970 (nat (d2 mod 146097))")
  have "fst (year_loop 1970 (nat (d1 mod 146097))) < 1970 + int 400"
    by (rule year_loop_below) (simp add: cycle_days)
  then have y1: "y1 < 2370" by (simp add: 1)
  have y2: "1970 \<le> y2" using year_loop_ge [of 1970 "nat (d2 mod 146097)"] by (simp add: 2)
  show ?thesis
  proof (cases "d1 div 146097 = d2 div 146097")
    case True
    then have "d1 mod 146097 < d2 mod 146097"
      using lt by (metis add_less_cancel_left mult_div_mod_eq)
    then have "nat (d1 mod 146097) < nat (d2 mod 146097)" by simp
    from year_loop_mono [OF this, of 1970] show ?thesis
      by (auto simp: civil_day_def 1 2 True)
  next
    case False
    then have "d1 div 146097 < d2 div 146097"
      using lt zdiv_mono1 [of d1 d2 146097] by simp
    then show ?thesis using y1 y2 by (auto simp: civil_day_def 1 2)
  qed
qed

lemma is_leap_cycle [simp]: "is_leap (y + 400 * k) = is_leap y"
proof -
  have "(y + 400 * k) mod 4 = y mod 4" "(y + 400 * k) mod 100 = y mod 100" "(y + 400 * k) mod 400 = y mod 400"
    using mod_mult_self2 [of y 4 "100 * k"] mod_mult_self2 [of y 100 "4 * k"] mod_mult_self2 [of y 400 k]
    by simp_all
  then show ?thesis by (simp add: is_leap_def)
qed

lemma civil_day_in: "civil_day days = (y, yd) \<Longrightarrow> yd < year_days y"
  using year_loop_day [of 1970 "nat (days mod 146097)"]
  by (auto simp: civil_day_def year_days_def split: prod.splits)

lemma civil_date_mono: "d1 < d2 \<Longrightarrow> civil_date d1 < civil_date d2"
proof -
  assume "d1 < d2"
  then have less: "civil_day d1 < civil_day d2" by (rule civil_day_mono)
  obtain y1 n1 where 1: "civil_day d1 = (y1, n1)" by (cases "civil_day d1")
  obtain y2 n2 where 2: "civil_day d2 = (y2, n2)" by (cases "civil_day d2")
  show ?thesis
  proof (cases "y1 = y2")
    case True
    then have "n1 < n2" using less 1 2 by simp
    from month_loop_mono [OF this, of "month_days y2"] show ?thesis
      by (auto simp: civil_date_def 1 2 True split: prod.splits)
  next
    case False
    then show ?thesis using less by (auto simp: civil_date_def 1 2 split: prod.splits)
  qed
qed

lemma civil_date_valid:
  assumes "civil_date days = (y, m, d)"
  shows "m < 12 \<and> 1 \<le> d \<and> d \<le> month_days y ! m"
proof -
  obtain yd where yd: "civil_day days = (y, yd)" and ml: "month_loop (month_days y) yd = (m, d - 1)" "1 \<le> d"
    using assms by (auto simp: civil_date_def split: prod.splits)
  have "yd < sum_list (month_days y)" using civil_day_in [OF yd] by (simp add: month_days_sum)
  from month_loop_in [OF this] have "m < length (month_days y)" "d - 1 < month_days y ! m" unfolding ml(1) by simp_all
  with ml(2) show ?thesis by (simp add: month_days_len)
qed

lemma month_days_le: "m < 12 \<Longrightarrow> month_days y ! m \<le> 31"
proof -
  have "list_all (\<lambda>n. n \<le> 31) (month_days y)" by (simp add: month_days_def)
  then show "m < 12 \<Longrightarrow> month_days y ! m \<le> 31" by (auto simp: list_all_length month_days_def)
qed

lemma clock_time_in: "s < 86400 \<Longrightarrow> clock_time s = (h, m, r) \<Longrightarrow> h < 24 \<and> m < 60 \<and> r < 60"
  unfolding clock_time_def Pair_inject
  by (auto simp: div_less_iff_less_mult simp del: One_nat_def)

lemma gmtime_cases:
  assumes "gmtime_r time = Some t"
  obtains y where "civil_date (time div 86400) = (y, tm_mon t, tm_mday t)" and "tm_year t = y - 1900"
    and "clock_time (nat (time mod 86400)) = (tm_hour t, tm_min t, tm_secs t)"
  using assms that unfolding gmtime_r_def by (auto split: prod.splits if_splits)

lemma gmtime_ok: "gmtime_r time = Some t \<Longrightarrow> tm_ok t \<and> tm_mday t \<le> month_days (tm_year t + 1900) ! tm_mon t"
proof (erule gmtime_cases)
  fix y
  assume date: "civil_date (time div 86400) = (y, tm_mon t, tm_mday t)" and y: "tm_year t = y - 1900"
    and clock: "clock_time (nat (time mod 86400)) = (tm_hour t, tm_min t, tm_secs t)"
  note v = civil_date_valid [OF date]
  have "nat (time mod 86400) < 86400" by (simp add: nat_less_iff)
  then have "tm_hour t < 24 \<and> tm_min t < 60 \<and> tm_secs t < 60"
    using clock by (rule clock_time_in)
  then show ?thesis using v month_days_le [of "tm_mon t" y] y by (simp add: tm_ok_def)
qed

lemma gmtime_less:
  assumes "gmtime_r a = Some ta" and "gmtime_r b = Some tb" and "a < b"
  shows "ta < tb"
proof -
  obtain ya where a: "civil_date (a div 86400) = (ya, tm_mon ta, tm_mday ta)" "tm_year ta = ya - 1900"
      "clock_time (nat (a mod 86400)) = (tm_hour ta, tm_min ta, tm_secs ta)"
    using assms(1) by (rule gmtime_cases)
  obtain yb where b: "civil_date (b div 86400) = (yb, tm_mon tb, tm_mday tb)" "tm_year tb = yb - 1900"
      "clock_time (nat (b mod 86400)) = (tm_hour tb, tm_min tb, tm_secs tb)"
    using assms(2) by (rule gmtime_cases)
  show ?thesis
  proof (cases "a div 86400 = b div 86400")
    case True
    then have "a mod 86400 < b mod 86400"
      using assms(3) by (metis add_less_cancel_left mult_div_mod_eq)
    then have "nat (a mod 86400) < nat (b mod 86400)" by simp
    from clock_time_mono [OF this] show ?thesis using True a b by (simp add: less_tm_iff)
  next
    case False
    then have "a div 86400 < b div 86400" using assms(3) zdiv_mono1 [of a b 86400] by simp
    from civil_date_mono [OF this] show ?thesis using a b by (auto simp: less_tm_iff)
  qed
qed

text \<open>The times from the year 1000 to the year 9999.\<close>

definition four_digit_time :: "int \<Rightarrow> bool" where
  "four_digit_time t = (- 30610224000 \<le> t \<and> t < 253402300800)"

lemma civil_year_le: "d1 \<le> d2 \<Longrightarrow> fst (civil_day d1) \<le> fst (civil_day d2)"
  using civil_day_mono [of d1 d2] by (cases "d1 = d2") (auto simp: less_prod_def)

lemma first_year_1000: "1000 \<le> fst (civil_day (- 354285))"
  using year_loop_from [of 1970 230 84006] by (simp add: civil_day_def days_to_2200 split_beta)

lemma last_year_9999: "fst (civil_day 2932896) \<le> 9999"
  using year_loop_below [of 10956 1970 30] by (simp add: civil_day_def days_to_2000 split_beta)

lemma four_digit_year:
  assumes "four_digit_time time"
  obtains t where "gmtime_r time = Some t" and "1000 \<le> tm_year t + 1900" and "tm_year t + 1900 \<le> 9999"
proof -
  have "- 354285 \<le> time div 86400" "time div 86400 \<le> 2932896"
    using assms zdiv_mono1 [of "- 30610224000" time 86400] zdiv_mono1 [of time 253402300799 86400]
    by (simp_all add: four_digit_time_def)
  note le = civil_year_le [OF this(1)] civil_year_le [OF this(2)]
  obtain y yd where day: "civil_day (time div 86400) = (y, yd)" by (cases "civil_day (time div 86400)")
  have y: "1000 \<le> y" "y \<le> 9999"
    using le first_year_1000 last_year_9999 by (simp_all add: day)
  obtain m d where date: "civil_date (time div 86400) = (y, m, d)"
    by (cases "month_loop (month_days y) yd") (auto simp: civil_date_def day)
  obtain h mi s where clock: "clock_time (nat (time mod 86400)) = (h, mi, s)"
    by (cases "clock_time (nat (time mod 86400))")
  have "gmtime_r time
      = Some \<lparr>tm_year = y - 1900, tm_mon = m, tm_mday = d, tm_hour = h, tm_min = mi, tm_secs = s\<rparr>"
    using y by (simp add: gmtime_r_def date clock)
  from that [OF this] y show ?thesis by simp
qed

end
