(* ===== verification/Print.thy ===== *)
theory Print
  imports Ascii Calendar "HOL-Library.List_Lexorder" "HOL-Library.Char_ord"
begin

text \<open>
  \<open>src/print.hpp\<close>: the text forms of times and the output objects that write when they end.
  The conversions of \<open>std::put_time\<close> that the library's own formats use are written out;
  the ones that depend on the locale, and the formatting library, are parameters. The lemmas
  say which parts the texts have, and that timestamps sort as text in the order of their times.
\<close>

section \<open>Times\<close>

definition show_year :: "int \<Rightarrow> string" where
  "show_year y = (if y < 0 then CHR ''-'' # to_decimal (nat (- y)) else to_decimal (nat y))"

definition two_digits :: "nat \<Rightarrow> string" where
  "two_digits n = (if n < 10 then CHR ''0'' # to_decimal n else to_decimal n)"

definition conversion :: "(char \<Rightarrow> tm \<Rightarrow> string) \<Rightarrow> char \<Rightarrow> tm \<Rightarrow> string" where
  "conversion other c t =
     (if c = CHR ''Y'' then show_year (tm_year t + 1900)
      else if c = CHR ''m'' then two_digits (tm_mon t + 1)
      else if c = CHR ''d'' then two_digits (tm_mday t)
      else if c = CHR ''H'' then two_digits (tm_hour t)
      else if c = CHR ''M'' then two_digits (tm_min t)
      else if c = CHR ''S'' then two_digits (tm_secs t)
      else other c t)"

fun put_time :: "(char \<Rightarrow> tm \<Rightarrow> string) \<Rightarrow> tm \<Rightarrow> string \<Rightarrow> string" where
  "put_time other t [] = []"
| "put_time other t [c] = [c]"
| "put_time other t (c # d # fmt) =
     (if c = CHR ''%'' then conversion other d t @ put_time other t fmt else c # put_time other t (d # fmt))"

definition ZULU_TIMESTAMP :: string where "ZULU_TIMESTAMP = ''%Y-%m-%dT%H:%M:%SZ''"
definition GENERIC_DATETIME :: string where "GENERIC_DATETIME = ''%c''"
definition LOCAL_DATETIME :: string where "LOCAL_DATETIME = ''%x %X''"
definition ISO_TIMESTAMP :: string where "ISO_TIMESTAMP = ''%Y-%m-%d %H:%M:%S %z''"
definition ISO_DATE :: string where "ISO_DATE = ''%Y-%m-%d''"
definition ISO_TIME :: string where "ISO_TIME = ''%X''"
definition ISO_DATETIME :: string where "ISO_DATETIME = ''%Y-%m-%d %H:%M:%S''"

definition tm_to_string :: "(char \<Rightarrow> tm \<Rightarrow> string) \<Rightarrow> tm \<Rightarrow> string \<Rightarrow> string" where
  "tm_to_string other current fmt = put_time other current fmt"

definition gmt_datetime :: "(char \<Rightarrow> tm \<Rightarrow> string) \<Rightarrow> tm \<Rightarrow> int \<Rightarrow> string" where
  "gmt_datetime other failed gmt = put_time other (gmt_time failed gmt) ZULU_TIMESTAMP"

definition iso_datetime :: "(char \<Rightarrow> tm \<Rightarrow> string) \<Rightarrow> tm \<Rightarrow> string" where
  "iso_datetime other current = put_time other current ISO_DATETIME"

definition iso_datetime_of :: "(char \<Rightarrow> tm \<Rightarrow> string) \<Rightarrow> (int \<Rightarrow> tm option) \<Rightarrow> tm \<Rightarrow> int \<Rightarrow> string" where
  "iso_datetime_of other localtime_r failed current = iso_datetime other (local_time localtime_r failed current)"

definition std_substr :: "string \<Rightarrow> nat \<Rightarrow> nat \<Rightarrow> string res" where
  "std_substr s pos n = (if pos > length s then Inl (Range ''basic_string::substr'') else Inr (take n (drop pos s)))"

definition iso_date :: "(char \<Rightarrow> tm \<Rightarrow> string) \<Rightarrow> tm \<Rightarrow> string res" where
  "iso_date other current = std_substr (iso_datetime other current) 0 10"

definition iso_date_of :: "(char \<Rightarrow> tm \<Rightarrow> string) \<Rightarrow> (int \<Rightarrow> tm option) \<Rightarrow> tm \<Rightarrow> int \<Rightarrow> string res" where
  "iso_date_of other localtime_r failed current = std_substr (iso_datetime_of other localtime_r failed current) 0 10"

definition iso_time :: "(char \<Rightarrow> tm \<Rightarrow> string) \<Rightarrow> tm \<Rightarrow> string res" where
  "iso_time other current = std_substr (iso_datetime other current) 11 8"

definition iso_time_of :: "(char \<Rightarrow> tm \<Rightarrow> string) \<Rightarrow> (int \<Rightarrow> tm option) \<Rightarrow> tm \<Rightarrow> int \<Rightarrow> string res" where
  "iso_time_of other localtime_r failed current = std_substr (iso_datetime_of other localtime_r failed current) 11 8"

subsection \<open>Their parts\<close>

lemma length_to_decimal: "10 ^ k \<le> n \<Longrightarrow> n < 10 ^ Suc k \<Longrightarrow> length (to_decimal n) = Suc k"
proof (induction k arbitrary: n)
  case 0
  then show ?case by (simp add: to_decimal_small)
next
  case (Suc k)
  have "10 ^ k \<le> n div 10" "n div 10 < 10 ^ Suc k" "\<not> n < 10"
    using Suc.prems by (simp_all add: less_eq_div_iff_mult_less_eq div_less_iff_less_mult mult.commute)
      (metis Suc.prems(1) le_trans mult_le_mono2 nat_mult_1_right not_less one_le_numeral one_le_power power_Suc)
  then show ?case using Suc.IH [of "n div 10"] by (simp add: to_decimal.simps [of n])
qed

lemma length_two_digits: "n < 100 \<Longrightarrow> length (two_digits n) = 2"
  using length_to_decimal [of 1 n] by (simp add: two_digits_def to_decimal_small)

definition date_part :: "tm \<Rightarrow> string" where
  "date_part t = show_year (tm_year t + 1900) @ ''-'' @ two_digits (tm_mon t + 1) @ ''-'' @ two_digits (tm_mday t)"

definition time_part :: "tm \<Rightarrow> string" where
  "time_part t = two_digits (tm_hour t) @ '':'' @ two_digits (tm_min t) @ '':'' @ two_digits (tm_secs t)"

lemma iso_datetime_parts: "iso_datetime other t = date_part t @ '' '' @ time_part t"
  by (simp add: iso_datetime_def ISO_DATETIME_def conversion_def date_part_def time_part_def)

lemma length_time_part: "tm_ok t \<Longrightarrow> length (time_part t) = 8"
  by (simp add: tm_ok_def time_part_def length_two_digits)

lemma length_date_part:
  "tm_ok t \<Longrightarrow> 10 ^ k \<le> nat (tm_year t + 1900) \<Longrightarrow> nat (tm_year t + 1900) < 10 ^ Suc k \<Longrightarrow>
     length (date_part t) = k + 7"
proof -
  assume ok: "tm_ok t" and y: "10 ^ k \<le> nat (tm_year t + 1900)" "nat (tm_year t + 1900) < 10 ^ Suc k"
  have "0 < nat (tm_year t + 1900)" using y(1) by (rule less_le_trans [rotated]) simp
  then show ?thesis
    using ok length_to_decimal [OF y] by (simp add: date_part_def show_year_def tm_ok_def length_two_digits)
qed

text \<open>
  For the years 1000 to 9999 \<open>iso_date\<close> and \<open>iso_time\<close> are the two parts of
  \<open>iso_datetime\<close>; for a year of five digits the fixed positions cut the last digit off the
  date and shift the time, which starts with the blank and loses its last digit.
\<close>

theorem iso_date_time_parts:
  assumes "tm_ok t"
  shows "iso_datetime other t = date_part t @ '' '' @ time_part t
    \<and> (1000 \<le> tm_year t + 1900 \<and> tm_year t + 1900 \<le> 9999 \<longrightarrow>
        iso_date other t = Inr (date_part t) \<and> iso_time other t = Inr (time_part t))
    \<and> (10000 \<le> tm_year t + 1900 \<and> tm_year t + 1900 \<le> 99999 \<longrightarrow>
        iso_date other t = Inr (butlast (date_part t)) \<and> iso_time other t = Inr (CHR '' '' # butlast (time_part t)))"
proof (intro conjI impI)
  show "iso_datetime other t = date_part t @ '' '' @ time_part t" by (rule iso_datetime_parts)
  note len8 = length_time_part [OF assms]
  {
    assume "1000 \<le> tm_year t + 1900 \<and> tm_year t + 1900 \<le> 9999"
    then have len: "length (date_part t) = 10"
      using length_date_part [OF assms, of 3] by (simp add: le_nat_iff nat_less_iff)
    show "iso_date other t = Inr (date_part t)"
      by (simp add: iso_date_def std_substr_def iso_datetime_parts len)
    show "iso_time other t = Inr (time_part t)"
      by (simp add: iso_time_def std_substr_def iso_datetime_parts len len8)
  }
  {
    assume "10000 \<le> tm_year t + 1900 \<and> tm_year t + 1900 \<le> 99999"
    then have len: "length (date_part t) = 11"
      using length_date_part [OF assms, of 4] by (simp add: le_nat_iff nat_less_iff)
    show "iso_date other t = Inr (butlast (date_part t))"
      by (simp add: iso_date_def std_substr_def iso_datetime_parts len butlast_conv_take)
    show "iso_time other t = Inr (CHR '' '' # butlast (time_part t))"
      by (simp add: iso_time_def std_substr_def iso_datetime_parts len len8 butlast_conv_take eval_nat_numeral)
  }
qed

lemma iso_date_time_parts_witness:
  "iso_time (\<lambda>_ _. []) \<lparr>tm_year = 8101, tm_mon = 1, tm_mday = 3, tm_hour = 4, tm_min = 5, tm_secs = 6\<rparr> = Inr '' 04:05:0''"
  using iso_date_time_parts [of "\<lparr>tm_year = 8101, tm_mon = 1, tm_mday = 3, tm_hour = 4, tm_min = 5, tm_secs = 6\<rparr>" "\<lambda>_ _. []"]
  by (simp add: tm_ok_def time_part_def two_digits_def to_decimal_small char_of_def bit_Suc_0_iff)

subsection \<open>Their order\<close>

lemma append_less:
  "length a = length c \<Longrightarrow> a @ b < c @ d \<longleftrightarrow> a < c \<or> a = c \<and> b < (d :: 'a::order list)"
  by (induction a c rule: list_induct2) auto

lemma digit_less: "m < 10 \<Longrightarrow> n < 10 \<Longrightarrow> (char_of (48 + m) :: char) < char_of (48 + n) \<longleftrightarrow> m < (n::nat)"
  by (simp add: less_char_def)

lemma digit_eq: "m < 10 \<Longrightarrow> n < 10 \<Longrightarrow> (char_of (48 + m) :: char) = char_of (48 + n) \<longleftrightarrow> m = (n::nat)"
  using digit_less [of m n] digit_less [of n m] by (metis nat_neq_iff less_irrefl)

lemma less_by_digits: "m < n \<longleftrightarrow> m div 10 < n div 10 \<or> m div 10 = n div 10 \<and> m mod 10 < n mod (10::nat)"
  using div_mod_less [of m n 10] div_mod_less [of n m 10] by (cases m n rule: linorder_cases) auto

lemma eq_by_digits: "m = n \<longleftrightarrow> m div 10 = n div 10 \<and> m mod 10 = n mod (10::nat)"
  by (metis mult_div_mod_eq)

lemma to_decimal_order:
  "length (to_decimal m) = length (to_decimal n) \<Longrightarrow>
     (to_decimal m < to_decimal n \<longleftrightarrow> m < n) \<and> (to_decimal m = to_decimal n \<longleftrightarrow> m = n)"
proof (induction m arbitrary: n rule: to_decimal.induct)
  case (1 m)
  have nonempty: "to_decimal k \<noteq> []" for k by (simp add: to_decimal.simps [of k])
  show ?case
  proof (cases "m < 10")
    case True
    then have "length (to_decimal n) = 1" using 1(2) by (simp add: to_decimal_small)
    then have "n < 10" using nonempty [of "n div 10"] by (simp add: to_decimal.simps [of n] split: if_splits)
    then show ?thesis using True by (simp add: to_decimal_small digit_less digit_eq)
  next
    case False
    then have "length (to_decimal n) \<noteq> 1"
      using 1(2) nonempty [of "m div 10"] by (cases "to_decimal (m div 10)") (simp_all add: to_decimal.simps [of m])
    then have n: "\<not> n < 10" by (auto simp: to_decimal_small)
    then have len: "length (to_decimal (m div 10)) = length (to_decimal (n div 10))"
      using 1(2) False by (simp add: to_decimal.simps [of m] to_decimal.simps [of n])
    from 1(1) [OF False len] n False show ?thesis
      unfolding less_by_digits [of m n] eq_by_digits [of m n]
      by (simp add: to_decimal.simps [of m] to_decimal.simps [of n] append_less len digit_less digit_eq)
  qed
qed

lemma two_digits_order:
  assumes "m < 100" and "n < 100"
  shows "(two_digits m < two_digits n \<longleftrightarrow> m < n) \<and> (two_digits m = two_digits n \<longleftrightarrow> m = n)"
proof -
  have two: "two_digits k = [char_of (48 + k div 10), char_of (48 + k mod 10)]" if "k < 100" for k
  proof (cases "k < 10")
    case True
    then show ?thesis by (simp add: two_digits_def to_decimal_small) (simp add: char_of_def bit_Suc_0_iff)
  next
    case False
    then show ?thesis using that
      by (simp add: two_digits_def to_decimal.simps [of k] to_decimal_small div_less_iff_less_mult)
  qed
  have "m div 10 < 10" "n div 10 < 10" using assms by (simp_all add: div_less_iff_less_mult)
  then show ?thesis
    unfolding less_by_digits [of m n] eq_by_digits [of m n]
    by (simp add: two assms digit_less digit_eq del: char_of_eq_iff)
qed

definition four_digits :: "tm \<Rightarrow> bool" where
  "four_digits t = (tm_ok t \<and> 1000 \<le> tm_year t + 1900 \<and> tm_year t + 1900 \<le> 9999)"

lemma four_digits_in:
  "four_digits t \<Longrightarrow> tm_mon t + 1 < 100 \<and> tm_mday t < 100 \<and> tm_hour t < 100 \<and> tm_min t < 100 \<and> tm_secs t < 100"
  by (simp add: four_digits_def tm_ok_def)

lemma date_part_order:
  assumes "four_digits a" and "four_digits b"
  shows "(date_part a < date_part b \<longleftrightarrow> (tm_year a, tm_mon a, tm_mday a) < (tm_year b, tm_mon b, tm_mday b))
    \<and> (date_part a = date_part b \<longleftrightarrow> (tm_year a, tm_mon a, tm_mday a) = (tm_year b, tm_mon b, tm_mday b))"
proof -
  note in_a = four_digits_in [OF assms(1)] and in_b = four_digits_in [OF assms(2)]
  have year: "show_year (tm_year t + 1900) = to_decimal (nat (tm_year t + 1900)) \<and> length (to_decimal (nat (tm_year t + 1900))) = 4"
    if "four_digits t" for t
    using that length_to_decimal [of 3 "nat (tm_year t + 1900)"]
    by (simp add: four_digits_def show_year_def le_nat_iff nat_less_iff)
  note y = year [OF assms(1)] year [OF assms(2)]
  have years: "(nat (tm_year a + 1900) < nat (tm_year b + 1900) \<longleftrightarrow> tm_year a < tm_year b)
      \<and> (nat (tm_year a + 1900) = nat (tm_year b + 1900) \<longleftrightarrow> tm_year a = tm_year b)"
    using assms by (auto simp: four_digits_def)
  show ?thesis
    using years to_decimal_order [of "nat (tm_year a + 1900)" "nat (tm_year b + 1900)"]
      two_digits_order [of "tm_mon a + 1" "tm_mon b + 1"] two_digits_order [of "tm_mday a" "tm_mday b"] in_a in_b
    by (auto simp: date_part_def y append_less length_two_digits)
qed

lemma time_part_order:
  assumes "four_digits a" and "four_digits b"
  shows "time_part a < time_part b \<longleftrightarrow> (tm_hour a, tm_min a, tm_secs a) < (tm_hour b, tm_min b, tm_secs b)"
  using four_digits_in [OF assms(1)] four_digits_in [OF assms(2)]
    two_digits_order [of "tm_hour a" "tm_hour b"] two_digits_order [of "tm_min a" "tm_min b"]
    two_digits_order [of "tm_secs a" "tm_secs b"]
  by (auto simp: time_part_def append_less length_two_digits)

lemma time_text_order:
  assumes "four_digits a" and "four_digits b"
  shows "date_part a @ c # time_part a @ z < date_part b @ c # time_part b @ z \<longleftrightarrow> a < b"
proof -
  have "length (date_part a) = length (date_part b)"
    using assms length_date_part [of a 3] length_date_part [of b 3]
    by (simp add: four_digits_def le_nat_iff nat_less_iff)
  moreover have "length (time_part a) = length (time_part b)"
    using assms by (simp add: four_digits_def length_time_part)
  ultimately show ?thesis
    using date_part_order [OF assms] time_part_order [OF assms]
    by (simp add: append_less less_tm_iff)
qed

lemma gmt_datetime_parts:
  "gmt_datetime other failed t = (let g = gmt_time failed t in date_part g @ CHR ''T'' # time_part g @ ''Z'')"
  by (simp add: gmt_datetime_def ZULU_TIMESTAMP_def conversion_def date_part_def time_part_def Let_def)

text \<open>
  C23: the timestamps of \<open>gmt_datetime\<close> sort as text the way their times do, for all times of
  the years 1000 to 9999: a log that is sorted by its timestamps is in the order of time, and
  different times have different timestamps.
\<close>

theorem gmt_datetime_sorts:
  assumes "four_digit_time a" and "four_digit_time b"
  shows "gmt_datetime other failed a < gmt_datetime other failed b \<longleftrightarrow> a < b"
proof -
  obtain ta where ta: "gmtime_r a = Some ta" "four_digits ta"
    using four_digit_year [OF assms(1)] gmtime_ok [of a] by (auto simp: four_digits_def)
  obtain tb where tb: "gmtime_r b = Some tb" "four_digits tb"
    using four_digit_year [OF assms(2)] gmtime_ok [of b] by (auto simp: four_digits_def)
  have "ta < tb \<longleftrightarrow> a < b"
    using gmtime_less [OF ta(1) tb(1)] gmtime_less [OF tb(1) ta(1)] ta(1) tb(1)
    by (cases a b rule: linorder_cases) auto
  then show ?thesis
    using time_text_order [OF ta(2) tb(2), of "CHR ''T''" "''Z''"]
    by (simp add: gmt_datetime_parts gmt_time_def ta(1) tb(1) Let_def)
qed

lemma gmt_datetime_sorts_witness:
  "gmt_datetime (\<lambda>_ _. []) \<lparr>tm_year = 0, tm_mon = 0, tm_mday = 0, tm_hour = 0, tm_min = 0, tm_secs = 0\<rparr> (- 1)
    < gmt_datetime (\<lambda>_ _. []) \<lparr>tm_year = 0, tm_mon = 0, tm_mday = 0, tm_hour = 0, tm_min = 0, tm_secs = 0\<rparr> 951782400"
  using gmt_datetime_sorts [of "- 1" 951782400] by (simp add: four_digit_time_def)

text \<open>The end of February of a leap year, as text.\<close>

lemma gmt_datetime_leap_day:
  "gmt_datetime (\<lambda>_ _. []) failed 951782400 = ''2000-02-29T00:00:00Z''"
  by (simp add: gmt_datetime_parts gmt_time_def gmtime_r_def civil_date_def civil_day_def year_loop.simps
      year_days_def is_leap_def month_days_def clock_time_def date_part_def time_part_def two_digits_def
      show_year_def to_decimal.simps Let_def char_of_def bit_Suc_0_iff)

section \<open>Output objects\<close>

datatype print_event = Cout string | Cerr string | Finalize | Quick_exit int

definition newline :: char where "newline = CHR 0x0A"

definition print_fmt :: "(string \<Rightarrow> 'a \<Rightarrow> string) \<Rightarrow> string \<Rightarrow> 'a \<Rightarrow> print_event list" where
  "print_fmt format fmt args = [Cout (format fmt args)]"

text \<open>The destructors, with the text that was written to the object.\<close>

definition output_finish :: "string \<Rightarrow> nat \<Rightarrow> print_event list" where
  "output_finish str nl = [Cout str] @ (if nl \<noteq> 0 then [Cout (replicate nl newline)] else [])"

definition exit_finish :: "string \<Rightarrow> int \<Rightarrow> print_event list" where
  "exit_finish str code = [Cerr (str @ [newline, CHR 0x00]), Finalize, Quick_exit code]"

definition debug_finish :: "bool \<Rightarrow> string \<Rightarrow> print_event list" where
  "debug_finish ndebug str = (if ndebug then [] else [Cout (str @ [newline])])"

definition error_finish :: "string \<Rightarrow> print_event list" where
  "error_finish str = [Cerr (str @ [newline])]"

text \<open>The null stream takes every character and keeps none.\<close>

definition null_overflow :: "int \<Rightarrow> int" where
  "null_overflow c = c"

definition null_xsputn :: "string \<Rightarrow> nat \<Rightarrow> nat" where
  "null_xsputn s n = n"

end
