(* ===== verification/Handles.thy ===== *)
theory Handles
  imports Scope_Contract
begin

text \<open>
  The owning file descriptor \<open>handle_t\<close> of \<open>src/system.hpp\<close>: a descriptor and the function
  that closes it. A descriptor is an integer, a close function is named by a number; an
  operation returns the calls it makes, each the close function with its argument.
  \<open>handle_t\<close> is an instance of the contract of scopes whose duty can be handed out or replaced.
\<close>

record handle =
  hd_handle :: int
  hd_exit :: nat

type_synonym close_call = "nat \<times> int"

text \<open>The member initialisers: no descriptor, and the wrapper of \<open>::close\<close>, number 0.\<close>

definition default_handle :: handle where
  "default_handle = \<lparr>hd_handle = -1, hd_exit = 0\<rparr>"

definition handle_of_fn :: "nat \<Rightarrow> handle" where
  "handle_of_fn fn = default_handle\<lparr>hd_exit := fn\<rparr>"

definition handle_of_fd :: "int \<Rightarrow> handle" where
  "handle_of_fd fd = default_handle\<lparr>hd_handle := fd\<rparr>"

definition handle_of :: "int \<Rightarrow> nat \<Rightarrow> handle" where
  "handle_of fd fn = \<lparr>hd_handle = fd, hd_exit = fn\<rparr>"

definition handle_move :: "handle \<Rightarrow> handle \<times> handle" where
  "handle_move from = (\<lparr>hd_handle = hd_handle from, hd_exit = hd_exit from\<rparr>, from\<lparr>hd_handle := -1\<rparr>)"

definition handle_close :: "handle \<Rightarrow> handle \<times> close_call list" where
  "handle_close h =
     (if hd_handle h \<noteq> -1 then (h\<lparr>hd_handle := -1\<rparr>, [(hd_exit h, hd_handle h)]) else (h, []))"

definition handle_destroy :: "handle \<Rightarrow> close_call list" where
  "handle_destroy h = snd (handle_close h)"

definition handle_bool :: "handle \<Rightarrow> bool" where
  "handle_bool h = (hd_handle h > -1)"

definition handle_int :: "handle \<Rightarrow> int" where
  "handle_int h = hd_handle h"

definition handle_not :: "handle \<Rightarrow> bool" where
  "handle_not h = (hd_handle h < 0)"

definition handle_is_open :: "handle \<Rightarrow> bool" where
  "handle_is_open h = (hd_handle h > -1)"

definition handle_set :: "handle \<Rightarrow> int \<Rightarrow> handle \<times> close_call list" where
  "handle_set h fd = (case handle_close h of (h', cs) \<Rightarrow> (h'\<lparr>hd_handle := fd\<rparr>, cs))"

definition handle_assign :: "handle \<Rightarrow> handle \<Rightarrow> handle \<times> handle \<times> close_call list" where
  "handle_assign h other =
     (case handle_close h of (h', cs) \<Rightarrow>
       (h'\<lparr>hd_handle := hd_handle other, hd_exit := hd_exit other\<rparr>, other\<lparr>hd_handle := -1\<rparr>, cs))"

definition handle_get :: "handle \<Rightarrow> int" where
  "handle_get h = hd_handle h"

definition handle_release :: "handle \<Rightarrow> handle \<times> int" where
  "handle_release h = (h\<lparr>hd_handle := -1\<rparr>, hd_handle h)"

text \<open>\<open>clone\<close> asks the operating system for a second descriptor, \<open>dup\<close>.\<close>

definition handle_clone :: "(int \<Rightarrow> int) \<Rightarrow> handle \<Rightarrow> int" where
  "handle_clone dup h = dup (hd_handle h)"

text \<open>\<open>make_handle\<close> with the result of \<open>::open\<close>.\<close>

definition make_handle :: "(string \<Rightarrow> int \<Rightarrow> int \<Rightarrow> int) \<Rightarrow> string \<Rightarrow> int \<Rightarrow> int \<Rightarrow> handle" where
  "make_handle os_open path mode perms = handle_of_fd (os_open path mode perms)"

lemmas handle_defs = default_handle_def handle_of_fn_def handle_of_fd_def handle_of_def handle_move_def
  handle_close_def handle_destroy_def handle_set_def handle_assign_def handle_release_def

subsection \<open>The scope contract\<close>

definition handle_held :: "handle \<Rightarrow> close_call option" where
  "handle_held h = (if hd_handle h = -1 then None else Some (hd_exit h, hd_handle h))"

definition handle_ops :: "(nat \<times> int, close_call, handle) scope_ops" where
  "handle_ops = \<lparr>so_takes = (\<lambda>(fn, fd). if fd = -1 then None else Some (fn, fd)),
     so_make = (\<lambda>(fn, fd). handle_of fd fn), so_move = handle_move,
     so_assign = handle_assign, so_finish = handle_destroy\<rparr>"

text \<open>
  The members that change the descriptor of a living object: \<open>close\<close>, \<open>release\<close>, and the
  assignment of a bare descriptor. A released descriptor is noted with the close function that
  it would have been closed by.
\<close>

datatype handle_member = Close | Release | Set int

fun handle_act :: "handle_member \<Rightarrow> handle \<Rightarrow> handle \<times> close_call list \<times> close_call list" where
  "handle_act Close h = (case handle_close h of (h', cs) \<Rightarrow> (h', cs, []))"
| "handle_act Release h =
     (case handle_release h of (h', fd) \<Rightarrow> (h', [], if fd = -1 then [] else [(hd_exit h, fd)]))"
| "handle_act (Set fd) h = (case handle_set h fd of (h', cs) \<Rightarrow> (h', cs, []))"

fun handle_gain :: "handle_member \<Rightarrow> handle \<Rightarrow> close_call list" where
  "handle_gain (Set fd) h = (if fd = -1 then [] else [(hd_exit h, fd)])"
| "handle_gain _ h = []"

interpretation hs: acting_scope handle_ops handle_held handle_act handle_gain
proof (unfold_locales, goal_cases)
  case (8 e s s' ds gs)
  then show ?case by (cases e) (auto simp: handle_held_def handle_defs)
qed (auto simp: handle_ops_def handle_held_def handle_defs split: prod.splits)

text \<open>
  C16: in every program that constructs, moves, assigns (a handle or a bare descriptor), closes,
  releases and destroys \<open>handle_t\<close> objects and ends with none alive, the descriptors given to the
  constructors and to \<open>operator=(int)\<close> are exactly those closed, each once by the close function
  of its object, and those that \<open>release\<close> handed out, which no object closes. Failed descriptors, -1,
  do not count.
\<close>

theorem handles_close_once:
  assumes "act_run handle_ops handle_act handle_gain cs (replicate n None) = (replicate n None, tk, ds, gs)"
  shows "mset tk = mset ds + mset gs"
  using assms by (rule hs.act_run_discharges_all)

lemma handles_close_once_witness:
  "\<exists>tk ds gs. act_run handle_ops handle_act handle_gain
      [Call (Construct 0 (7, 4)), Call (Construct 1 (0, 5)), Call (Construct 2 (0, -1)), Early 1 Close,
       Call (Move_assign 1 0), Early 1 (Set 9), Early 2 (Set 6), Call (Move_assign 0 2), Early 0 Release,
       Call (Destroy 1), Call (Destroy 0), Call (Destroy 2)]
      (replicate 3 None) = (replicate 3 None, tk, ds, gs)
    \<and> tk = [(7, 4), (0, 5), (7, 9), (0, 6)] \<and> gs = [(0, 6)] \<and> mset tk = mset ds + mset gs"
proof -
  have run: "act_run handle_ops handle_act handle_gain
      [Call (Construct 0 (7, 4)), Call (Construct 1 (0, 5)), Call (Construct 2 (0, -1)), Early 1 Close,
       Call (Move_assign 1 0), Early 1 (Set 9), Early 2 (Set 6), Call (Move_assign 0 2), Early 0 Release,
       Call (Destroy 1), Call (Destroy 0), Call (Destroy 2)]
      (replicate 3 None)
    = (replicate 3 None, [(7, 4), (0, 5), (7, 9), (0, 6)], [(0, 5), (7, 4), (7, 9)], [(0, 6)])"
    by (simp add: handle_ops_def handle_defs eval_nat_numeral)
  from handles_close_once [OF run] run show ?thesis by blast
qed

text \<open>
  What the remaining members of \<open>handle_t\<close> do with the descriptor: \<open>operator=(int)\<close>
  closes the old one and takes the new one, \<open>release\<close> gives it up unclosed, \<open>close\<close> closes
  at most once; and the boolean tests (descriptor \<open>> -1\<close>) do not agree with \<open>close\<close>
  (descriptor \<open>\<noteq> -1\<close>): a negative descriptor other than -1 is not open, yet it is closed.
\<close>

theorem handle_members:
  "handle_held (fst (handle_set h fd)) = (if fd = -1 then None else Some (hd_exit h, fd))"
  "snd (handle_set h fd) = duty_list (handle_held h)"
  "handle_destroy (fst (handle_release h)) = [] \<and> snd (handle_release h) = handle_get h"
  "snd (handle_close (fst (handle_close h))) = [] \<and> snd (handle_close h) = duty_list (handle_held h)"
  "handle_bool h = handle_is_open h \<and> handle_not h = (\<not> handle_is_open h)"
  "handle_destroy h \<noteq> [] \<and> \<not> handle_is_open h \<longleftrightarrow> hd_handle h < -1"
  by (auto simp: handle_held_def handle_defs handle_get_def handle_bool_def handle_not_def
      handle_is_open_def split: if_splits)

end
