(* ===== verification/System.thy ===== *)
theory System
  imports Prelude
begin

text \<open>
  From \<open>src/system.hpp\<close>: the notifier \<open>notify_t\<close>, \<open>make_argv\<close> and the conversions of a
  deadline for \<open>select\<close> and \<open>poll\<close>. Times are in nanoseconds of the steady clock. The
  descriptor behind a notifier is the operating system's; its documented behaviour (a
  counter for an event descriptor, a bounded queue of bytes for a pipe, both non-blocking) is
  written out, with the number of pending notifications as its state.
\<close>

section \<open>notify_t\<close>

text \<open>The two builds: \<open>eventfd\<close>, or a pipe with room for \<open>n\<close> bytes.\<close>

datatype channel = Eventfd | Pipe nat

definition kernel_write :: "channel \<Rightarrow> nat \<Rightarrow> nat \<times> int" where
  "kernel_write ch pending = (case ch of
     Eventfd \<Rightarrow> if pending + 1 \<le> 2 ^ 64 - 2 then (pending + 1, 8) else (pending, -1)
   | Pipe n \<Rightarrow> if pending < n then (pending + 1, 1) else (pending, -1))"

definition kernel_read :: "channel \<Rightarrow> nat \<Rightarrow> nat \<times> int" where
  "kernel_read ch pending = (if pending = 0 then (0, -1) else case ch of
     Eventfd \<Rightarrow> (0, 8)
   | Pipe n \<Rightarrow> (pending - min 64 pending, int (min 64 pending)))"

definition kernel_poll :: "bool \<Rightarrow> nat \<Rightarrow> int" where
  "kernel_poll interrupted pending = (if interrupted then -1 else if pending > 0 then 1 else 0)"

record notifier =
  nt_in :: int
  nt_out :: int
  nt_pending :: nat

text \<open>The constructor with the descriptors it got, if any. An event descriptor is both ends.\<close>

definition nt_new :: "channel \<Rightarrow> (int \<times> int) option \<Rightarrow> notifier" where
  "nt_new ch fds = (case fds of
     None \<Rightarrow> \<lparr>nt_in = -1, nt_out = -1, nt_pending = 0\<rparr>
   | Some (r, w) \<Rightarrow> \<lparr>nt_in = r, nt_out = (if ch = Eventfd then r else w), nt_pending = 0\<rparr>)"

definition nt_release :: "notifier \<Rightarrow> notifier \<times> int list" where
  "nt_release n =
     (if nt_in n = -1 then (n, [])
      else (n\<lparr>nt_in := -1, nt_out := -1\<rparr>, (if nt_in n \<noteq> nt_out n then [nt_out n] else []) @ [nt_in n]))"

definition nt_destroy :: "notifier \<Rightarrow> int list" where
  "nt_destroy n = snd (nt_release n)"

definition nt_is_open :: "notifier \<Rightarrow> bool" where
  "nt_is_open n = (nt_in n \<noteq> -1)"

definition nt_handle :: "notifier \<Rightarrow> int" where
  "nt_handle n = nt_in n"

definition nt_int :: "notifier \<Rightarrow> int" where
  "nt_int n = nt_in n"

text \<open>The state, the result, the descriptors closed.\<close>

definition nt_finish_call :: "notifier \<Rightarrow> int \<Rightarrow> notifier \<times> bool \<times> int list" where
  "nt_finish_call n rtn =
     (if rtn < 0 then (case nt_release n of (n', cs) \<Rightarrow> (n', False, cs)) else (n, rtn > 0, []))"

definition nt_clear :: "channel \<Rightarrow> notifier \<Rightarrow> notifier \<times> bool \<times> int list" where
  "nt_clear ch n =
     (if nt_in n = -1 then (n, False, [])
      else case kernel_read ch (nt_pending n) of (p, rtn) \<Rightarrow> nt_finish_call (n\<lparr>nt_pending := p\<rparr>) rtn)"

definition nt_wait :: "bool \<Rightarrow> notifier \<Rightarrow> notifier \<times> bool \<times> int list" where
  "nt_wait interrupted n =
     (if nt_in n = -1 then (n, False, []) else nt_finish_call n (kernel_poll interrupted (nt_pending n)))"

definition nt_signal :: "channel \<Rightarrow> notifier \<Rightarrow> notifier \<times> bool \<times> int list" where
  "nt_signal ch n =
     (if nt_in n = -1 then (n, False, [])
      else case kernel_write ch (nt_pending n) of (p, rtn) \<Rightarrow> nt_finish_call (n\<lparr>nt_pending := p\<rparr>) rtn)"

lemmas nt_defs = nt_new_def nt_release_def nt_destroy_def nt_is_open_def nt_finish_call_def nt_clear_def
  nt_wait_def nt_signal_def kernel_read_def kernel_write_def kernel_poll_def

text \<open>
  On an open notifier \<open>wait\<close> answers whether a notification is pending, and \<open>clear\<close> takes
  what is pending (all of it from an event descriptor, at most 64 from a pipe); but each of
  \<open>clear\<close> with nothing pending, \<open>signal\<close> with a full channel and an interrupted \<open>wait\<close> closes
  the notifier for good, because the code takes every negative result for a broken descriptor.
\<close>

theorem notifier_calls:
  assumes "nt_is_open n"
  shows "nt_wait False n = (n, nt_pending n > 0, [])
    \<and> nt_clear ch n =
        (if nt_pending n = 0 then (n\<lparr>nt_in := -1, nt_out := -1\<rparr>, False, nt_destroy n)
         else (n\<lparr>nt_pending := (case ch of Eventfd \<Rightarrow> 0 | Pipe k \<Rightarrow> nt_pending n - 64)\<rparr>, True, []))
    \<and> nt_signal ch n =
        (if (case ch of Eventfd \<Rightarrow> nt_pending n < 2 ^ 64 - 2 | Pipe k \<Rightarrow> nt_pending n < k)
         then (n\<lparr>nt_pending := nt_pending n + 1\<rparr>, True, [])
         else (n\<lparr>nt_in := -1, nt_out := -1\<rparr>, False, nt_destroy n))
    \<and> nt_wait True n = (n\<lparr>nt_in := -1, nt_out := -1\<rparr>, False, nt_destroy n)"
proof -
  have "nt_pending n - min 64 (nt_pending n) = nt_pending n - 64" by (simp add: min_def)
  then show ?thesis using assms by (cases ch) (auto simp: nt_defs)
qed

lemma notifier_calls_witness:
  "nt_clear Eventfd (nt_new Eventfd (Some (5, 5))) = (nt_new Eventfd None, False, [5])"
  using notifier_calls [of "nt_new Eventfd (Some (5, 5))" Eventfd] by (simp add: nt_defs)

text \<open>
  A run of calls on a notifier and its destruction close each of its descriptors exactly once.
\<close>

datatype nt_call = Clear | Wait bool | Signal

fun nt_do :: "channel \<Rightarrow> nt_call \<Rightarrow> notifier \<Rightarrow> notifier \<times> bool \<times> int list" where
  "nt_do ch Clear n = nt_clear ch n"
| "nt_do ch (Wait i) n = nt_wait i n"
| "nt_do ch Signal n = nt_signal ch n"

fun nt_run :: "channel \<Rightarrow> nt_call list \<Rightarrow> notifier \<Rightarrow> int list" where
  "nt_run ch [] n = nt_destroy n"
| "nt_run ch (c # cs) n = (case nt_do ch c n of (n', b, ds) \<Rightarrow> ds @ nt_run ch cs n')"

lemma nt_call_closes:
  "nt_do ch c n = (n', b, ds) \<Longrightarrow> ds @ nt_destroy n' = nt_destroy n \<and> (nt_in n' = -1 \<or> n' = n\<lparr>nt_pending := nt_pending n'\<rparr>)"
  by (cases c; cases ch) (auto simp: nt_defs split: if_splits)

lemma nt_run_closes: "nt_run ch cs n = nt_destroy n"
proof (induction cs arbitrary: n)
  case (Cons c cs)
  then show ?case using nt_call_closes by (auto split: prod.splits)
qed simp

text \<open>
  Whatever calls are made on a notifier, by its end each descriptor it got is closed
  exactly once: the one event descriptor, or both ends of the pipe.
\<close>

theorem notifier_closes_once:
  "nt_run ch cs (nt_new ch fds) = (case fds of None \<Rightarrow> [] | Some (r, w) \<Rightarrow>
     if r = -1 then [] else if ch = Eventfd \<or> r = w then [r] else [w, r])"
  unfolding nt_run_closes by (auto simp: nt_defs split: option.splits)

section \<open>make_argv\<close>

text \<open>An array of pointers; a null pointer is \<open>None\<close>. A write outside of it is undefined.\<close>

definition arr_set :: "nat \<Rightarrow> 'a option \<Rightarrow> 'a option list \<Rightarrow> 'a option list res" where
  "arr_set i x arr = (if i < length arr then Inr (arr[i := x]) else Inl Undefined)"

fun argv_loop :: "'a list \<Rightarrow> nat \<Rightarrow> 'a option list \<Rightarrow> 'a option list res" where
  "argv_loop [] pos argv = Inr argv"
| "argv_loop (a # args) pos argv =
     (case arr_set pos (Some a) argv of Inl e \<Rightarrow> Inl e | Inr argv' \<Rightarrow> argv_loop args (pos + 1) argv')"

definition make_argv :: "'a list \<Rightarrow> 'a option list res" where
  "make_argv args =
     (case argv_loop args 0 (replicate (length args + 1) None) of
        Inl e \<Rightarrow> Inl e
      | Inr argv \<Rightarrow> arr_set (length args + 1) None argv)"

lemma argv_loop_fills:
  "argv_loop args (length pre) (pre @ replicate (length args + k) None) = Inr (pre @ map Some args @ replicate k None)"
proof (induction args arbitrary: pre)
  case (Cons a args)
  then show ?case using Cons.IH [of "pre @ [Some a]"] by (simp add: arr_set_def list_update_append)
qed simp

text \<open>
  \<open>make_argv\<close> first fills its array with the arguments and the terminating null pointer, as
  \<open>execvp\<close> needs it, and then always writes one element past the end of the array.
\<close>

theorem make_argv_overruns:
  "argv_loop args 0 (replicate (length args + 1) None) = Inr (map Some args @ [None]) \<and> make_argv args = Inl Undefined"
  using argv_loop_fills [of args "[]" 1] by (simp add: make_argv_def arr_set_def)

section \<open>Deadlines\<close>

definition is_expired :: "int \<Rightarrow> int \<Rightarrow> bool" where
  "is_expired now deadline = (deadline < now)"

record timeval =
  tv_sec :: int
  tv_usec :: int

text \<open>The clocks are parameters: the time of day, and the steady time that deadlines compare with.\<close>

definition time_of_day :: "timeval \<Rightarrow> timeval option \<Rightarrow> timeval option" where
  "time_of_day clock tp = map_option (\<lambda>_. clock) tp"

definition steady_time :: "int \<Rightarrow> int" where
  "steady_time now = now"

text \<open>\<open>None\<close> is the null pointer. The value is the result and what is stored.\<close>

definition put_timeval :: "int \<Rightarrow> timeval option \<Rightarrow> int \<Rightarrow> bool \<times> timeval option" where
  "put_timeval now tv deadline =
     (case tv of
        None \<Rightarrow> (False, None)
      | Some t \<Rightarrow>
          let t0 = t\<lparr>tv_sec := 0, tv_usec := 0\<rparr> in
          if deadline < now then (False, Some t0)
          else let usecs = (deadline - now) div 1000 in
            (True, Some (t0\<lparr>tv_sec := usecs div 1000000, tv_usec := usecs mod 1000000\<rparr>)))"

text \<open>\<open>int(msec)\<close> truncates the 64-bit count, before the comparison with the largest \<open>int\<close>.\<close>

definition get_timeout :: "int \<Rightarrow> int \<Rightarrow> int" where
  "get_timeout now deadline =
     (let dif = (if deadline > now then deadline - now else 0);
          msec = dif div 1000000
      in min (sint (word_of_int msec :: 32 word)) (2 ^ 31 - 1))"

text \<open>
  A \<open>timeval\<close> made of a deadline is a valid one (microseconds below a million) that is less
  than a microsecond short of the time left; a deadline that has passed gives zero and false.
\<close>

theorem put_timeval_spec:
  "put_timeval now (Some t) deadline = (b, Some t') \<Longrightarrow>
     0 \<le> tv_usec t' \<and> tv_usec t' < 1000000 \<and> 0 \<le> tv_sec t' \<and> b = (\<not> is_expired now deadline)
     \<and> (let left = max 0 (deadline - now); put = 1000 * (1000000 * tv_sec t' + tv_usec t') in
          put \<le> left \<and> left < put + 1000)"
proof -
  assume put: "put_timeval now (Some t) deadline = (b, Some t')"
  show ?thesis
  proof (cases "deadline < now")
    case True
    then show ?thesis using put by (auto simp: put_timeval_def is_expired_def Let_def)
  next
    case False
    define u where "u = (deadline - now) div 1000"
    have u: "0 \<le> u" "1000 * u \<le> deadline - now" "deadline - now < 1000 * u + 1000"
      using False by (simp_all add: u_def pos_imp_zdiv_nonneg_iff)
    have t': "t' = t\<lparr>tv_sec := u div 1000000, tv_usec := u mod 1000000\<rparr>" "b"
      using put False by (simp_all add: put_timeval_def u_def Let_def)
    have "1000000 * tv_sec t' + tv_usec t' = u" using t' by simp
    then show ?thesis using u t' False by (simp add: Let_def is_expired_def pos_imp_zdiv_nonneg_iff)
  qed
qed

lemma put_timeval_spec_witness:
  "put_timeval 1000 (Some \<lparr>tv_sec = 7, tv_usec = 7\<rparr>) 2500001999 = (True, Some \<lparr>tv_sec = 2, tv_usec = 500000\<rparr>)
   \<and> (500000::int) < 1000000"
  using put_timeval_spec [of 1000 "\<lparr>tv_sec = 7, tv_usec = 7\<rparr>" 2500001999 True "\<lparr>tv_sec = 2, tv_usec = 500000\<rparr>"]
  by (simp add: put_timeval_def Let_def)

lemma sint_small: "0 \<le> m \<Longrightarrow> m < 2 ^ 31 \<Longrightarrow> sint (word_of_int m :: 32 word) = m"
  by (simp add: signed_of_int signed_take_bit_int_eq_self)

text \<open>
  The milliseconds for \<open>poll\<close> are those left until the deadline, rounded down, while they
  fit an \<open>int\<close>; beyond that they are cut to 32 bits instead of limited, so that a deadline 25
  days ahead is waited for without a limit (negative) and one of 50 days not at all.
\<close>

theorem get_timeout_spec:
  "(deadline \<le> now \<longrightarrow> get_timeout now deadline = 0)
   \<and> (0 \<le> deadline - now \<and> deadline - now < 2 ^ 31 * 1000000 \<longrightarrow>
        get_timeout now deadline = (deadline - now) div 1000000)
   \<and> get_timeout now (now + 2 ^ 31 * 1000000) = - (2 ^ 31)
   \<and> get_timeout now (now + 2 ^ 32 * 1000000) = 0"
proof -
  have "get_timeout now deadline = (deadline - now) div 1000000"
    if "0 \<le> deadline - now" "deadline - now < 2 ^ 31 * 1000000"
  proof -
    let ?m = "(deadline - now) div 1000000"
    have "0 \<le> ?m" using that(1) by (simp add: pos_imp_zdiv_nonneg_iff)
    moreover have "?m < 2 ^ 31" using that(2) by simp
    moreover have "(if deadline > now then deadline - now else 0) = deadline - now" using that(1) by simp
    ultimately show ?thesis using sint_small [of ?m] by (simp add: get_timeout_def)
  qed
  then show ?thesis by (auto simp: get_timeout_def Let_def)
qed

lemma get_timeout_spec_witness: "get_timeout 5 3000005 = 3"
  using get_timeout_spec [of 3000005 5] by simp

section \<open>Files and processes\<close>

text \<open>The type of a file, from the mode that \<open>stat\<close> gives, if it succeeds.\<close>

definition is_dir :: "(string \<Rightarrow> 32 word option) \<Rightarrow> string \<Rightarrow> bool" where
  "is_dir stat path = (case stat path of None \<Rightarrow> False | Some mode \<Rightarrow> if mode AND 0xF000 = 0x4000 then True else False)"

definition is_file :: "(string \<Rightarrow> 32 word option) \<Rightarrow> string \<Rightarrow> bool" where
  "is_file stat path = (case stat path of None \<Rightarrow> False | Some mode \<Rightarrow> if mode AND 0xF000 = 0x8000 then True else False)"

lemma dir_not_file: "\<not> (is_dir stat path \<and> is_file stat path)"
  by (auto simp: is_dir_def is_file_def split: option.splits if_splits)

text \<open>What the child of \<open>at_fork\<close> and \<open>at_spawn\<close> does.\<close>

datatype child_event =
    Init
  | Exec string "string option list"
  | Exec_env string "string option list" "string option list"
  | Exit int

definition at_fork :: "int \<Rightarrow> int \<Rightarrow> int \<times> child_event list" where
  "at_fork child func = (child, if child = 0 then [Exit func] else [])"

definition at_spawn :: "int \<Rightarrow> string list \<Rightarrow> string \<Rightarrow> string list \<Rightarrow> (int \<times> child_event list) res" where
  "at_spawn child args argv0 env =
     (if args = [] then Inr (-1, [])
      else case make_argv args of
        Inl e \<Rightarrow> Inl e
      | Inr argv \<Rightarrow>
          let argv0 = (if argv0 = [] then hd args else argv0) in
          if child \<noteq> 0 then Inr (child, [])
          else if env \<noteq> []
          then (case make_argv env of
              Inl e \<Rightarrow> Inl e
            | Inr envp \<Rightarrow> Inr (0, [Init, Exec_env argv0 argv envp, Exit (-1)]))
          else Inr (0, [Init, Exec argv0 argv, Exit (-1)]))"

text \<open>
  Because of \<open>make_argv\<close>, no program can be spawned by an execution that the standard defines.
\<close>

lemma at_spawn_undefined: "at_spawn child args argv0 env = (if args = [] then Inr (-1, []) else Inl Undefined)"
  using argv_loop_fills [of args "[]" 1] by (simp add: at_spawn_def make_argv_def arr_set_def)

end
