(* ===== verification/Sockets.thy ===== *)
theory Sockets
  imports String_View Handles
begin

text \<open>
  \<open>src/sockets.hpp\<close>: the socket address \<open>address\<close> and the functions on \<open>sockaddr\<close> pointers. An
  address is the 128 bytes of its \<open>sockaddr_storage\<close> in the Linux layout: the family in bytes
  0 and 1 (little endian), the port in bytes 2 and 3 (network order), the IPv4 address in
  bytes 4 to 7, the IPv6 address in bytes 8 to 23. \<open>inet_ntop\<close>, \<open>inet_pton\<close>, \<open>setsockopt\<close> and
  \<open>socket\<close> are parameters.
\<close>

section \<open>The layout\<close>

definition af_unspec :: nat where "af_unspec = 0"
definition af_unix :: nat where "af_unix = 1"
definition af_inet :: nat where "af_inet = 2"
definition af_inet6 :: nat where "af_inet6 = 10"

lemmas af_defs [simp] = af_unspec_def af_unix_def af_inet_def af_inet6_def

type_synonym sockaddr = "byte list"

definition sa_family :: "sockaddr \<Rightarrow> nat" where
  "sa_family sa = unat (sa ! 0) + 256 * unat (sa ! 1)"

definition set_family :: "nat \<Rightarrow> sockaddr \<Rightarrow> sockaddr" where
  "set_family f sa = sa[0 := word_of_nat f, 1 := word_of_nat (f div 256)]"

text \<open>\<open>ntohs\<close> and \<open>htons\<close> of the two port bytes, which \<open>sin_port\<close> and \<open>sin6_port\<close> share.\<close>

definition port_field :: "sockaddr \<Rightarrow> 16 word" where
  "port_field sa = word_of_nat (256 * unat (sa ! 2) + unat (sa ! 3))"

definition set_port_field :: "16 word \<Rightarrow> sockaddr \<Rightarrow> sockaddr" where
  "set_port_field p sa = sa[2 := word_of_nat (unat p div 256), 3 := word_of_nat (unat p)]"

definition in4_field :: "sockaddr \<Rightarrow> byte list" where
  "in4_field sa = take 4 (drop 4 sa)"

definition in6_field :: "sockaddr \<Rightarrow> byte list" where
  "in6_field sa = take 16 (drop 8 sa)"

definition put_bytes :: "nat \<Rightarrow> byte list \<Rightarrow> sockaddr \<Rightarrow> sockaddr" where
  "put_bytes off bs sa = take off sa @ bs @ drop (off + length bs) sa"

text \<open>\<open>memcpy\<close> within both objects.\<close>

definition memcpy :: "nat \<Rightarrow> byte list \<Rightarrow> byte list \<Rightarrow> byte list res" where
  "memcpy n src dst = (if n \<le> length src \<and> n \<le> length dst then Inr (take n src @ drop n dst) else Inl Undefined)"

section \<open>Functions on socket addresses\<close>

fun is_zero :: "byte list \<Rightarrow> bool" where
  "is_zero [] = True"
| "is_zero (b # bs) = (if b \<noteq> 0 then False else is_zero bs)"

text \<open>
  \<open>is_sockaddr_v\<close>, which guards the casts: the type, after a pointer and then qualifiers are taken
  off, is one of the socket address structures.
\<close>

datatype c_type =
    Sockaddr | Sockaddr_un | Sockaddr_in | Sockaddr_in6 | Sockaddr_storage | Other_type
  | Const_of c_type | Pointer_to c_type

fun is_sockaddr :: "c_type \<Rightarrow> bool" where
  "is_sockaddr Sockaddr = True"
| "is_sockaddr Sockaddr_un = True"
| "is_sockaddr Sockaddr_in = True"
| "is_sockaddr Sockaddr_in6 = True"
| "is_sockaddr Sockaddr_storage = True"
| "is_sockaddr _ = False"

fun remove_const :: "c_type \<Rightarrow> c_type" where
  "remove_const (Const_of t) = t"
| "remove_const t = t"

fun remove_pointer :: "c_type \<Rightarrow> c_type" where
  "remove_pointer (Pointer_to t) = t"
| "remove_pointer (Const_of (Pointer_to t)) = t"
| "remove_pointer t = t"

definition is_sockaddr_v :: "c_type \<Rightarrow> bool" where
  "is_sockaddr_v t = is_sockaddr (remove_const (remove_pointer t))"

lemma is_sockaddr_pointers:
  "is_sockaddr t \<Longrightarrow> is_sockaddr_v t \<and> is_sockaddr_v (Const_of t) \<and> is_sockaddr_v (Pointer_to t)
     \<and> is_sockaddr_v (Pointer_to (Const_of t)) \<and> \<not> is_sockaddr_v (Pointer_to (Pointer_to t))"
  by (cases t) (simp_all add: is_sockaddr_v_def)

text \<open>The casts give a null pointer, \<open>None\<close>, for other families.\<close>

definition in4_cast :: "sockaddr \<Rightarrow> sockaddr option" where
  "in4_cast sa = (if sa_family sa = af_inet \<or> sa_family sa = af_unspec then Some sa else None)"

definition in6_cast :: "sockaddr \<Rightarrow> sockaddr option" where
  "in6_cast sa = (if sa_family sa = af_inet6 \<or> sa_family sa = af_unspec then Some sa else None)"

definition un_cast :: "sockaddr \<Rightarrow> sockaddr option" where
  "un_cast sa = (if sa_family sa = af_unix then Some sa else None)"

definition family_size :: "nat \<Rightarrow> nat" where
  "family_size f = (if f = af_inet then 16 else if f = af_inet6 then 28 else if f = af_unix then 110 else 0)"

definition addrlen :: "sockaddr \<Rightarrow> nat" where
  "addrlen sa = family_size (sa_family sa)"

definition sa_port :: "sockaddr \<Rightarrow> 16 word" where
  "sa_port sa =
     (if sa_family sa = af_inet then port_field (the (in4_cast sa))
      else if sa_family sa = af_inet6 then port_field (the (in6_cast sa))
      else 0)"

definition sa_is_any :: "sockaddr \<Rightarrow> bool" where
  "sa_is_any sa =
     (if sa_family sa = af_unspec then True
      else if sa_family sa = af_inet then is_zero (in4_field (the (in4_cast sa)))
      else if sa_family sa = af_inet6 then is_zero (in6_field (the (in6_cast sa)))
      else False)"

definition sa_to_string :: "(nat \<Rightarrow> byte list \<Rightarrow> string option) \<Rightarrow> sockaddr \<Rightarrow> string res" where
  "sa_to_string ntop sa =
     (let to_port = sa_port sa in
      if sa_family sa = af_unspec then Inr ''*''
      else
        let buf = (if sa_family sa = af_inet then ntop af_inet (in4_field sa)
                   else if sa_family sa = af_inet6 then ntop af_inet6 (in6_field sa)
                   else None) in
        case buf of
          None \<Rightarrow> Inl (Error ''unknown or invalid address'')
        | Some t \<Rightarrow>
            if to_port \<noteq> 0 \<and> sa_family sa = af_inet6
            then Inr (''['' @ t @ '']:'' @ to_decimal (unat to_port))
            else if to_port \<noteq> 0 \<and> sa_family sa = af_inet
            then Inr (t @ '':'' @ to_decimal (unat to_port))
            else Inr t)"

section \<open>Sockets\<close>

text \<open>What \<open>release\<close> asks of the operating system.\<close>

datatype so_call = Shutdown int | Close_socket int

definition so_release :: "int \<Rightarrow> so_call list" where
  "so_release so = [Shutdown so, Close_socket so]"

text \<open>A \<open>setsockopt\<close> call: socket, level, option, and the bytes of the option value.\<close>

type_synonym sockopt = "int \<times> int \<times> int \<times> byte list"

definition mreq4 :: "byte list \<Rightarrow> byte list" where
  "mreq4 grp = grp @ replicate 4 0"

definition mreq6 :: "byte list \<Rightarrow> 32 word \<Rightarrow> byte list" where
  "mreq6 grp ifindex = grp @ map (\<lambda>k. ucast (drop_bit (8 * k) ifindex)) [0..<4]"

text \<open>
  \<open>join\<close> and \<open>drop\<close> with the \<open>setsockopt\<close> of the system, which gives its result and
  \<open>errno\<close>; \<open>EBADF\<close> is 9, \<open>EAI_FAMILY\<close> is -6. The value is what they return and the calls made.
\<close>

definition so_join :: "(sockopt \<Rightarrow> int \<times> int) \<Rightarrow> int \<Rightarrow> sockaddr \<Rightarrow> 32 word \<Rightarrow> int \<times> sockopt list" where
  "so_join setsockopt so grp_addr ifindex =
     (if so < 0 then (9, [])
      else if sa_family grp_addr = af_inet then
        (let c = (so, 0, 35, mreq4 (in4_field grp_addr)) in
         (if fst (setsockopt c) = -1 then snd (setsockopt c) else 0, [c]))
      else if sa_family grp_addr = af_inet6 then
        (let c = (so, 41, 20, mreq6 (in6_field grp_addr) ifindex) in
         (if fst (setsockopt c) = -1 then snd (setsockopt c) else 0, [c]))
      else (-6, []))"

definition so_drop :: "(sockopt \<Rightarrow> int \<times> int) \<Rightarrow> int \<Rightarrow> sockaddr \<Rightarrow> 32 word \<Rightarrow> int \<times> sockopt list" where
  "so_drop setsockopt so grp_addr ifindex =
     (if so < 0 then (9, [])
      else if sa_family grp_addr = af_inet then
        (let c = (so, 0, 36, mreq4 (in4_field grp_addr)) in
         (if fst (setsockopt c) = -1 then snd (setsockopt c) else 0, [c]))
      else if sa_family grp_addr = af_inet6 then
        (let c = (so, 41, 21, mreq6 (in6_field grp_addr) ifindex) in
         (if fst (setsockopt c) = -1 then snd (setsockopt c) else 0, [c]))
      else (-6, []))"

text \<open>\<open>make_socket\<close>: a handle whose close function, number 1, is \<open>socket::release\<close>.\<close>

definition make_socket :: "(int \<Rightarrow> int \<Rightarrow> int \<Rightarrow> int) \<Rightarrow> int \<Rightarrow> int \<Rightarrow> int \<Rightarrow> handle" where
  "make_socket os_socket fam typ protocol = handle_of (os_socket fam typ protocol) 1"

section \<open>address\<close>

type_synonym address = sockaddr

definition addr_new :: address where
  "addr_new = replicate 128 0"

text \<open>
  Access to the storage. A pointer to a \<open>sockaddr_storage\<close> or to the \<open>sockaddr\<close> at its start is the
  bytes that can be reached through it, so the casts between them change nothing.
\<close>

definition maxlen :: nat where
  "maxlen = 128"

definition to_storage :: "sockaddr \<Rightarrow> byte list" where
  "to_storage addr = addr"

definition to_sockaddr :: "byte list \<Rightarrow> sockaddr" where
  "to_sockaddr addr = addr"

definition addr_as_sockaddr :: "address \<Rightarrow> sockaddr" where
  "addr_as_sockaddr a = to_sockaddr a"

definition addr_deref :: "address \<Rightarrow> sockaddr" where
  "addr_deref a = to_sockaddr a"

definition addr_c_sockaddr :: "address \<Rightarrow> sockaddr" where
  "addr_c_sockaddr a = a"

definition addr_data :: "address \<Rightarrow> sockaddr" where
  "addr_data a = a"

definition addr_max :: "address \<Rightarrow> nat" where
  "addr_max a = length a"

lemma addr_access:
  "addr_as_sockaddr a = a" "addr_deref a = a" "addr_c_sockaddr a = a" "addr_data a = a" "addr_max addr_new = maxlen"
  by (simp_all add: addr_as_sockaddr_def addr_deref_def addr_c_sockaddr_def addr_data_def to_sockaddr_def addr_max_def
      addr_new_def maxlen_def)

definition addr_of_storage :: "byte list \<Rightarrow> address res" where
  "addr_of_storage src = memcpy 128 src addr_new"

definition addr_assign :: "sockaddr option \<Rightarrow> address \<Rightarrow> address res" where
  "addr_assign src a =
     (case src of
        None \<Rightarrow> Inr (replicate (length a) 0)
      | Some sa \<Rightarrow>
          let len = (if sa_family sa = af_inet then 16 else if sa_family sa = af_inet6 then 28
                     else if sa_family sa = af_unix then 110 else 0) in
          if len \<noteq> 0 \<and> len \<le> length a then memcpy len sa a else Inr a)"

definition addr_of_sockaddr :: "sockaddr option \<Rightarrow> address res" where
  "addr_of_sockaddr src = addr_assign src addr_new"

text \<open>An \<open>addrinfo\<close>, of which the address and its length matter.\<close>

record addrinfo =
  ai_addr :: "sockaddr option"
  ai_addrlen :: nat

definition addr_set_sockaddr :: "sockaddr option \<Rightarrow> address \<Rightarrow> address res" where
  "addr_set_sockaddr from a = addr_assign from a"

definition addr_set_info :: "addrinfo option \<Rightarrow> address \<Rightarrow> address res" where
  "addr_set_info src a =
     (case src of
        None \<Rightarrow> Inr a
      | Some ai \<Rightarrow> (case ai_addr ai of
          None \<Rightarrow> Inr a
        | Some sa \<Rightarrow> if ai_addrlen ai \<noteq> 0 then memcpy (ai_addrlen ai) sa a else Inr a))"

definition addr_of_info :: "addrinfo option \<Rightarrow> address res" where
  "addr_of_info src = addr_set_info src addr_new"

definition addr_copy :: "address \<Rightarrow> address \<Rightarrow> address" where
  "addr_copy other a = other"

definition addr_family :: "address \<Rightarrow> nat" where
  "addr_family a = sa_family a"

definition addr_port :: "address \<Rightarrow> 16 word" where
  "addr_port a = sa_port a"

definition addr_valid :: "address \<Rightarrow> bool" where
  "addr_valid a =
     (if addr_family a = af_unspec then False
      else if (addr_family a = af_inet \<or> addr_family a = af_inet6) \<and> addr_port a = 0 then False
      else True)"

definition addr_bool :: "address \<Rightarrow> bool" where
  "addr_bool a = addr_valid a"

definition addr_not :: "address \<Rightarrow> bool" where
  "addr_not a = (\<not> addr_valid a)"

definition addr_set_port :: "16 word \<Rightarrow> address \<Rightarrow> address res" where
  "addr_set_port value a =
     (if sa_family a = af_inet then Inr (set_port_field value a)
      else if sa_family a = af_inet6 then Inr (set_port_field value a)
      else Inl (Error ''unknown address type''))"

definition addr_port_if :: "16 word \<Rightarrow> address \<Rightarrow> address res" where
  "addr_port_if value a = (if addr_port a = 0 then addr_set_port value a else Inr a)"

definition addr_size :: "address \<Rightarrow> nat" where
  "addr_size a = addrlen a"

definition addr_is_any :: "address \<Rightarrow> bool" where
  "addr_is_any a = sa_is_any a"

definition addr_to_string :: "(nat \<Rightarrow> byte list \<Rightarrow> string option) \<Rightarrow> address \<Rightarrow> string res" where
  "addr_to_string ntop a = sa_to_string ntop a"

definition addr_string :: "(nat \<Rightarrow> byte list \<Rightarrow> string option) \<Rightarrow> address \<Rightarrow> string res" where
  "addr_string ntop a = addr_to_string ntop a"

definition addr_family_if :: "nat \<Rightarrow> address \<Rightarrow> address" where
  "addr_family_if changed a = (if addr_family a = af_unspec then set_family changed a else a)"

definition addr_eq :: "address \<Rightarrow> address \<Rightarrow> bool" where
  "addr_eq a other =
     (let len = addr_size a in
      if len \<noteq> addr_size other then False else take len a = take len other)"

definition addr_ne :: "address \<Rightarrow> address \<Rightarrow> bool" where
  "addr_ne a other =
     (let len = addr_size a in
      if len \<noteq> addr_size other then False else take len a \<noteq> take len other)"

text \<open>The hash of an address, with the hash of the library's string views.\<close>

definition addr_hash :: "(byte list \<Rightarrow> nat) \<Rightarrow> address \<Rightarrow> nat" where
  "addr_hash h a = h (take (addr_size a) a)"

definition c_str :: "string \<Rightarrow> string" where
  "c_str s = takeWhile (\<lambda>c. c \<noteq> CHR 0x00) s"

definition addr_from_string :: "(nat \<Rightarrow> string \<Rightarrow> byte list option) \<Rightarrow> string \<Rightarrow> 16 word \<Rightarrow> address res" where
  "addr_from_string pton s port =
     (if s = ''*'' then addr_set_port port (set_family af_inet addr_new)
      else if s = ''[*]'' then addr_set_port port (set_family af_inet6 addr_new)
      else if CHR '':'' \<in> set s then
        (case pton af_inet6 (c_str s) of
           Some bs \<Rightarrow> Inr (set_port_field port (set_family af_inet6 (put_bytes 8 bs addr_new)))
         | None \<Rightarrow> Inl (Error (''invalid address format: '' @ s)))
      else
        (case pton af_inet (c_str s) of
           Some bs \<Rightarrow> Inr (set_port_field port (set_family af_inet (put_bytes 4 bs addr_new)))
         | None \<Rightarrow> Inl (Error (''invalid address format: '' @ s))))"

section \<open>Fields\<close>

lemma family_size_simps [simp]:
  "family_size 2 = 16" "family_size 10 = 28" "family_size 1 = 110" "family_size 0 = 0"
  by (simp_all add: family_size_def)

lemma byte_of_nat_mod: "unat (word_of_nat n :: byte) = n mod 256"
  by (simp add: unat_of_nat)

lemma length_set_port_field [simp]: "length (set_port_field p sa) = length sa"
  by (simp add: set_port_field_def)

lemma length_set_family [simp]: "length (set_family f sa) = length sa"
  by (simp add: set_family_def)

lemma two_bytes:
  "n < 65536 \<Longrightarrow> 256 * unat (word_of_nat (n div 256) :: byte) + unat (word_of_nat n :: byte) = n"
proof -
  assume "n < 65536"
  then have "n div 256 < 256" by simp
  then show ?thesis unfolding byte_of_nat_mod by (simp add: mult.commute)
qed

lemma port_field_set: "4 \<le> length sa \<Longrightarrow> port_field (set_port_field p sa) = p"
proof -
  assume len: "4 \<le> length sa"
  have "unat p < 65536" using unsigned_less [of p] by simp
  from two_bytes [OF this] show ?thesis
    using len by (simp only: port_field_def set_port_field_def nth_list_update length_list_update) simp
qed

lemma family_set_port: "sa_family (set_port_field p sa) = sa_family sa"
  by (simp add: sa_family_def set_port_field_def)

lemma family_set: "2 \<le> length sa \<Longrightarrow> f < 65536 \<Longrightarrow> sa_family (set_family f sa) = f"
proof -
  assume "2 \<le> length sa" and f: "f < 65536"
  then have "0 < length sa" "1 < length sa" by linarith+
  then show ?thesis using two_bytes [OF f] by (simp add: sa_family_def set_family_def)
qed

lemma sa_port_ip:
  "sa_family sa = 2 \<or> sa_family sa = 10 \<Longrightarrow> sa_port sa = port_field sa"
  by (auto simp: sa_port_def in4_cast_def in6_cast_def)

lemma drop_set_port: "4 \<le> n \<Longrightarrow> drop n (set_port_field p sa) = drop n sa"
  by (simp add: set_port_field_def)

lemma take_set_port: "take 2 (set_port_field p sa) = take 2 sa"
  by (simp add: set_port_field_def)

lemma drop_set_family: "2 \<le> n \<Longrightarrow> drop n (set_family f sa) = drop n sa"
  by (simp add: set_family_def)

lemma length_put_bytes: "off + length bs \<le> length sa \<Longrightarrow> length (put_bytes off bs sa) = length sa"
  by (simp add: put_bytes_def)

lemma is_zero_iff: "is_zero bs \<longleftrightarrow> bs = replicate (length bs) 0"
  by (induction bs) auto

text \<open>
  A port set on an IPv4 or IPv6 address is the port that is read back; the family, the
  host and every other byte stay; \<open>port_if\<close> changes an address without port only; addresses
  of other families are refused with an error.
\<close>

theorem address_ports:
  assumes "length a = 128"
  shows "addr_set_port p a =
      (if addr_family a = 2 \<or> addr_family a = 10 then Inr (set_port_field p a) else Inl (Error ''unknown address type''))
    \<and> addr_port_if p a = (if addr_port a = 0 then addr_set_port p a else Inr a)
    \<and> (returns (addr_set_port p a) \<longrightarrow>
        addr_port (set_port_field p a) = p \<and> addr_family (set_port_field p a) = addr_family a
        \<and> addr_is_any (set_port_field p a) = addr_is_any a
        \<and> take 2 (set_port_field p a) = take 2 a \<and> drop 4 (set_port_field p a) = drop 4 a)"
proof -
  have "port_field (set_port_field p a) = p" by (rule port_field_set) (simp add: assms)
  then show ?thesis
    by (auto simp: addr_set_port_def addr_port_if_def addr_family_def addr_port_def sa_port_ip family_set_port
        addr_is_any_def sa_is_any_def in4_cast_def in6_cast_def in4_field_def in6_field_def drop_set_port take_set_port)
qed

lemma address_ports_witness:
  "addr_port (set_port_field 5060 (set_family 10 addr_new)) = 5060"
  using address_ports [of "set_family 10 addr_new" 5060]
  by (simp add: addr_new_def addr_family_def family_set addr_set_port_def)

lemma set_port_ip:
  "length a = 128 \<Longrightarrow> addr_family a = 2 \<or> addr_family a = 10 \<Longrightarrow>
     addr_set_port p a = Inr (set_port_field p a) \<and> length (set_port_field p a) = 128
     \<and> addr_family (set_port_field p a) = addr_family a \<and> addr_port (set_port_field p a) = p"
  by (auto simp: addr_set_port_def addr_family_def addr_port_def family_set_port sa_port_ip port_field_set)

section \<open>Comparison\<close>

lemma addr_eq_iff: "addr_eq a b \<longleftrightarrow> addr_size a = addr_size b \<and> take (addr_size a) a = take (addr_size b) b"
  by (simp add: addr_eq_def Let_def)

text \<open>
  C32: \<open>operator==\<close> is an equivalence, equal addresses have equal hashes, and equal IP addresses
  have the same family, port and host; but \<open>operator!=\<close> is its negation only between addresses
  of one size: an IPv4 and an IPv6 address are neither equal nor unequal.
\<close>

theorem address_equality:
  "addr_eq a a \<and> (addr_eq a b \<longleftrightarrow> addr_eq b a) \<and> (addr_eq a b \<and> addr_eq b c \<longrightarrow> addr_eq a c)
   \<and> (addr_eq a b \<longrightarrow> addr_hash h a = addr_hash h b)
   \<and> (addr_ne a b \<longleftrightarrow> \<not> addr_eq a b \<and> addr_size a = addr_size b)"
  by (auto simp: addr_eq_iff addr_ne_def addr_hash_def Let_def)

lemma address_equality_witness:
  "\<not> addr_eq (set_family 2 addr_new) (set_family 10 addr_new) \<and> \<not> addr_ne (set_family 2 addr_new) (set_family 10 addr_new)"
proof -
  have "addr_size (set_family 2 addr_new) \<noteq> addr_size (set_family 10 addr_new)"
    by (simp add: addr_size_def addrlen_def family_set addr_new_def)
  then show ?thesis
    using address_equality [of "set_family 2 addr_new" "set_family 10 addr_new"] by (auto simp: addr_eq_iff)
qed

lemma nth_take_eq: "take n a = take n b \<Longrightarrow> i < n \<Longrightarrow> a ! i = b ! i"
  by (metis nth_take)

lemma equal_addresses_agree:
  assumes "addr_eq a b" and "addr_family a = 2 \<or> addr_family a = 10"
  shows "addr_family b = addr_family a \<and> addr_port b = addr_port a
    \<and> (addr_family a = 2 \<longrightarrow> in4_field b = in4_field a) \<and> (addr_family a = 10 \<longrightarrow> in6_field b = in6_field a)"
proof -
  have n: "16 \<le> addr_size a" "addr_family a = 10 \<longrightarrow> 28 \<le> addr_size a"
    using assms(2) by (auto simp: addr_size_def addrlen_def addr_family_def)
  have t: "take (addr_size a) a = take (addr_size a) b" using assms(1) by (auto simp: addr_eq_iff)
  have t16: "take 16 a = take 16 b"
    using arg_cong [OF t, of "take 16"] n(1) by (simp add: min_def)
  have fam: "sa_family b = sa_family a"
    using nth_take_eq [OF t16, of 0] nth_take_eq [OF t16, of 1] by (simp add: sa_family_def)
  have port: "port_field b = port_field a"
    using nth_take_eq [OF t16, of 2] nth_take_eq [OF t16, of 3] by (simp add: port_field_def)
  have in4: "in4_field b = in4_field a"
    using arg_cong [OF t16, of "\<lambda>x. take 4 (drop 4 x)"] by (simp add: in4_field_def drop_take min_def)
  have in6: "in6_field b = in6_field a" if "addr_family a = 10"
  proof -
    have "take 28 a = take 28 b" using arg_cong [OF t, of "take 28"] n(2) that by (simp add: min_def)
    from arg_cong [OF this, of "\<lambda>x. take 16 (drop 8 x)"] show ?thesis
      by (simp add: in6_field_def drop_take min_def)
  qed
  have "addr_port b = addr_port a"
    using fam port assms(2) by (simp add: addr_port_def sa_port_ip addr_family_def)
  then show ?thesis using fam in4 in6 by (simp add: addr_family_def)
qed

section \<open>Assignment\<close>

lemma memcpy_ok: "n \<le> length src \<Longrightarrow> n \<le> length dst \<Longrightarrow> memcpy n src dst = Inr (take n src @ drop n dst)"
  by (simp add: memcpy_def)

lemma address_assign_known:
  assumes "length a = 128" and "addrlen sa \<le> length sa" and "2 \<le> length sa" and "addrlen sa \<noteq> 0"
  shows "\<exists>b. addr_assign (Some sa) a = Inr b \<and> length b = 128 \<and> addr_family b = sa_family sa
        \<and> addr_size b = addrlen sa \<and> take (addr_size b) b = take (addrlen sa) sa"
proof -
  let ?b = "take (addrlen sa) sa @ drop (addrlen sa) a"
  have n: "2 \<le> addrlen sa" "addrlen sa \<le> 128"
    using assms(4) by (auto simp: addrlen_def family_size_def split: if_splits)
  have fam: "sa_family ?b = sa_family sa"
    using n assms(2) by (simp add: sa_family_def nth_append)
  have "addr_assign (Some sa) a = Inr ?b"
    using assms n by (simp add: addr_assign_def addrlen_def family_size_def memcpy_ok split: if_splits)
  moreover have "addr_size ?b = addrlen sa" using fam by (simp add: addr_size_def addrlen_def)
  ultimately show ?thesis using assms n fam by (auto simp: addr_family_def min_def)
qed

text \<open>
  Assigning a socket address of a known family, given in full, makes an address equal to
  it, and a null pointer clears; an address of any other family is ignored, so that the
  target keeps its old value without an error.
\<close>

theorem address_assign:
  assumes "length a = 128" and "addrlen sa \<le> length sa" and "2 \<le> length sa"
  shows "(addrlen sa \<noteq> 0 \<longrightarrow> (\<exists>b. addr_assign (Some sa) a = Inr b \<and> length b = 128 \<and> addr_family b = sa_family sa
        \<and> addr_size b = addrlen sa \<and> take (addr_size b) b = take (addrlen sa) sa))
    \<and> (addrlen sa = 0 \<longrightarrow> addr_assign (Some sa) a = Inr a)
    \<and> addr_assign None a = Inr addr_new"
proof (cases "addrlen sa = 0")
  case True
  then show ?thesis
    by (auto simp: addr_assign_def addr_new_def addrlen_def family_size_def assms(1) split: if_splits)
next
  case False
  then show ?thesis
    using address_assign_known [OF assms] by (simp add: addr_assign_def addr_new_def assms(1))
qed

lemma address_assign_witness:
  "addr_assign (Some (set_family 16 addr_new)) (set_family 2 addr_new) = Inr (set_family 2 addr_new)"
  using address_assign [of "set_family 2 addr_new" "set_family 16 addr_new"]
  by (simp add: addr_new_def addrlen_def family_set family_size_def)

section \<open>Text forms\<close>

definition pton_sizes :: "(nat \<Rightarrow> string \<Rightarrow> byte list option) \<Rightarrow> bool" where
  "pton_sizes pton = (\<forall>s bs. (pton 2 s = Some bs \<longrightarrow> length bs = 4) \<and> (pton 10 s = Some bs \<longrightarrow> length bs = 16))"

lemma length_addr_new [simp]: "length addr_new = 128"
  by (simp add: addr_new_def)

definition made_address :: "nat \<Rightarrow> nat \<Rightarrow> byte list \<Rightarrow> 16 word \<Rightarrow> address" where
  "made_address f off bs port = set_port_field port (set_family f (put_bytes off bs addr_new))"

lemma made_address_fields:
  assumes "f < 65536" and "4 \<le> off" and "off + length bs \<le> 128"
  shows "length (made_address f off bs port) = 128" and "sa_family (made_address f off bs port) = f"
    and "port_field (made_address f off bs port) = port"
    and "take (length bs) (drop off (made_address f off bs port)) = bs"
proof -
  have len: "length (put_bytes off bs addr_new) = 128" using assms by (simp add: length_put_bytes)
  show "length (made_address f off bs port) = 128" by (simp add: made_address_def len)
  show "sa_family (made_address f off bs port) = f"
    using assms by (simp add: made_address_def family_set_port family_set len)
  show "port_field (made_address f off bs port) = port"
    by (simp add: made_address_def port_field_set len)
  show "take (length bs) (drop off (made_address f off bs port)) = bs"
    using assms by (simp add: made_address_def drop_set_port drop_set_family put_bytes_def)
qed

lemma in4_made: "length bs = 4 \<Longrightarrow> in4_field (made_address 2 4 bs port) = bs"
  using made_address_fields(4) [of 2 4 bs port] by (simp add: in4_field_def)

lemma any_address_fields:
  assumes "f = 2 \<or> f = 10"
  shows "addr_set_port port (set_family f addr_new) = Inr (made_address f 4 (replicate 20 0) port)"
proof -
  have "put_bytes 4 (replicate 20 0) addr_new = addr_new"
    by (simp add: put_bytes_def addr_new_def flip: replicate_add)
  then show ?thesis
    using assms by (auto simp: addr_set_port_def family_set made_address_def)
qed

lemma any_address_zero: "take 4 (drop 4 (made_address f 4 (replicate 20 0) port)) = replicate 4 0"
    "take 16 (drop 8 (made_address f 4 (replicate 20 0) port)) = replicate 16 0"
  by (simp_all add: made_address_def drop_set_port drop_set_family put_bytes_def addr_new_def drop_replicate)

lemma from_string_cases:
  assumes "pton_sizes pton"
  shows "(case addr_from_string pton s port of
      Inl e \<Rightarrow> e = Error (''invalid address format: '' @ s) \<and> s \<noteq> ''*'' \<and> s \<noteq> ''[*]''
        \<and> pton (if CHR '':'' \<in> set s then 10 else 2) (c_str s) = None
    | Inr a \<Rightarrow> length a = 128 \<and> addr_port a = port
        \<and> (if s = ''*'' then addr_family a = 2 \<and> addr_is_any a
           else if s = ''[*]'' then addr_family a = 10 \<and> addr_is_any a
           else if CHR '':'' \<in> set s then addr_family a = 10 \<and> pton 10 (c_str s) = Some (in6_field a)
           else addr_family a = 2 \<and> pton 2 (c_str s) = Some (in4_field a)))"
proof -
  note any = made_address_fields [of _ 4 "replicate 20 0" port]
  consider (star) "s = ''*''" | (star6) "s = ''[*]''"
    | (six) "s \<noteq> ''*''" "s \<noteq> ''[*]''" "CHR '':'' \<in> set s"
    | (four) "s \<noteq> ''*''" "s \<noteq> ''[*]''" "CHR '':'' \<notin> set s" by blast
  then show ?thesis
  proof cases
    case star
    then show ?thesis
      using any [of 2] any_address_zero [of 2 port]
      by (simp add: addr_from_string_def any_address_fields addr_port_def sa_port_ip addr_family_def
          addr_is_any_def sa_is_any_def in4_cast_def in4_field_def is_zero_iff)
  next
    case star6
    then show ?thesis
      using any [of 10] any_address_zero [of 10 port]
      by (simp add: addr_from_string_def any_address_fields addr_port_def sa_port_ip addr_family_def
          addr_is_any_def sa_is_any_def in6_cast_def in6_field_def is_zero_iff)
  next
    case six
    show ?thesis
    proof (cases "pton 10 (c_str s)")
      case (Some bs)
      then have "length bs = 16" using assms by (simp add: pton_sizes_def)
      then show ?thesis
        using six Some made_address_fields [of 10 8 bs port]
        by (simp add: addr_from_string_def made_address_def [symmetric] addr_port_def sa_port_ip addr_family_def in6_field_def)
    qed (use six in \<open>simp add: addr_from_string_def\<close>)
  next
    case four
    show ?thesis
    proof (cases "pton 2 (c_str s)")
      case (Some bs)
      then have "length bs = 4" using assms by (simp add: pton_sizes_def)
      then show ?thesis
        using four Some made_address_fields [of 2 4 bs port]
        by (simp add: addr_from_string_def made_address_def [symmetric] addr_port_def sa_port_ip addr_family_def in4_field_def)
    qed (use four in \<open>simp add: addr_from_string_def\<close>)
  qed
qed

text \<open>
  C30: \<open>from_string\<close> on every text, for an \<open>inet_pton\<close> that gives 4 and 16 bytes: the two
  wildcards give the unspecified IPv4 and IPv6 address; a text with a colon is parsed as IPv6,
  any other as IPv4; the address has the given port and the parsed host, and what
  \<open>inet_pton\<close> refuses is an error that names the text.
\<close>

theorem address_from_string:
  assumes "pton_sizes pton"
  shows "(case addr_from_string pton s port of
      Inl e \<Rightarrow> e = Error (''invalid address format: '' @ s) \<and> s \<noteq> ''*'' \<and> s \<noteq> ''[*]''
        \<and> pton (if CHR '':'' \<in> set s then 10 else 2) (c_str s) = None
    | Inr a \<Rightarrow> length a = 128 \<and> addr_port a = port
        \<and> (if s = ''*'' then addr_family a = 2 \<and> addr_is_any a
           else if s = ''[*]'' then addr_family a = 10 \<and> addr_is_any a
           else if CHR '':'' \<in> set s then addr_family a = 10 \<and> pton 10 (c_str s) = Some (in6_field a)
           else addr_family a = 2 \<and> pton 2 (c_str s) = Some (in4_field a)))"
  by (rule from_string_cases [OF assms])

text \<open>A concrete pair of the two library functions for the witnesses: one address of each kind.\<close>

definition ntop_sample :: "nat \<Rightarrow> byte list \<Rightarrow> string option" where
  "ntop_sample f bs = (if f = 2 \<and> bs = [127, 0, 0, 1] then Some ''127.0.0.1''
     else if f = 10 \<and> bs = replicate 15 0 @ [1] then Some ''::1'' else None)"

definition pton_sample :: "nat \<Rightarrow> string \<Rightarrow> byte list option" where
  "pton_sample f s = (if f = 2 \<and> s = ''127.0.0.1'' then Some [127, 0, 0, 1]
     else if f = 10 \<and> s = ''::1'' then Some (replicate 15 0 @ [1]) else None)"

lemma pton_sample_sizes: "pton_sizes pton_sample"
  by (simp add: pton_sizes_def pton_sample_def)

lemma address_from_string_witness:
  "addr_from_string pton_sample ''localhost'' 80 = Inl (Error ''invalid address format: localhost'')"
proof -
  have "pton_sample 2 (c_str ''localhost'') = None"
    by (simp add: pton_sample_def c_str_def)
  then show ?thesis
    using address_from_string [OF pton_sample_sizes, of "''localhost''" 80]
    by (cases "addr_from_string pton_sample ''localhost'' 80") simp_all
qed

text \<open>What the documentation of the two functions says: texts of addresses are parsed back.\<close>

definition text_inverse :: "(nat \<Rightarrow> byte list \<Rightarrow> string option) \<Rightarrow> (nat \<Rightarrow> string \<Rightarrow> byte list option) \<Rightarrow> bool" where
  "text_inverse ntop pton = (\<forall>f bs t. ntop f bs = Some t \<longrightarrow> pton f t = Some bs \<and> CHR 0x00 \<notin> set t
     \<and> t \<noteq> ''*'' \<and> t \<noteq> ''[*]'' \<and> (CHR '':'' \<in> set t \<longleftrightarrow> f = 10))"

lemma c_str_id: "CHR 0x00 \<notin> set t \<Longrightarrow> c_str t = t"
  by (auto simp: c_str_def takeWhile_eq_all_conv)

text \<open>
  C31: the text of an IP address without a port is parsed back by \<open>from_string\<close> to the same
  family and host; with a port the text of an IPv4 address is handed to the IPv6 parser, so
  that it is refused.
\<close>

theorem address_text_round_trip:
  assumes "pton_sizes pton" and "text_inverse ntop pton"
    and "addr_family a = 2 \<or> addr_family a = 10" and "addr_to_string ntop a = Inr t"
  shows "(addr_port a = 0 \<longrightarrow> (\<exists>b. addr_from_string pton t 0 = Inr b \<and> addr_family b = addr_family a \<and> addr_port b = 0
        \<and> (addr_family a = 2 \<longrightarrow> in4_field b = in4_field a) \<and> (addr_family a = 10 \<longrightarrow> in6_field b = in6_field a)))
    \<and> (addr_port a \<noteq> 0 \<and> addr_family a = 2 \<and> pton 10 (c_str t) = None \<longrightarrow>
        addr_from_string pton t p = Inl (Error (''invalid address format: '' @ t)))"
proof (intro conjI impI)
  assume "addr_port a = 0"
  then have ntop: "ntop (addr_family a) (if addr_family a = 2 then in4_field a else in6_field a) = Some t"
    using assms(3,4) by (auto simp: addr_to_string_def sa_to_string_def addr_family_def addr_port_def Let_def split: option.splits)
  then have inv: "pton (addr_family a) t = Some (if addr_family a = 2 then in4_field a else in6_field a)"
      "CHR 0x00 \<notin> set t" "t \<noteq> ''*''" "t \<noteq> ''[*]''" "CHR '':'' \<in> set t \<longleftrightarrow> addr_family a = 10"
    using assms(2) unfolding text_inverse_def by blast+
  then obtain b where "addr_from_string pton t 0 = Inr b"
    using assms(3) by (auto simp: addr_from_string_def c_str_id)
  then show "\<exists>b. addr_from_string pton t 0 = Inr b \<and> addr_family b = addr_family a \<and> addr_port b = 0
        \<and> (addr_family a = 2 \<longrightarrow> in4_field b = in4_field a) \<and> (addr_family a = 10 \<longrightarrow> in6_field b = in6_field a)"
    using from_string_cases [OF assms(1), of t 0] inv assms(3) by (auto simp: c_str_id)
next
  assume p: "addr_port a \<noteq> 0 \<and> addr_family a = 2 \<and> pton 10 (c_str t) = None"
  then obtain h where "t = h @ '':'' @ to_decimal (unat (addr_port a))"
    using assms(4) by (auto simp: addr_to_string_def sa_to_string_def addr_family_def addr_port_def Let_def split: option.splits)
  then have "CHR '':'' \<in> set t" "t \<noteq> ''*''" "t \<noteq> ''[*]''" by (auto simp: append_eq_Cons_conv)
  then show "addr_from_string pton t p = Inl (Error (''invalid address format: '' @ t))"
    using p by (simp add: addr_from_string_def)
qed

lemma sample_inverse: "text_inverse ntop_sample pton_sample"
  by (auto simp: text_inverse_def ntop_sample_def pton_sample_def split: if_splits)

lemma address_text_round_trip_witness:
  "\<exists>b. addr_from_string pton_sample ''127.0.0.1'' 0 = Inr b \<and> in4_field b = [127, 0, 0, 1]"
proof -
  let ?a = "made_address 2 4 [127, 0, 0, 1] 0"
  note fields = made_address_fields [of 2 4 "[127, 0, 0, 1]" 0]
  have "in4_field ?a = [127, 0, 0, 1]" by (rule in4_made) simp
  then have f: "addr_family ?a = 2" "in4_field ?a = [127, 0, 0, 1]" "addr_port ?a = 0"
    using fields(2,3) by (simp_all add: addr_family_def addr_port_def sa_port_ip)
  then have "addr_to_string ntop_sample ?a = Inr ''127.0.0.1''"
    by (simp add: addr_to_string_def sa_to_string_def Let_def ntop_sample_def addr_family_def addr_port_def)
  from address_text_round_trip [OF pton_sample_sizes sample_inverse _ this] f show ?thesis by auto
qed

section \<open>Multicast groups\<close>

text \<open>The option value with which a group is joined or left.\<close>

definition group_value :: "sockaddr \<Rightarrow> 32 word \<Rightarrow> byte list" where
  "group_value grp_addr ifindex =
     (if sa_family grp_addr = af_inet then mreq4 (in4_field grp_addr) else mreq6 (in6_field grp_addr) ifindex)"

text \<open>
  \<open>drop\<close> leaves exactly what \<open>join\<close> joined: both make at most one call, with the same
  socket, protocol level and value, whose bytes are the group and the interface (index, or any
  for IPv4), and both answer \<open>EBADF\<close> without a socket, \<open>EAI_FAMILY\<close> for other families, and
  otherwise 0 or the error of the call.
\<close>

theorem drop_leaves_what_join_joined:
  "map (\<lambda>(s, level, opt, v). (s, level, v)) (snd (so_join setsockopt so a ifindex))
     = map (\<lambda>(s, level, opt, v). (s, level, v)) (snd (so_drop setsockopt so a ifindex))
   \<and> list_all2 (\<lambda>(s, level, opt, v) (s', level', opt', v'). opt \<noteq> opt')
       (snd (so_join setsockopt so a ifindex)) (snd (so_drop setsockopt so a ifindex))
   \<and> map (\<lambda>(s, level, opt, v). v) (snd (so_join setsockopt so a ifindex))
     = (if so \<ge> 0 \<and> (sa_family a = 2 \<or> sa_family a = 10) then [group_value a ifindex] else [])
   \<and> fst (so_join setsockopt so a ifindex) =
      (if so < 0 then 9
       else case snd (so_join setsockopt so a ifindex) of
         [] \<Rightarrow> -6 | c # _ \<Rightarrow> if fst (setsockopt c) = -1 then snd (setsockopt c) else 0)"
  by (simp add: so_join_def so_drop_def group_value_def Let_def)

end
