(* ===== verification/Networks.thy ===== *)
theory Networks
  imports Sockets
begin

text \<open>
  \<open>src/networks.hpp\<close>: the list of network interfaces that \<open>getifaddrs\<close> gives, the two
  searches in it, and the choice of an address to bind to. The linked list is the list of
  its entries; \<open>if_nametoindex\<close> and \<open>inet_pton\<close> are parameters.
\<close>

record iface =
  ifa_name :: "string option"
  ifa_flags :: "32 word"
  ifa_addr :: "sockaddr option"
  ifa_netmask :: "sockaddr option"

definition iff_multicast :: "32 word" where
  "iff_multicast = 0x1000"

section \<open>Ownership of the list\<close>

text \<open>The pointer \<open>list_\<close>; the operations return the lists they free.\<close>

definition nw_release :: "nat option \<Rightarrow> nat option \<times> nat list" where
  "nw_release p = (case p of None \<Rightarrow> (None, []) | Some l \<Rightarrow> (None, [l]))"

text \<open>The first constructor asks \<open>getifaddrs\<close>, which leaves the pointer null when it fails.\<close>

definition nw_new :: "nat option \<Rightarrow> nat option" where
  "nw_new getifaddrs = getifaddrs"

definition nw_of :: "nat option \<Rightarrow> nat option" where
  "nw_of list = list"

definition nw_destroy :: "nat option \<Rightarrow> nat list" where
  "nw_destroy p = snd (nw_release p)"

definition nw_move :: "nat option \<Rightarrow> nat option \<times> nat option" where
  "nw_move from = (from, None)"

definition nw_assign :: "nat option \<Rightarrow> nat option \<Rightarrow> nat option \<times> nat option \<times> nat list" where
  "nw_assign p from = (if p = from then (p, from, []) else (from, None, snd (nw_release p)))"

definition nw_set :: "nat option \<Rightarrow> nat option \<Rightarrow> nat option \<times> nat list" where
  "nw_set p addr = (if p \<noteq> addr then (addr, snd (nw_release p)) else (p, []))"

text \<open>Objects own different lists, so an assignment hands over the list and frees the old one.\<close>

lemma nw_assign_frees:
  "p = None \<or> p \<noteq> from \<Longrightarrow> nw_assign p from = (from, None, duty_list p) \<and> nw_move from = (from, None)"
  by (cases p) (auto simp: nw_assign_def nw_move_def nw_release_def)

text \<open>
  An assignment between two objects of the same list does nothing, so the class has only the
  weaker contract of an owner.
\<close>

definition nw_ops :: "(nat option, nat, nat option) scope_ops" where
  "nw_ops = \<lparr>so_takes = id, so_make = nw_of, so_move = nw_move, so_assign = nw_assign, so_finish = nw_destroy\<rparr>"

lemmas nw_defs = nw_ops_def nw_of_def nw_destroy_def nw_move_def nw_assign_def nw_release_def

interpretation nl: owner nw_ops id
  by unfold_locales (auto simp: nw_defs split: option.splits if_splits)

text \<open>
  In every program that makes, moves, assigns and destroys \<open>networks\<close> objects and ends with
  none alive, each list of \<open>getifaddrs\<close> is freed exactly once.
\<close>

theorem networks_free_once:
  assumes "scope_run nw_ops cs (replicate n None) = (replicate n None, tk, ds)"
  shows "mset ds = mset tk"
  using assms by (rule nl.run_discharges_all)

lemma networks_free_once_witness:
  "\<exists>tk ds. scope_run nw_ops [Construct 0 (Some 5), Construct 1 None, Move_assign 1 0, Move_construct 2 1, Construct 3 (Some 6),
      Move_assign 3 2, Destroy 0, Destroy 1, Destroy 2, Destroy 3] (replicate 4 None) = (replicate 4 None, tk, ds)
    \<and> tk = [5, 6] \<and> mset ds = mset tk"
proof -
  have run: "scope_run nw_ops [Construct 0 (Some 5), Construct 1 None, Move_assign 1 0, Move_construct 2 1, Construct 3 (Some 6),
      Move_assign 3 2, Destroy 0, Destroy 1, Destroy 2, Destroy 3] (replicate 4 None) = (replicate 4 None, [5, 6], [6, 5])"
    by (simp add: nw_defs eval_nat_numeral)
  from networks_free_once [OF run] run show ?thesis by blast
qed

section \<open>Iterators\<close>

text \<open>
  An iterator points to an entry or is null: it is the list from that entry on. The entries of
  one list are at different distances from its end, so equal pointers are equal lists.
\<close>

definition nit_begin :: "iface list \<Rightarrow> iface list" where
  "nit_begin l = l"

definition nit_end :: "iface list" where
  "nit_end = []"

definition nit_deref :: "iface list \<Rightarrow> iface res" where
  "nit_deref it = (case it of [] \<Rightarrow> Inl Undefined | e # _ \<Rightarrow> Inr e)"

definition nit_incr :: "iface list \<Rightarrow> iface list" where
  "nit_incr it = (case it of [] \<Rightarrow> [] | e # rest \<Rightarrow> rest)"

text \<open>The iterator and what the postfix operator returns.\<close>

definition nit_post_incr :: "iface list \<Rightarrow> iface list \<times> iface list" where
  "nit_post_incr it = (nit_incr it, it)"

definition nit_eq :: "iface list \<Rightarrow> iface list \<Rightarrow> bool" where
  "nit_eq it other = (it = other)"

definition nit_ne :: "iface list \<Rightarrow> iface list \<Rightarrow> bool" where
  "nit_ne it other = (\<not> nit_eq it other)"

text \<open>A range-based loop, at most \<open>n\<close> turns of it.\<close>

fun nit_visit :: "nat \<Rightarrow> iface list \<Rightarrow> iface res list" where
  "nit_visit 0 it = []"
| "nit_visit (Suc n) it = (if nit_ne it nit_end then nit_deref it # nit_visit n (fst (nit_post_incr it)) else [])"

lemma nit_visits_all: "length l \<le> n \<Longrightarrow> nit_visit n (nit_begin l) = map Inr l"
proof (induction l arbitrary: n)
  case Nil
  then show ?case by (cases n) (simp_all add: nit_begin_def nit_ne_def nit_eq_def nit_end_def)
next
  case (Cons e l)
  then obtain k where "n = Suc k" "length l \<le> k" by (cases n) auto
  then show ?case
    using Cons.IH [of k]
    by (simp add: nit_begin_def nit_ne_def nit_eq_def nit_end_def nit_deref_def nit_post_incr_def nit_incr_def)
qed

section \<open>The searches\<close>

definition nw_empty :: "iface list \<Rightarrow> bool" where
  "nw_empty nets = (nets = [])"

definition nw_bool :: "iface list \<Rightarrow> bool" where
  "nw_bool nets = (\<not> nw_empty nets)"

definition nw_not :: "iface list \<Rightarrow> bool" where
  "nw_not nets = nw_empty nets"

definition nw_first :: "iface list \<Rightarrow> iface option" where
  "nw_first nets = (case nets of [] \<Rightarrow> None | e # _ \<Rightarrow> Some e)"

text \<open>The interface with a name, of a family (\<open>AF_UNSPEC\<close> for either IP family).\<close>

fun find_iface :: "iface list \<Rightarrow> string \<Rightarrow> nat \<Rightarrow> bool \<Rightarrow> iface option" where
  "find_iface [] ident fam multicast = None"
| "find_iface (entry # nets) ident fam multicast =
     (if multicast \<and> ifa_flags entry AND iff_multicast = 0 then find_iface nets ident fam multicast
      else case (ifa_addr entry, ifa_name entry) of
        (Some a, Some name) \<Rightarrow>
          (let f = sa_family a;
               f = (if fam = af_unspec \<and> (f = af_inet \<or> f = af_inet6) then af_unspec else f)
           in if ident = name \<and> fam = f then Some entry else find_iface nets ident fam multicast)
      | _ \<Rightarrow> find_iface nets ident fam multicast)"

text \<open>The comparison of the masked IPv6 addresses, byte by byte.\<close>

fun masked_match :: "byte list \<Rightarrow> byte list \<Rightarrow> byte list \<Rightarrow> bool" where
  "masked_match (a # as) (m # ms) (t # ts) = (if (a AND m) \<noteq> (t AND m) then False else masked_match as ms ts)"
| "masked_match _ _ _ = True"

text \<open>
  The interface whose network an address belongs to. A null \<open>ifa_addr\<close> is dereferenced before
  it is tested, and so is the result of a cast of a netmask of another family.
\<close>

fun find_network :: "iface list \<Rightarrow> sockaddr option \<Rightarrow> iface option res" where
  "find_network nets None = Inr None"
| "find_network [] (Some t) = Inr None"
| "find_network (entry # nets) (Some t) =
     (case ifa_addr entry of
        None \<Rightarrow> Inl Undefined
      | Some a \<Rightarrow>
          let fam = sa_family a in
          (case ifa_netmask entry of
             None \<Rightarrow> find_network nets (Some t)
           | Some m \<Rightarrow>
               if fam \<noteq> sa_family t then find_network nets (Some t)
               else if fam = af_inet then
                 (case in4_cast m of
                    None \<Rightarrow> Inl Undefined
                  | Some m4 \<Rightarrow>
                      if map2 (AND) (in4_field a) (in4_field m4) = map2 (AND) (in4_field t) (in4_field m4)
                      then Inr (Some entry) else find_network nets (Some t))
               else if fam = af_inet6 then
                 (case in6_cast m of
                    None \<Rightarrow> Inl Undefined
                  | Some m6 \<Rightarrow>
                      if masked_match (in6_field a) (in6_field m6) (in6_field t)
                      then Inr (Some entry) else find_network nets (Some t))
               else find_network nets (Some t)))"

section \<open>Addresses to bind to\<close>

definition bind_address ::
  "(nat \<Rightarrow> string \<Rightarrow> byte list option) \<Rightarrow> iface list \<Rightarrow> string \<Rightarrow> 16 word \<Rightarrow> nat \<Rightarrow> bool \<Rightarrow> address res" where
  "bind_address pton nets ident port fam multicast =
     (let any = addr_new in
      if ident = ''[*]'' \<and> fam = af_unspec then addr_set_port port (addr_family_if af_inet6 any)
      else if ident = ''*'' then
        (let fam = (if fam = af_unspec then af_inet else fam) in addr_set_port port (addr_family_if fam any))
      else if (fam = af_inet \<or> fam = af_unspec) \<and> CHR ''.'' \<in> set ident then addr_from_string pton ident port
      else if (fam = af_inet6 \<or> fam = af_unspec) \<and> CHR '':'' \<in> set ident then addr_from_string pton ident port
      else case find_iface nets ident fam multicast of
          None \<Rightarrow> Inr any
        | Some ifa \<Rightarrow> (case ifa_addr ifa of
            None \<Rightarrow> Inr any
          | Some sa \<Rightarrow> (case addr_of_sockaddr (Some sa) of
              Inl e \<Rightarrow> Inl e
            | Inr a \<Rightarrow> addr_set_port port a)))"

definition multicast_index :: "(string \<Rightarrow> 32 word) \<Rightarrow> iface list \<Rightarrow> string \<Rightarrow> nat \<Rightarrow> 32 word" where
  "multicast_index nametoindex nets ident fam =
     (if ident = ''*'' \<and> (fam = af_inet \<or> fam = af_unspec) then - 1
      else case find_iface nets ident fam True of
        None \<Rightarrow> 0
      | Some ifa \<Rightarrow> (case ifa_addr ifa of
          None \<Rightarrow> 0
        | Some a \<Rightarrow> if sa_family a = af_inet then - 1 else nametoindex (the (ifa_name ifa))))"

section \<open>What the searches find\<close>

definition iface_matches :: "string \<Rightarrow> nat \<Rightarrow> bool \<Rightarrow> iface \<Rightarrow> bool" where
  "iface_matches ident fam multicast e =
     (ifa_name e = Some ident \<and> (multicast \<longrightarrow> ifa_flags e AND iff_multicast \<noteq> 0)
      \<and> (case ifa_addr e of None \<Rightarrow> False
         | Some a \<Rightarrow> sa_family a = fam \<or> (fam = 0 \<and> (sa_family a = 2 \<or> sa_family a = 10))))"

definition ip_network_of :: "sockaddr \<Rightarrow> iface \<Rightarrow> bool" where
  "ip_network_of t e =
     (case (ifa_addr e, ifa_netmask e) of
        (Some a, Some m) \<Rightarrow> sa_family a = sa_family t \<and>
          (sa_family a = 2 \<and> map2 (AND) (in4_field a) (in4_field m) = map2 (AND) (in4_field t) (in4_field m)
           \<or> sa_family a = 10 \<and> map2 (AND) (in6_field a) (in6_field m) = map2 (AND) (in6_field t) (in6_field m))
      | _ \<Rightarrow> False)"

text \<open>An entry as the documentation of \<open>getifaddrs\<close> has it, with an address: masks match families.\<close>

definition complete_iface :: "iface \<Rightarrow> bool" where
  "complete_iface e =
     (case ifa_addr e of None \<Rightarrow> False
      | Some a \<Rightarrow> (case ifa_netmask e of None \<Rightarrow> True
         | Some m \<Rightarrow> sa_family m = sa_family a \<or> sa_family m = 0))"

lemma masked_match_iff:
  "length as = length ms \<Longrightarrow> length ms = length ts \<Longrightarrow>
     masked_match as ms ts \<longleftrightarrow> map2 (AND) as ms = map2 (AND) ts ms"
  by (induction as ms ts rule: list_induct3) auto

lemma find_iface_find:
  "find_iface nets ident fam multicast = List.find (iface_matches ident fam multicast) nets"
  by (induction nets) (auto simp: iface_matches_def Let_def split: option.splits)

text \<open>
  The search by name is a linear search for the first interface with that name, that
  family (any IP family when unspecified) and, if asked for, multicast.
\<close>

theorem find_iface_is_first:
  "find_iface nets ident fam multicast = List.find (iface_matches ident fam multicast) nets"
  by (rule find_iface_find)

text \<open>
  C34: the search by address finds the first interface whose network, by its netmask, holds
  the address, in a list whose entries all have addresses, and where addresses and netmasks are
  as long as the structure of the address's family (so that no field is read past an end); an
  entry without an address, which \<open>getifaddrs\<close> may give, makes it dereference a null pointer
  unless the search ended before.
\<close>

theorem find_network_is_first:
  assumes "list_all complete_iface nets"
    and "list_all (\<lambda>e. case (ifa_addr e, ifa_netmask e) of
        (Some a, Some m) \<Rightarrow> addrlen a \<le> length a \<and> addrlen a \<le> length m
      | _ \<Rightarrow> True) nets" and "addrlen t \<le> length t"
  shows "find_network nets (Some t) = Inr (List.find (ip_network_of t) nets)
    \<and> (List.find (ip_network_of t) nets = None \<longrightarrow>
        find_network (nets @ \<lparr>ifa_name = name, ifa_flags = fl, ifa_addr = None, ifa_netmask = nm\<rparr> # later) (Some t)
        = Inl Undefined)"
  using assms(1,2)
proof (induction nets)
  case (Cons e nets)
  obtain a where a: "ifa_addr e = Some a"
    using Cons.prems by (auto simp: complete_iface_def split: option.splits)
  have len: "length (in6_field x) = 16" if "28 \<le> length x" for x
    using that by (simp add: in6_field_def)
  show ?case
  proof (cases "ifa_netmask e")
    case None
    then show ?thesis using Cons a by (simp add: ip_network_of_def)
  next
    case (Some m)
    then have m: "sa_family m = sa_family a \<or> sa_family m = 0" "addrlen a \<le> length a" "addrlen a \<le> length m"
      using Cons.prems a by (auto simp: complete_iface_def)
    have six: "masked_match (in6_field a) (in6_field m) (in6_field t)
        = (map2 (AND) (in6_field a) (in6_field m) = map2 (AND) (in6_field t) (in6_field m))"
      if "sa_family a = 10" "sa_family t = 10"
      using masked_match_iff len m(2,3) assms(3) that by (simp add: addrlen_def)
    show ?thesis
      using Cons a Some m by (auto simp: ip_network_of_def Let_def in4_cast_def in6_cast_def six)
  qed
qed simp

definition loopback4 :: sockaddr where
  "loopback4 = made_address 2 4 [127, 0, 0, 1] 0"

definition netmask4 :: sockaddr where
  "netmask4 = made_address 2 4 [255, 0, 0, 0] 0"

definition loopback_iface :: iface where
  "loopback_iface = \<lparr>ifa_name = Some ''lo'', ifa_flags = 0x49, ifa_addr = Some loopback4, ifa_netmask = Some netmask4\<rparr>"

lemma loopback_fields:
  "length loopback4 = 128" "sa_family loopback4 = 2" "in4_field loopback4 = [127, 0, 0, 1]"
  "length netmask4 = 128" "sa_family netmask4 = 2" "in4_field netmask4 = [255, 0, 0, 0]"
  using made_address_fields [of 2 4 "[127, 0, 0, 1]" 0] made_address_fields [of 2 4 "[255, 0, 0, 0]" 0]
  by (simp_all add: loopback4_def netmask4_def in4_made)

lemma find_network_is_first_witness:
  "find_network [loopback_iface] (Some (made_address 2 4 [127, 9, 9, 9] 80)) = Inr (Some loopback_iface)"
proof -
  let ?t = "made_address 2 4 [127, 9, 9, 9] 80"
  have t: "length ?t = 128" "sa_family ?t = 2" "in4_field ?t = [127, 9, 9, 9]"
    using made_address_fields [of 2 4 "[127, 9, 9, 9]" 80] by (simp_all add: in4_made)
  have "ip_network_of ?t loopback_iface"
    by (simp add: ip_network_of_def loopback_iface_def loopback_fields t)
  then show ?thesis
    using find_network_is_first [of "[loopback_iface]" ?t]
    by (simp add: loopback_iface_def complete_iface_def loopback_fields addrlen_def t)
qed

lemma sa_family_new [simp]: "sa_family addr_new = 0"
  by (simp add: sa_family_def addr_new_def)

lemma find_Some: "List.find P xs = Some x \<Longrightarrow> x \<in> set xs \<and> P x"
  by (auto simp: find_Some_iff)

definition full_addresses :: "iface list \<Rightarrow> bool" where
  "full_addresses nets = list_all (\<lambda>e. case ifa_addr e of None \<Rightarrow> True
     | Some a \<Rightarrow> 2 \<le> length a \<and> addrlen a \<le> length a \<and> sa_family a \<noteq> 0) nets"

text \<open>The host bytes of an IP address, and what an address for a family and port is.\<close>

definition host_bytes :: "sockaddr \<Rightarrow> byte list" where
  "host_bytes a = (if sa_family a = 2 then in4_field a else in6_field a)"

definition ip_address :: "nat \<Rightarrow> byte list \<Rightarrow> 16 word \<Rightarrow> address \<Rightarrow> bool" where
  "ip_address f host port a =
     (length a = 128 \<and> addr_family a = f \<and> addr_port a = port \<and> host_bytes a = host)"

definition any_host :: "nat \<Rightarrow> byte list" where
  "any_host f = replicate (if f = 2 then 4 else 16) 0"

text \<open>The names that are taken as the text of an address of a family.\<close>

definition address_text :: "nat \<Rightarrow> string \<Rightarrow> bool" where
  "address_text fam ident = (fam \<noteq> 10 \<and> CHR ''.'' \<in> set ident \<or> fam \<noteq> 2 \<and> CHR '':'' \<in> set ident)"

text \<open>The address of an interface, with a port.\<close>

lemma iface_address_port:
  assumes "2 \<le> length sa" and "addrlen sa \<le> length sa" and "sa_family sa = 2 \<or> sa_family sa = 10"
  shows "\<exists>b c. addr_of_sockaddr (Some sa) = Inr b \<and> addr_set_port port b = Inr c
    \<and> ip_address (sa_family sa) (host_bytes sa) port c"
proof -
  have "addrlen sa \<noteq> 0" using assms(3) by (auto simp: addrlen_def)
  then obtain b where b: "addr_of_sockaddr (Some sa) = Inr b" "length b = 128" "addr_family b = sa_family sa"
      "take (addr_size b) b = take (addrlen sa) sa" "addr_size b = addrlen sa"
    using address_assign_known [OF length_addr_new assms(2,1)] by (auto simp: addr_of_sockaddr_def)
  define n where "n = addrlen sa"
  have field: "take k (drop m b) = take k (drop m sa)" if "m + k \<le> n" for k m
  proof -
    have "take k (drop m (take n b)) = take k (drop m (take n sa))" using b(4,5) by (simp add: n_def)
    moreover have "k \<le> n - m" using that by simp
    ultimately show ?thesis by (simp add: drop_take)
  qed
  have "n = 16 \<and> sa_family sa = 2 \<or> n = 28 \<and> sa_family sa = 10" using assms(3) by (auto simp: n_def addrlen_def)
  then have "host_bytes (set_port_field port b) = host_bytes sa"
    using field b(3)
    by (auto simp: host_bytes_def in4_field_def in6_field_def drop_set_port family_set_port addr_family_def)
  moreover have "addr_family b = 2 \<or> addr_family b = 10" using b(3) assms(3) by simp
  ultimately show ?thesis
    using b set_port_ip [OF b(2), of port] by (auto simp: ip_address_def)
qed

section \<open>What \<open>bind_address\<close> gives\<close>

lemma bind_wildcard:
  assumes "ident = ''*'' \<or> ident = ''[*]'' \<and> fam = 0" and "fam = 0 \<or> fam = 2 \<or> fam = 10"
  defines "f \<equiv> if fam \<noteq> 0 then fam else if ident = ''*'' then 2 else 10"
  shows "\<exists>b. bind_address pton nets ident port fam multicast = Inr b \<and> ip_address f (any_host f) port b"
proof -
  have f: "f = 2 \<or> f = 10" using assms(2) by (auto simp: f_def)
  have "bind_address pton nets ident port fam multicast = addr_set_port port (addr_family_if f addr_new)"
    using assms(1) by (auto simp: bind_address_def f_def)
  then have "bind_address pton nets ident port fam multicast = Inr (made_address f 4 (replicate 20 0) port)"
    using any_address_fields [OF f, of port] by (simp add: addr_family_if_def addr_family_def)
  then show ?thesis
    using f made_address_fields [of f 4 "replicate 20 0" port] any_address_zero [of f port]
    by (auto simp: ip_address_def any_host_def host_bytes_def in4_field_def in6_field_def addr_port_def
        sa_port_ip addr_family_def)
qed

lemma bind_text:
  assumes "pton_sizes pton" and "fam = 0 \<or> fam = 2 \<or> fam = 10" and "address_text fam ident"
  defines "f \<equiv> if CHR '':'' \<in> set ident then 10 else 2"
  shows "case pton f (c_str ident) of
      None \<Rightarrow> bind_address pton nets ident port fam multicast = Inl (Error (''invalid address format: '' @ ident))
    | Some bs \<Rightarrow> \<exists>b. bind_address pton nets ident port fam multicast = Inr b \<and> ip_address f bs port b"
proof -
  have not_wild: "ident \<noteq> ''*''" "ident \<noteq> ''[*]''" using assms(3) by (auto simp: address_text_def)
  then have eq: "bind_address pton nets ident port fam multicast = addr_from_string pton ident port"
    using assms(2,3) by (auto simp: bind_address_def address_text_def)
  show ?thesis
    using from_string_cases [OF assms(1), of ident port] not_wild unfolding eq
    by (cases "addr_from_string pton ident port"; cases "CHR '':'' \<in> set ident")
      (simp_all add: f_def ip_address_def host_bytes_def addr_family_def)
qed

lemma bind_named:
  assumes "\<not> (ident = ''*'' \<or> ident = ''[*]'' \<and> fam = 0)"
    and "(fam = 0 \<or> fam = 2 \<or> fam = 10) \<longrightarrow> \<not> address_text fam ident"
  shows "bind_address pton nets ident port fam multicast =
    (case List.find (iface_matches ident fam multicast) nets of
       None \<Rightarrow> Inr addr_new
     | Some e \<Rightarrow> (case ifa_addr e of
         None \<Rightarrow> Inr addr_new
       | Some sa \<Rightarrow> (case addr_of_sockaddr (Some sa) of Inl er \<Rightarrow> Inl er | Inr a \<Rightarrow> addr_set_port port a)))"
proof -
  have no: "\<not> (ident = ''[*]'' \<and> fam = 0)" "\<not> ident = ''*''"
      "\<not> ((fam = 2 \<or> fam = 0) \<and> CHR ''.'' \<in> set ident)" "\<not> ((fam = 10 \<or> fam = 0) \<and> CHR '':'' \<in> set ident)"
    using assms by (auto simp: address_text_def)
  show ?thesis
    unfolding bind_address_def af_defs Let_def find_iface_find by (simp only: no if_False)
qed

lemma found_iface:
  assumes "List.find (iface_matches ident fam multicast) nets = Some e" and "full_addresses nets"
  obtains sa where "ifa_addr e = Some sa" and "2 \<le> length sa" and "addrlen sa \<le> length sa"
    and "sa_family sa = fam \<and> fam \<noteq> 0 \<or> fam = 0 \<and> (sa_family sa = 2 \<or> sa_family sa = 10)"
proof -
  have e: "e \<in> set nets" "iface_matches ident fam multicast e" using find_Some [OF assms(1)] by simp_all
  then obtain sa where sa: "ifa_addr e = Some sa"
      "sa_family sa = fam \<or> fam = 0 \<and> (sa_family sa = 2 \<or> sa_family sa = 10)"
    by (auto simp: iface_matches_def split: option.splits)
  moreover have "2 \<le> length sa" "addrlen sa \<le> length sa" "sa_family sa \<noteq> 0"
    using assms(2) e(1) sa(1) by (auto simp: full_addresses_def list_all_iff)
  ultimately show ?thesis using that by auto
qed

text \<open>For a family that is not IP a wildcard or an interface of that family has no port to set.\<close>

lemma bind_other_family:
  assumes "full_addresses nets" and "fam \<noteq> 0" and "fam \<noteq> 2" and "fam \<noteq> 10" and "fam < 65536"
  shows "bind_address pton nets ident port fam multicast =
    (if ident = ''*'' \<or> List.find (iface_matches ident fam multicast) nets \<noteq> None
     then Inl (Error ''unknown address type'') else Inr addr_new)"
proof (cases "ident = ''*''")
  case True
  have "sa_family (addr_family_if fam addr_new) = fam"
    using assms(5) by (simp add: addr_family_if_def addr_family_def family_set)
  then show ?thesis using True assms(2-4) by (simp add: bind_address_def addr_set_port_def)
next
  case False
  show ?thesis
  proof (cases "List.find (iface_matches ident fam multicast) nets")
    case (Some e)
    then obtain sa where sa: "ifa_addr e = Some sa" "2 \<le> length sa" "addrlen sa \<le> length sa" "sa_family sa = fam"
      using found_iface [OF Some assms(1)] assms(2) by metis
    have "\<exists>b. addr_of_sockaddr (Some sa) = Inr b \<and> sa_family b \<noteq> 2 \<and> sa_family b \<noteq> 10"
    proof (cases "addrlen sa = 0")
      case True
      then show ?thesis
        using sa(4) assms(2-4)
        by (auto simp: addr_of_sockaddr_def addr_assign_def addrlen_def family_size_def split: if_splits)
    next
      case False
      then show ?thesis
        using address_assign_known [OF length_addr_new sa(3,2)] sa(4) assms(3,4)
        by (auto simp: addr_of_sockaddr_def addr_family_def)
    qed
    then obtain b where "addr_of_sockaddr (Some sa) = Inr b" "sa_family b \<noteq> 2" "sa_family b \<noteq> 10" by blast
    then show ?thesis
      using bind_named [of ident fam pton nets port multicast] False Some sa(1) assms(2-4)
      by (simp add: addr_set_port_def)
  qed (use bind_named [of ident fam pton nets port multicast] False assms(2-4) in simp)
qed

text \<open>
  C33: what \<open>bind_address\<close> gives for every name, family and port. For an IP family or none: a
  wildcard gives the unspecified host of the family (of IPv4 for \<open>*\<close>, of IPv6 for \<open>[*]\<close>, when
  no family is asked for); a name with a dot, unless IPv6 is asked for, or with a colon, unless
  IPv4 is, gives the address that \<open>inet_pton\<close> reads from it, or an error that names it; any other
  name gives the address of the first interface of that name and family, or the empty address
  when there is none; the address has the requested port. (A text with a colon is read as IPv6 also when
  a dot sent an IPv4 request there.) For every other family there are only an error and
  the empty address.
\<close>

theorem bind_address_spec:
  assumes "pton_sizes pton" and "full_addresses nets" and "fam < 65536"
  shows "let result = bind_address pton nets ident port fam multicast;
      found = List.find (iface_matches ident fam multicast) nets in
    if fam \<noteq> 0 \<and> fam \<noteq> 2 \<and> fam \<noteq> 10 then
      result = (if ident = ''*'' \<or> found \<noteq> None then Inl (Error ''unknown address type'') else Inr addr_new)
    else if ident = ''*'' \<or> ident = ''[*]'' \<and> fam = 0 then
      let f = (if fam \<noteq> 0 then fam else if ident = ''*'' then 2 else 10) in
      \<exists>b. result = Inr b \<and> ip_address f (any_host f) port b
    else if address_text fam ident then
      let f = (if CHR '':'' \<in> set ident then 10 else 2) in
      case pton f (c_str ident) of
        None \<Rightarrow> result = Inl (Error (''invalid address format: '' @ ident))
      | Some bs \<Rightarrow> \<exists>b. result = Inr b \<and> ip_address f bs port b
    else
      case found of
        None \<Rightarrow> result = Inr addr_new
      | Some e \<Rightarrow> \<exists>sa b. ifa_addr e = Some sa \<and> result = Inr b
          \<and> ip_address (sa_family sa) (host_bytes sa) port b"
proof -
  have iface: "\<exists>sa b. ifa_addr e = Some sa \<and> bind_address pton nets ident port fam multicast = Inr b
      \<and> ip_address (sa_family sa) (host_bytes sa) port b"
    if ip: "fam = 0 \<or> fam = 2 \<or> fam = 10" and named: "\<not> (ident = ''*'' \<or> ident = ''[*]'' \<and> fam = 0)"
      "\<not> address_text fam ident" and found: "List.find (iface_matches ident fam multicast) nets = Some e" for e
  proof -
    obtain sa where sa: "ifa_addr e = Some sa" "2 \<le> length sa" "addrlen sa \<le> length sa" "sa_family sa = 2 \<or> sa_family sa = 10"
      using found_iface [OF found assms(2)] ip by metis
    then show ?thesis
      using iface_address_port [OF sa(2-4), of port] bind_named [OF named(1), of pton nets port multicast] named(2) found
      by fastforce
  qed
  consider (other) "fam \<noteq> 0 \<and> fam \<noteq> 2 \<and> fam \<noteq> 10"
    | (wild) "fam = 0 \<or> fam = 2 \<or> fam = 10" "ident = ''*'' \<or> ident = ''[*]'' \<and> fam = 0"
    | (numeric) "fam = 0 \<or> fam = 2 \<or> fam = 10" "\<not> (ident = ''*'' \<or> ident = ''[*]'' \<and> fam = 0)"
        "address_text fam ident"
    | (named) "fam = 0 \<or> fam = 2 \<or> fam = 10" "\<not> (ident = ''*'' \<or> ident = ''[*]'' \<and> fam = 0)"
        "\<not> address_text fam ident" by metis
  then show ?thesis
  proof cases
    case other
    then show ?thesis using bind_other_family [OF assms(2) _ _ _ assms(3)] by (simp only: Let_def if_True simp_thms)
  next
    case wild
    have ip: "\<not> (fam \<noteq> 0 \<and> fam \<noteq> 2 \<and> fam \<noteq> 10)" using wild(1) by blast
    show ?thesis
      unfolding Let_def if_not_P [OF ip] if_P [OF wild(2)] by (rule bind_wildcard [OF wild(2,1)])
  next
    case numeric
    have ip: "\<not> (fam \<noteq> 0 \<and> fam \<noteq> 2 \<and> fam \<noteq> 10)" using numeric(1) by blast
    show ?thesis
      unfolding Let_def if_not_P [OF ip] if_not_P [OF numeric(2)] if_P [OF numeric(3)]
      by (rule bind_text [OF assms(1) numeric(1,3)])
  next
    case named
    have ip: "\<not> (fam \<noteq> 0 \<and> fam \<noteq> 2 \<and> fam \<noteq> 10)" using named(1) by blast
    show ?thesis
      unfolding Let_def if_not_P [OF ip] if_not_P [OF named(2)] if_not_P [OF named(3)]
      using iface [OF named] bind_named [OF named(2), of pton nets port multicast] named(3)
      by (simp split: option.split)
  qed
qed

lemma bind_address_spec_witness:
  "(\<exists>b. bind_address pton_sample [loopback_iface] ''lo'' 80 2 False = Inr b \<and> ip_address 2 [127, 0, 0, 1] 80 b)
   \<and> (\<exists>b. bind_address pton_sample [loopback_iface] ''[*]'' 53 0 False = Inr b \<and> ip_address 10 (any_host 10) 53 b)
   \<and> (\<exists>b. bind_address pton_sample [] ''127.0.0.1'' 8080 0 False = Inr b \<and> ip_address 2 [127, 0, 0, 1] 8080 b)
   \<and> bind_address pton_sample [loopback_iface] ''eth0.1'' 80 0 False = Inl (Error ''invalid address format: eth0.1'')
   \<and> bind_address pton_sample [loopback_iface] ''eth0'' 80 0 False = Inr addr_new
   \<and> bind_address pton_sample [loopback_iface] ''*'' 80 1 False = Inl (Error ''unknown address type'')"
proof -
  have nets: "full_addresses [loopback_iface]" "full_addresses []"
    by (simp_all add: full_addresses_def loopback_iface_def loopback_fields addrlen_def)
  have found: "iface_matches ''lo'' 2 False loopback_iface" "\<not> iface_matches ''eth0'' 0 False loopback_iface"
      "ifa_addr loopback_iface = Some loopback4"
    by (simp_all add: iface_matches_def loopback_iface_def loopback_fields)
  note spec = bind_address_spec [OF pton_sample_sizes nets(1)] bind_address_spec [OF pton_sample_sizes nets(2)]
  show ?thesis
    using spec(1) [of 2 "''lo''" 80 False] spec(1) [of 0 "''[*]''" 53 False] spec(2) [of 0 "''127.0.0.1''" 8080 False]
      spec(1) [of 0 "''eth0.1''" 80 False] spec(1) [of 0 "''eth0''" 80 False] spec(1) [of 1 "''*''" 80 False]
    by (simp add: Let_def found address_text_def c_str_def pton_sample_def loopback_fields host_bytes_def)
qed

text \<open>The multicast interface: the index of the first multicast interface of that name.\<close>

lemma multicast_index_cases:
  "multicast_index nametoindex nets ident fam =
     (if ident = ''*'' \<and> (fam = 2 \<or> fam = 0) then - 1
      else case List.find (iface_matches ident fam True) nets of
        None \<Rightarrow> 0
      | Some e \<Rightarrow> if sa_family (the (ifa_addr e)) = 2 then - 1 else nametoindex ident)"
proof (cases "List.find (iface_matches ident fam True) nets")
  case (Some e)
  then have "iface_matches ident fam True e" using find_Some by fast
  then show ?thesis
    using Some by (auto simp: multicast_index_def find_iface_find iface_matches_def split: option.splits)
qed (simp add: multicast_index_def find_iface_find)

end
