(* ===== verification/Resolver.thy ===== *)
theory Resolver
  imports Sockets
begin

text \<open>
  \<open>src/resolver.hpp\<close>: the list of addresses \<open>service\<close>, and \<open>lookup\<close> in both directions. The
  linked list is the list of its entries; \<open>getaddrinfo\<close> and \<open>getnameinfo\<close> are parameters, and
  the flags have their Linux values.
\<close>

section \<open>service\<close>

definition sv_empty :: "addrinfo list \<Rightarrow> bool" where
  "sv_empty s = (s = [])"

definition sv_front :: "addrinfo list \<Rightarrow> addrinfo option" where
  "sv_front s = (case s of [] \<Rightarrow> None | e # _ \<Rightarrow> Some e)"

definition sv_addr :: "addrinfo list \<Rightarrow> sockaddr option \<times> nat" where
  "sv_addr s = (case s of [] \<Rightarrow> (None, 0) | e # _ \<Rightarrow> (ai_addr e, ai_addrlen e))"

definition sv_c_sockaddr :: "addrinfo list \<Rightarrow> sockaddr option" where
  "sv_c_sockaddr s = (case s of [] \<Rightarrow> None | e # _ \<Rightarrow> ai_addr e)"

definition sv_bool :: "addrinfo list \<Rightarrow> bool" where
  "sv_bool s = (\<not> sv_empty s)"

definition sv_not :: "addrinfo list \<Rightarrow> bool" where
  "sv_not s = sv_empty s"

text \<open>The conversions to a socket address, to an entry and to an address with its length.\<close>

definition sv_as_sockaddr :: "addrinfo list \<Rightarrow> sockaddr option" where
  "sv_as_sockaddr s = (case s of [] \<Rightarrow> None | e # _ \<Rightarrow> ai_addr e)"

definition sv_as_addr :: "addrinfo list \<Rightarrow> sockaddr option \<times> nat" where
  "sv_as_addr s = sv_addr s"

definition sv_as_info :: "addrinfo list \<Rightarrow> addrinfo option" where
  "sv_as_info s = (case s of [] \<Rightarrow> None | e # _ \<Rightarrow> Some e)"

text \<open>The loop of \<open>count\<close> with its accumulator, an \<open>unsigned\<close>.\<close>

fun sv_count_loop :: "(addrinfo \<Rightarrow> bool) \<Rightarrow> addrinfo list \<Rightarrow> 32 word \<Rightarrow> 32 word" where
  "sv_count_loop func [] visited = visited"
| "sv_count_loop func (e # es) visited = sv_count_loop func es (if func e then visited + 1 else visited)"

definition sv_count :: "(addrinfo \<Rightarrow> bool) \<Rightarrow> addrinfo list \<Rightarrow> 32 word" where
  "sv_count func s = sv_count_loop func s 0"

fun sv_find_entry :: "(addrinfo \<Rightarrow> bool) \<Rightarrow> addrinfo list \<Rightarrow> addrinfo option" where
  "sv_find_entry func [] = None"
| "sv_find_entry func (e # es) = (if func e then Some e else sv_find_entry func es)"

text \<open>The ownership of the list, by its pointer; the operations return the lists they free.\<close>

definition sv_release :: "nat option \<Rightarrow> nat option \<times> nat list" where
  "sv_release p = (case p of None \<Rightarrow> (None, []) | Some l \<Rightarrow> (None, [l]))"

definition sv_new :: "nat option" where
  "sv_new = None"

definition sv_of :: "nat option \<Rightarrow> nat option" where
  "sv_of list = list"

definition sv_destroy :: "nat option \<Rightarrow> nat list" where
  "sv_destroy p = snd (sv_release p)"

definition sv_move :: "nat option \<Rightarrow> nat option \<times> nat option" where
  "sv_move from = (from, None)"

definition sv_assign :: "nat option \<Rightarrow> nat option \<Rightarrow> nat option \<times> nat option \<times> nat list" where
  "sv_assign p from = (if p = from then (p, from, []) else (from, None, snd (sv_release p)))"

definition sv_set :: "nat option \<Rightarrow> nat option \<Rightarrow> nat option \<times> nat list" where
  "sv_set p addr = (if p \<noteq> addr then (addr, snd (sv_release p)) else (p, []))"

text \<open>
  An assignment between two objects of the same list does nothing, so the class has only the
  weaker contract of an owner.
\<close>

definition sv_ops :: "(nat option, nat, nat option) scope_ops" where
  "sv_ops = \<lparr>so_takes = id, so_make = sv_of, so_move = sv_move, so_assign = sv_assign, so_finish = sv_destroy\<rparr>"

lemmas sv_defs = sv_ops_def sv_of_def sv_destroy_def sv_move_def sv_assign_def sv_release_def

interpretation sl: owner sv_ops id
  by unfold_locales (auto simp: sv_defs split: option.splits if_splits)

text \<open>
  In every program that makes, moves, assigns and destroys services and ends with none alive,
  each list of \<open>getaddrinfo\<close> they were given is freed exactly once.
\<close>

theorem services_free_once:
  assumes "scope_run sv_ops cs (replicate n None) = (replicate n None, tk, ds)"
  shows "mset ds = mset tk"
  using assms by (rule sl.run_discharges_all)

lemma services_free_once_witness:
  "\<exists>tk ds. scope_run sv_ops [Construct 0 (Some 5), Construct 1 None, Move_assign 1 0, Move_construct 2 1, Construct 3 (Some 6),
      Move_assign 3 2, Destroy 0, Destroy 1, Destroy 2, Destroy 3] (replicate 4 None) = (replicate 4 None, tk, ds)
    \<and> tk = [5, 6] \<and> mset ds = mset tk"
proof -
  have run: "scope_run sv_ops [Construct 0 (Some 5), Construct 1 None, Move_assign 1 0, Move_construct 2 1, Construct 3 (Some 6),
      Move_assign 3 2, Destroy 0, Destroy 1, Destroy 2, Destroy 3] (replicate 4 None) = (replicate 4 None, [5, 6], [6, 5])"
    by (simp add: sv_defs eval_nat_numeral)
  from services_free_once [OF run] run show ?thesis by blast
qed

section \<open>Iterators\<close>

text \<open>
  An iterator points to an entry or is null: it is the list from that entry on. The entries of
  one list are at different distances from its end, so equal pointers are equal lists.
\<close>

definition sit_begin :: "addrinfo list \<Rightarrow> addrinfo list" where
  "sit_begin l = l"

definition sit_end :: "addrinfo list" where
  "sit_end = []"

definition sit_deref :: "addrinfo list \<Rightarrow> addrinfo res" where
  "sit_deref it = (case it of [] \<Rightarrow> Inl Undefined | e # _ \<Rightarrow> Inr e)"

definition sit_incr :: "addrinfo list \<Rightarrow> addrinfo list" where
  "sit_incr it = (case it of [] \<Rightarrow> [] | e # rest \<Rightarrow> rest)"

text \<open>The iterator and what the postfix operator returns.\<close>

definition sit_post_incr :: "addrinfo list \<Rightarrow> addrinfo list \<times> addrinfo list" where
  "sit_post_incr it = (sit_incr it, it)"

definition sit_eq :: "addrinfo list \<Rightarrow> addrinfo list \<Rightarrow> bool" where
  "sit_eq it other = (it = other)"

definition sit_ne :: "addrinfo list \<Rightarrow> addrinfo list \<Rightarrow> bool" where
  "sit_ne it other = (\<not> sit_eq it other)"

text \<open>A range-based loop, at most \<open>n\<close> turns of it.\<close>

fun sit_visit :: "nat \<Rightarrow> addrinfo list \<Rightarrow> addrinfo res list" where
  "sit_visit 0 it = []"
| "sit_visit (Suc n) it = (if sit_ne it sit_end then sit_deref it # sit_visit n (fst (sit_post_incr it)) else [])"

lemma sit_visits_all: "length l \<le> n \<Longrightarrow> sit_visit n (sit_begin l) = map Inr l"
proof (induction l arbitrary: n)
  case Nil
  then show ?case by (cases n) (simp_all add: sit_begin_def sit_ne_def sit_eq_def sit_end_def)
next
  case (Cons e l)
  then obtain k where "n = Suc k" "length l \<le> k" by (cases n) auto
  then show ?case
    using Cons.IH [of k]
    by (simp add: sit_begin_def sit_ne_def sit_eq_def sit_end_def sit_deref_def sit_post_incr_def sit_incr_def)
qed

section \<open>std::stoi\<close>

definition is_space :: "char \<Rightarrow> bool" where
  "is_space c = (c = CHR '' '' \<or> (9 \<le> (of_char c :: nat) \<and> (of_char c :: nat) \<le> 13))"

text \<open>White space, a sign, digits; \<open>None\<close> when it throws.\<close>

definition stoi :: "string \<Rightarrow> int option" where
  "stoi s =
     (let s1 = dropWhile is_space s;
          neg = (s1 \<noteq> [] \<and> hd s1 = CHR ''-'');
          s2 = (if s1 \<noteq> [] \<and> (hd s1 = CHR ''-'' \<or> hd s1 = CHR ''+'') then drop 1 s1 else s1);
          ds = takeWhile is_digit s2;
          n = (if neg then - int (dec_number ds) else int (dec_number ds))
      in if ds = [] then None else if - (2 ^ 31) \<le> n \<and> n < 2 ^ 31 then Some n else None)"

section \<open>lookup of a name\<close>

definition ni_numericserv :: "32 word" where "ni_numericserv = 2"
definition ai_passive :: "32 word" where "ai_passive = 1"
definition ai_canonname :: "32 word" where "ai_canonname = 2"
definition ai_numerichost :: "32 word" where "ai_numerichost = 4"
definition ai_numericserv :: "32 word" where "ai_numericserv = 0x400"

lemmas flag_defs = ni_numericserv_def ai_passive_def ai_canonname_def ai_numerichost_def ai_numericserv_def

record hints =
  h_family :: nat
  h_socktype :: int
  h_protocol :: int
  h_flags :: "32 word"

text \<open>The arguments of \<open>getaddrinfo\<close> that \<open>lookup\<close> makes: node, service, hints.\<close>

definition lookup_request :: "string \<times> string \<Rightarrow> nat \<Rightarrow> int \<Rightarrow> int \<Rightarrow> string option \<times> string option \<times> hints" where
  "lookup_request name fam typ protocol =
     (let (host, service) = name;
          svc = (if service = [] \<or> service = ''0'' then None else Some (c_str service));
          hint = \<lparr>h_family = fam, h_socktype = typ, h_protocol = protocol, h_flags = 0\<rparr>;
          sock_port = (case svc of None \<Rightarrow> 0 | Some _ \<Rightarrow> (case stoi service of None \<Rightarrow> 0 | Some n \<Rightarrow> n));
          hint = (if sock_port > 0 \<and> sock_port < 65536 then hint\<lparr>h_flags := h_flags hint OR ni_numericserv\<rparr> else hint);
          (addr, hint) =
            (if host = [] \<or> host = ''*'' then (None, hint)
             else if host = ''[*]'' then (None, hint\<lparr>h_family := af_inet6\<rparr>)
             else if CHR '':'' \<in> set (c_str host) then (Some (c_str host), hint\<lparr>h_flags := h_flags hint OR ai_numerichost\<rparr>)
             else (Some (c_str host), hint));
          hint = (if protocol \<noteq> 0 then hint\<lparr>h_flags := h_flags hint OR ai_passive\<rparr> else hint)
      in (addr, svc, hint))"

text \<open>
  \<open>lookup\<close>: \<open>getaddrinfo\<close> gives its error code and the list it stored, if any. The value is
  the service's list and whether a list was freed.
\<close>

definition lookup_name ::
  "(string option \<times> string option \<times> hints \<Rightarrow> int \<times> addrinfo list) \<Rightarrow> string \<times> string \<Rightarrow> nat \<Rightarrow> int \<Rightarrow> int
    \<Rightarrow> addrinfo list \<times> bool" where
  "lookup_name getaddrinfo name fam typ protocol =
     (case getaddrinfo (lookup_request name fam typ protocol) of
        (err, l) \<Rightarrow> if err \<noteq> 0 \<and> l \<noteq> [] then ([], True) else (l, False))"

text \<open>\<open>lookup\<close> of an address: the names, or two empty strings.\<close>

definition lookup_addr ::
  "(sockaddr \<Rightarrow> nat \<Rightarrow> int \<Rightarrow> (string \<times> string) option) \<Rightarrow> sockaddr option \<times> nat \<Rightarrow> int \<Rightarrow> string \<times> string" where
  "lookup_addr getnameinfo info flags =
     (case fst info of
        None \<Rightarrow> ('''', '''')
      | Some a \<Rightarrow> (case getnameinfo a (snd info) flags of
          Some (host, port) \<Rightarrow> (host, port)
        | None \<Rightarrow> ('''', '''')))"

definition from_addr :: "address \<Rightarrow> sockaddr option \<times> nat" where
  "from_addr a = (Some a, addr_size a)"

definition from_host :: "string \<Rightarrow> string \<times> string" where
  "from_host host = (host, '''')"

definition lookup_address ::
  "(sockaddr \<Rightarrow> nat \<Rightarrow> int \<Rightarrow> (string \<times> string) option) \<Rightarrow> address \<Rightarrow> int \<Rightarrow> string \<times> string" where
  "lookup_address getnameinfo a flags = lookup_addr getnameinfo (Some a, addr_size a) flags"

section \<open>What they do\<close>

lemma sv_count_loop_length:
  "sv_count_loop func s v = v + word_of_nat (length (filter func s))"
  by (induction s arbitrary: v) simp_all

lemma sv_find_entry_find: "sv_find_entry func s = List.find func s"
  by (induction s) simp_all

text \<open>
  \<open>count\<close> is the number of entries that satisfy a test, modulo 2 to the 32, \<open>find\<close> the
  first of them; the accessors of an empty service are null.
\<close>

theorem service_searches:
  "sv_count func s = word_of_nat (length (filter func s)) \<and> sv_find_entry func s = List.find func s
   \<and> (sv_empty s \<longleftrightarrow> sv_front s = None) \<and> sv_addr s = (sv_c_sockaddr s, case sv_front s of None \<Rightarrow> 0 | Some e \<Rightarrow> ai_addrlen e)"
  by (simp add: sv_count_def sv_count_loop_length sv_find_entry_find sv_empty_def sv_front_def sv_addr_def
      sv_c_sockaddr_def split: list.splits)

lemma stoi_digits: "list_all is_digit s \<Longrightarrow> s \<noteq> [] \<Longrightarrow> dec_number s < 2 ^ 31 \<Longrightarrow> stoi s = Some (int (dec_number s))"
proof -
  assume d: "list_all is_digit s" and ne: "s \<noteq> []" and lt: "dec_number s < 2 ^ 31"
  obtain c cs where s: "s = c # cs" using ne by (cases s) auto
  have c: "is_digit c" using d s by simp
  then have "\<not> is_space c \<and> c \<noteq> CHR ''-'' \<and> c \<noteq> CHR ''+''"
    by (auto simp: is_digit_def is_space_def)
  moreover have "takeWhile is_digit s = s" using d by (simp add: takeWhile_eq_all_conv list_all_iff)
  moreover have "int (dec_number s) < 2 ^ 31" using lt by simp
  ultimately show ?thesis using s by (simp add: stoi_def Let_def)
qed

text \<open>
  The request \<open>lookup\<close> makes for a host with a numeric service. A host with a colon is
  marked numeric and a wildcard is no node; but a numeric port sets \<open>NI_NUMERICSERV\<close>, a flag
  of \<open>getnameinfo\<close> whose value means \<open>AI_CANONNAME\<close> here, so that \<open>AI_NUMERICSERV\<close> is never
  asked for; and \<open>AI_PASSIVE\<close> is asked for exactly with a protocol, not for the wildcards.
\<close>

theorem lookup_flags:
  assumes "list_all is_digit service" and "service \<noteq> []" and "0 < dec_number service" and "dec_number service < 65536"
    and "lookup_request (host, service) fam typ protocol = (node, svc, h)"
  shows "h_flags h AND ai_canonname \<noteq> 0 \<and> h_flags h AND ai_numericserv = 0
    \<and> (h_flags h AND ai_passive \<noteq> 0 \<longleftrightarrow> protocol \<noteq> 0)
    \<and> (node = None \<longleftrightarrow> host = [] \<or> host = ''*'' \<or> host = ''[*]'')
    \<and> (h_flags h AND ai_numerichost \<noteq> 0 \<longleftrightarrow> CHR '':'' \<in> set (c_str host))
    \<and> h_family h = (if host = ''[*]'' then 10 else fam) \<and> svc = Some (c_str service)"
proof -
  have n: "stoi service = Some (int (dec_number service))"
    by (rule stoi_digits) (use assms in simp_all)
  have zero: "service \<noteq> ''0''" using assms(3) by (auto simp: dec_number_def digit_value_def)
  have no_colon: "CHR '':'' \<notin> set (c_str [])" "CHR '':'' \<notin> set (c_str ''*'')" "CHR '':'' \<notin> set (c_str ''[*]'')"
    by (simp_all add: c_str_def)
  show ?thesis
    using assms(2,3,4,5) n zero no_colon
    by (auto simp: lookup_request_def Let_def flag_defs split: if_splits)
qed

lemma lookup_flags_witness:
  "h_flags (snd (snd (lookup_request (''host'', ''80'') 0 1 0))) AND ai_canonname \<noteq> 0"
proof -
  obtain node svc h where r: "lookup_request (''host'', ''80'') 0 1 0 = (node, svc, h)"
    by (cases "lookup_request (''host'', ''80'') 0 1 0")
  have "list_all is_digit ''80''" "dec_number ''80'' = 80"
    by (simp_all add: is_digit_def dec_number_def digit_value_def)
  then show ?thesis using lookup_flags [of "''80''" "''host''" 0 1 0 node svc h] r by simp
qed

text \<open>An error that came with a list frees the list, and the service is empty.\<close>

lemma lookup_name_frees:
  "getaddrinfo (lookup_request name fam typ protocol) = (err, l) \<Longrightarrow>
     lookup_name getaddrinfo name fam typ protocol = (if err \<noteq> 0 then [] else l, err \<noteq> 0 \<and> l \<noteq> [])"
  by (auto simp: lookup_name_def)

end
