(* ===== verification/Fsys.thy ===== *)
theory Fsys
  imports Prelude Scope_Contract
begin

text \<open>
  \<open>src/fsys.hpp\<close>: the directory handle \<open>dir_t\<close> and the line and directory scanners. A
  directory stream is a number, a directory is the list of entries that \<open>readdir\<close> gives, and
  \<open>fdopendir\<close> and \<open>opendir\<close> are parameters. A user's function returns its result and may
  change a state.
\<close>

section \<open>dir_t\<close>

record dir_handle =
  dir_ptr :: "nat option"

definition dir_new :: dir_handle where
  "dir_new = \<lparr>dir_ptr = None\<rparr>"

definition dir_of_fd :: "(int \<Rightarrow> nat option) \<Rightarrow> int \<Rightarrow> dir_handle" where
  "dir_of_fd fdopendir fd = \<lparr>dir_ptr = fdopendir fd\<rparr>"

definition dir_of_path :: "(string \<Rightarrow> nat option) \<Rightarrow> string \<Rightarrow> dir_handle" where
  "dir_of_path opendir path = \<lparr>dir_ptr = opendir path\<rparr>"

text \<open>\<open>release\<close> returns the streams it closes.\<close>

definition dir_release :: "dir_handle \<Rightarrow> dir_handle \<times> nat list" where
  "dir_release d = (case dir_ptr d of None \<Rightarrow> (d, []) | Some p \<Rightarrow> (d\<lparr>dir_ptr := None\<rparr>, [p]))"

definition dir_move :: "dir_handle \<Rightarrow> dir_handle \<times> dir_handle" where
  "dir_move from = (\<lparr>dir_ptr = dir_ptr from\<rparr>, from\<lparr>dir_ptr := None\<rparr>)"

definition dir_assign :: "dir_handle \<Rightarrow> dir_handle \<Rightarrow> dir_handle \<times> dir_handle \<times> nat list" where
  "dir_assign d from = (case dir_release d of (d', ds) \<Rightarrow> (d'\<lparr>dir_ptr := dir_ptr from\<rparr>, from\<lparr>dir_ptr := None\<rparr>, ds))"

text \<open>The assignment has no test for itself: then it closes the stream and keeps nothing.\<close>

definition dir_self_assign :: "dir_handle \<Rightarrow> dir_handle \<times> nat list" where
  "dir_self_assign d = (case dir_release d of (d', ds) \<Rightarrow> (d'\<lparr>dir_ptr := dir_ptr d'\<rparr>, ds))"

definition dir_set_path :: "(string \<Rightarrow> nat option) \<Rightarrow> dir_handle \<Rightarrow> string \<Rightarrow> dir_handle \<times> nat list" where
  "dir_set_path opendir d path = (case dir_release d of (d', ds) \<Rightarrow> (d'\<lparr>dir_ptr := opendir path\<rparr>, ds))"

definition dir_set_fd :: "(int \<Rightarrow> nat option) \<Rightarrow> dir_handle \<Rightarrow> int \<Rightarrow> dir_handle \<times> nat list" where
  "dir_set_fd fdopendir d fd = (case dir_release d of (d', ds) \<Rightarrow> (d'\<lparr>dir_ptr := fdopendir fd\<rparr>, ds))"

definition dir_is_open :: "dir_handle \<Rightarrow> bool" where
  "dir_is_open d = (dir_ptr d \<noteq> None)"

definition dir_bool :: "dir_handle \<Rightarrow> bool" where
  "dir_bool d = dir_is_open d"

definition dir_not :: "dir_handle \<Rightarrow> bool" where
  "dir_not d = (\<not> dir_is_open d)"

text \<open>\<open>get\<close> and \<open>operator*\<close>: the next entry of the stream, which is at a position of its directory.\<close>

definition dir_get :: "'e list \<Rightarrow> nat \<Rightarrow> dir_handle \<Rightarrow> 'e option \<times> nat" where
  "dir_get entries pos d =
     (if dir_is_open d then (if pos < length entries then (Some (entries ! pos), pos + 1) else (None, pos))
      else (None, pos))"

definition dir_finish :: "dir_handle \<Rightarrow> nat list" where
  "dir_finish d = snd (dir_release d)"

text \<open>A constructor argument is the stream that the system opened, or none.\<close>

definition dir_ops :: "(nat option, nat, dir_handle) scope_ops" where
  "dir_ops = \<lparr>so_takes = id, so_make = (\<lambda>p. dir_of_fd (\<lambda>_. p) 0), so_move = dir_move, so_assign = dir_assign,
     so_finish = dir_finish\<rparr>"

lemmas dir_defs = dir_ops_def dir_of_fd_def dir_move_def dir_assign_def dir_finish_def dir_release_def

interpretation ds: scope dir_ops dir_ptr
  by unfold_locales (auto simp: dir_defs split: option.splits)

text \<open>
  In every program that opens, moves, assigns and destroys directory handles and ends with
  none alive, each stream that was opened is closed exactly once; but a handle assigned to
  itself closes its stream and is left without one.
\<close>

theorem directories_close_once:
  assumes "scope_run dir_ops cs (replicate n None) = (replicate n None, tk, ds)"
  shows "mset ds = mset tk \<and> dir_self_assign (dir_of_fd (\<lambda>_. Some p) fd) = (dir_new, [p])"
  using ds.run_discharges_all [OF assms]
  by (simp add: dir_self_assign_def dir_of_fd_def dir_release_def dir_new_def)

lemma directories_close_once_witness:
  "\<exists>tk ds. scope_run dir_ops [Construct 0 (Some 3), Construct 1 None, Construct 2 (Some 8), Move_assign 1 0, Move_assign 2 1,
      Destroy 0, Destroy 1, Destroy 2] (replicate 3 None) = (replicate 3 None, tk, ds) \<and> tk = [3, 8] \<and> mset ds = mset tk"
proof -
  have run: "scope_run dir_ops [Construct 0 (Some 3), Construct 1 None, Construct 2 (Some 8), Move_assign 1 0, Move_assign 2 1,
      Destroy 0, Destroy 1, Destroy 2] (replicate 3 None) = (replicate 3 None, [3, 8], [8, 3])"
    by (simp add: dir_defs eval_nat_numeral)
  from directories_close_once [OF run] run show ?thesis by blast
qed

section \<open>Scanners\<close>

text \<open>
  \<open>std::getline\<close>: the characters before the next newline, which is taken away; a last line
  without a newline counts when it is not empty. \<open>None\<close> is the end of the input.
\<close>

definition getline :: "string \<Rightarrow> (string \<times> string) option" where
  "getline input = (if input = [] then None
     else Some (takeWhile (\<lambda>c. c \<noteq> CHR 0x0A) input, drop 1 (dropWhile (\<lambda>c. c \<noteq> CHR 0x0A) input)))"

lemma getline_shorter: "getline input = Some (l, rest) \<Longrightarrow> length rest < length input"
proof -
  assume "getline input = Some (l, rest)"
  then have ne: "input \<noteq> []" and rest: "rest = drop 1 (dropWhile (\<lambda>c. c \<noteq> CHR 0x0A) input)"
    by (auto simp: getline_def split: if_splits)
  have "length (dropWhile (\<lambda>c. c \<noteq> CHR 0x0A) input) \<le> length input" by (rule length_dropWhile_le)
  then show ?thesis using ne rest by (cases "dropWhile (\<lambda>c. c \<noteq> CHR 0x0A) input") auto
qed

function scan_loop :: "(string \<Rightarrow> 's \<Rightarrow> bool \<times> 's) \<Rightarrow> string \<Rightarrow> 's \<Rightarrow> nat \<Rightarrow> nat \<times> string \<times> 's" where
  "scan_loop func input st n =
     (case getline input of
        None \<Rightarrow> (n, input, st)
      | Some (l, rest) \<Rightarrow>
          (case func l st of (go_on, st') \<Rightarrow>
             if \<not> go_on then (n, rest, st') else scan_loop func rest st' (n + 1)))"
  by auto
termination
  by (relation "measure (\<lambda>(func, input, st, n). length input)") (auto simp: getline_shorter)

declare scan_loop.simps [simp del]

text \<open>The number of lines, what is left of the input, and the function's state.\<close>

definition scan_stream :: "(string \<Rightarrow> 's \<Rightarrow> bool \<times> 's) \<Rightarrow> string \<Rightarrow> 's \<Rightarrow> nat \<times> string \<times> 's" where
  "scan_stream func input st = scan_loop func input st 0"

text \<open>\<open>scan_file\<close>: a file that cannot be opened is an input without lines.\<close>

definition scan_file :: "(string \<Rightarrow> string option) \<Rightarrow> (string \<Rightarrow> 's \<Rightarrow> bool \<times> 's) \<Rightarrow> string \<Rightarrow> 's \<Rightarrow> nat \<times> 's" where
  "scan_file contents func path st =
     (case scan_loop func (case contents path of None \<Rightarrow> [] | Some t \<Rightarrow> t) st 0 of (n, rest, st') \<Rightarrow> (n, st'))"

text \<open>\<open>std::count_if\<close> over the entries of a directory iterator.\<close>

fun count_if :: "('e \<Rightarrow> 's \<Rightarrow> bool \<times> 's) \<Rightarrow> 'e list \<Rightarrow> 's \<Rightarrow> nat \<Rightarrow> nat \<times> 's" where
  "count_if func [] st n = (n, st)"
| "count_if func (e # es) st n = (case func e st of (b, st') \<Rightarrow> count_if func es st' (if b then n + 1 else n))"

definition scan_directory :: "('p \<Rightarrow> 'e list) \<Rightarrow> ('e \<Rightarrow> 's \<Rightarrow> bool \<times> 's) \<Rightarrow> 'p \<Rightarrow> 's \<Rightarrow> nat \<times> 's" where
  "scan_directory listing func path st = count_if func (listing path) st 0"

definition scan_recursive :: "('p \<Rightarrow> 'e list) \<Rightarrow> ('e \<Rightarrow> 's \<Rightarrow> bool \<times> 's) \<Rightarrow> 'p \<Rightarrow> 's \<Rightarrow> nat \<times> 's" where
  "scan_recursive tree func path st = count_if func (tree path) st 0"

text \<open>The loop of \<open>scan_prefix\<close>: it calls the function on every entry and counts none.\<close>

fun prefix_loop :: "('e \<Rightarrow> 's \<Rightarrow> bool \<times> 's) \<Rightarrow> 'e list \<Rightarrow> 's \<Rightarrow> nat \<Rightarrow> nat \<times> 's" where
  "prefix_loop func [] st n = (n, st)"
| "prefix_loop func (e # es) st n = prefix_loop func es (snd (func e st)) n"

definition scan_prefix :: "(string \<Rightarrow> nat option) \<Rightarrow> (nat \<Rightarrow> 'e list) \<Rightarrow> ('e \<Rightarrow> 's \<Rightarrow> bool \<times> 's) \<Rightarrow> string \<Rightarrow> 's
    \<Rightarrow> nat \<times> 's \<times> nat list" where
  "scan_prefix opendir entries func path st =
     (let d = dir_of_path opendir path in
      case prefix_loop func (case dir_ptr d of None \<Rightarrow> [] | Some p \<Rightarrow> entries p) st 0 of
        (n, st') \<Rightarrow> (n, st', dir_finish d))"

text \<open>The lines of a text, and what the function makes of a list of lines it is given in turn.\<close>

fun feed :: "(string \<Rightarrow> 's \<Rightarrow> bool \<times> 's) \<Rightarrow> string list \<Rightarrow> 's \<Rightarrow> nat \<times> 's" where
  "feed func [] st = (0, st)"
| "feed func (l # ls) st =
     (case func l st of (go_on, st') \<Rightarrow> if go_on then (case feed func ls st' of (n, st2) \<Rightarrow> (Suc n, st2)) else (0, st'))"

definition lines_text :: "string list \<Rightarrow> string" where
  "lines_text ls = concat (map (\<lambda>l. l @ [CHR 0x0A]) ls)"

lemma getline_line:
  "CHR 0x0A \<notin> set l \<Longrightarrow> getline (l @ CHR 0x0A # rest) = Some (l, rest)"
  by (induction l) (auto simp: getline_def)

lemma getline_last: "CHR 0x0A \<notin> set l \<Longrightarrow> l \<noteq> [] \<Longrightarrow> getline l = Some (l, [])"
proof -
  assume nl: "CHR 0x0A \<notin> set l" and ne: "l \<noteq> []"
  then have "\<forall>c \<in> set l. c \<noteq> CHR 0x0A" by auto
  then have "takeWhile (\<lambda>c. c \<noteq> CHR 0x0A) l = l" "dropWhile (\<lambda>c. c \<noteq> CHR 0x0A) l = []"
    by (simp_all only: takeWhile_eq_all_conv dropWhile_eq_Nil_conv)
  then show ?thesis using ne by (simp add: getline_def del: takeWhile_eq_all_conv dropWhile_eq_Nil_conv)
qed

lemma scan_loop_feeds:
  assumes "list_all (\<lambda>l. CHR 0x0A \<notin> set l) ls" and "CHR 0x0A \<notin> set last_line"
  shows "\<exists>rest. scan_loop func (lines_text ls @ last_line) st n =
    (n + fst (feed func (ls @ (if last_line = [] then [] else [last_line])) st), rest,
     snd (feed func (ls @ (if last_line = [] then [] else [last_line])) st))"
  using assms(1)
proof (induction ls arbitrary: st n)
  case Nil
  show ?case
  proof (cases "last_line = []")
    case True
    then show ?thesis by (simp add: lines_text_def scan_loop.simps [of func "[]"] getline_def)
  next
    case False
    obtain b st' where "func last_line st = (b, st')" by (cases "func last_line st")
    then show ?thesis
      using getline_last [OF assms(2) False] False
      by (simp add: lines_text_def scan_loop.simps [of func last_line] scan_loop.simps [of func "[]"] getline_def [of "[]"])
  qed
next
  case (Cons l ls)
  let ?text = "lines_text ls @ last_line"
  obtain b st' where b: "func l st = (b, st')" by (cases "func l st")
  have "getline (lines_text (l # ls) @ last_line) = Some (l, ?text)"
    using Cons.prems getline_line [of l ?text] by (simp add: lines_text_def)
  then have step: "scan_loop func (lines_text (l # ls) @ last_line) st n =
      (if b then scan_loop func ?text st' (n + 1) else (n, ?text, st'))"
    using b by (simp add: scan_loop.simps [of func "lines_text (l # ls) @ last_line"])
  obtain rest where "scan_loop func ?text st' (n + 1) =
    (n + 1 + fst (feed func (ls @ (if last_line = [] then [] else [last_line])) st'), rest,
     snd (feed func (ls @ (if last_line = [] then [] else [last_line])) st'))"
    using Cons.IH [of st' "n + 1"] Cons.prems by auto
  then show ?case using step b by (auto split: prod.splits)
qed

text \<open>
  \<open>scan_stream\<close> gives the function the lines of the text in order, without their newlines
  and with an unfinished last line, until the function declines one, and counts the lines it
  took.
\<close>

theorem scan_stream_feeds:
  assumes "list_all (\<lambda>l. CHR 0x0A \<notin> set l) ls" and "CHR 0x0A \<notin> set last_line"
  shows "(case scan_stream func (lines_text ls @ last_line) st of (n, rest, st') \<Rightarrow> (n, st')) =
    feed func (ls @ (if last_line = [] then [] else [last_line])) st"
  using scan_loop_feeds [OF assms, of func st 0] by (auto simp: scan_stream_def)

lemma scan_stream_feeds_witness:
  "(case scan_stream (\<lambda>l ls. (l \<noteq> ''end'', ls @ [l])) (lines_text [''a'', ''''] @ ''end'') [] of (n, rest, st') \<Rightarrow> (n, st'))
   = (2, [''a'', '''', ''end''])"
  using scan_stream_feeds [of "[''a'', '''']" "''end''" "\<lambda>l ls. (l \<noteq> ''end'', ls @ [l])" "[]"] by simp

lemma count_if_filter:
  "count_if (\<lambda>e st. (P e, st)) es st n = (n + length (filter P es), st)"
  by (induction es arbitrary: n) simp_all

lemma prefix_loop_eq: "prefix_loop func es st n = (n, fold (\<lambda>e st. snd (func e st)) es st)"
  by (induction es arbitrary: st) simp_all

text \<open>
  \<open>scan_directory\<close> and \<open>scan_recursive\<close> return the number of entries the function accepts,
  but \<open>scan_prefix\<close> always returns 0, whatever the function answers; it calls it on every
  entry and closes the directory it opened.
\<close>

theorem directory_counts:
  "fst (scan_directory listing (\<lambda>e st. (P e, st)) path st) = length (filter P (listing path))
   \<and> fst (scan_recursive listing (\<lambda>e st. (P e, st)) path st) = length (filter P (listing path))
   \<and> (case scan_prefix opendir entries func dirname st2 of (n, st', closed) \<Rightarrow> n = 0
        \<and> st' = fold (\<lambda>e st. snd (func e st)) (case opendir dirname of None \<Rightarrow> [] | Some p \<Rightarrow> entries p) st2
        \<and> closed = duty_list (opendir dirname))"
  by (simp add: scan_directory_def scan_recursive_def count_if_filter scan_prefix_def prefix_loop_eq dir_of_path_def
      dir_finish_def dir_release_def Let_def split: option.split)

end
