(* ===== verification/Stack_Threads.thy ===== *)
theory Stack_Threads
  imports Atomic_Stack Run_Contract
begin

text \<open>
  \<open>push\<close>, \<open>pull\<close> and \<open>pop\<close> of \<open>stack_t\<close> (\<open>src/src/atomic.hpp\<close>) by several threads, with one
  step for each access to shared memory: the fetch that starts a call, and the access to the
  slot or the fetch that takes the count back. A thread remembers the count it fetched.
  The items that a push was given a slot for are recorded in order, and so are the refusals
  and what the pulls returned.
\<close>

section \<open>The steps\<close>

datatype 'a st_phase = Resting | Pushing u32 'a | Pulling u32

record 'a st_world =
  sw_stack :: "'a stack"
  sw_threads :: "'a st_phase list"
  sw_got :: "'a list"
  sw_refused :: nat
  sw_out :: "'a option res list"

datatype 'a st_move = Push_call nat 'a | Pull_call nat | Finish nat

definition st_initial :: "'a list \<Rightarrow> nat \<Rightarrow> 'a st_world" where
  "st_initial data n = \<lparr>sw_stack = stk_new data, sw_threads = replicate n Resting, sw_got = [], sw_refused = 0, sw_out = []\<rparr>"

definition add_count :: "u32 \<Rightarrow> 'a stack \<Rightarrow> 'a stack" where
  "add_count d s = s\<lparr>stk_count := stk_count s + d\<rparr>"

definition push_begin :: "nat \<Rightarrow> 'a \<Rightarrow> 'a st_world \<Rightarrow> 'a st_world" where
  "push_begin t x w =
     (let count = stk_count (sw_stack w) in
      w\<lparr>sw_stack := add_count 1 (sw_stack w), sw_threads := (sw_threads w)[t := Pushing count x],
        sw_got := sw_got w @ (if as_size count \<ge> capacity (sw_stack w) then [] else [x])\<rparr>)"

definition push_end :: "nat \<Rightarrow> u32 \<Rightarrow> 'a \<Rightarrow> 'a st_world \<Rightarrow> 'a st_world" where
  "push_end t count x w =
     (let s = sw_stack w; w1 = w\<lparr>sw_threads := (sw_threads w)[t := Resting]\<rparr> in
      if as_size count \<ge> capacity s then w1\<lparr>sw_stack := add_count (- 1) s, sw_refused := sw_refused w + 1\<rparr>
      else w1\<lparr>sw_stack := s\<lparr>stk_data := (stk_data s)[as_size count := x]\<rparr>\<rparr>)"

text \<open>\<open>pull\<close> and \<open>pop\<close> take the same steps.\<close>

definition pull_begin :: "nat \<Rightarrow> 'a st_world \<Rightarrow> 'a st_world" where
  "pull_begin t w =
     w\<lparr>sw_stack := add_count (- 1) (sw_stack w), sw_threads := (sw_threads w)[t := Pulling (stk_count (sw_stack w))]\<rparr>"

definition pull_end :: "nat \<Rightarrow> u32 \<Rightarrow> 'a st_world \<Rightarrow> 'a st_world" where
  "pull_end t count w =
     (let s = sw_stack w; w1 = w\<lparr>sw_threads := (sw_threads w)[t := Resting]\<rparr> in
      if sint count < 0 then w1\<lparr>sw_stack := add_count 1 s, sw_out := sw_out w @ [Inr None]\<rparr>
      else if as_size count < capacity s then w1\<lparr>sw_out := sw_out w @ [Inr (Some (stk_data s ! as_size count))]\<rparr>
      else w1\<lparr>sw_out := sw_out w @ [Inl Undefined]\<rparr>)"

fun st_do :: "'a st_move \<Rightarrow> 'a st_world \<Rightarrow> 'a st_world option" where
  "st_do (Push_call t x) w =
     (if t < length (sw_threads w) \<and> sw_threads w ! t = Resting then Some (push_begin t x w) else None)"
| "st_do (Pull_call t) w =
     (if t < length (sw_threads w) \<and> sw_threads w ! t = Resting then Some (pull_begin t w) else None)"
| "st_do (Finish t) w =
     (if t < length (sw_threads w)
      then case sw_threads w ! t of
          Resting \<Rightarrow> None
        | Pushing count x \<Rightarrow> Some (push_end t count x w)
        | Pulling count \<Rightarrow> Some (pull_end t count w)
      else None)"

abbreviation st_run :: "'a st_move list \<Rightarrow> 'a st_world \<Rightarrow> 'a st_world option" where
  "st_run \<equiv> run_moves st_do"

text \<open>A call that nothing interrupts is the call of the sequential stack.\<close>

lemma uninterrupted_push:
  "sw_stack (push_end t (stk_count (sw_stack w)) x (push_begin t x w)) = snd (stk_push x (sw_stack w))"
  by (simp add: push_end_def push_begin_def stk_push_def add_count_def capacity_def Let_def)

lemma uninterrupted_pull:
  "(let w' = pull_end t (stk_count (sw_stack w)) (pull_begin t w) in
     sw_stack w' = snd (stk_pull (sw_stack w)) \<and> sw_out w' = sw_out w @ [fst (stk_pull (sw_stack w))])"
  by (simp add: pull_end_def pull_begin_def stk_pull_def add_count_def capacity_def Let_def)

section \<open>Races\<close>

fun slot :: "nat \<Rightarrow> 'a st_phase \<Rightarrow> nat option" where
  "slot cap Resting = None"
| "slot cap (Pushing count x) = (if as_size count < cap then Some (as_size count) else None)"
| "slot cap (Pulling count) = (if \<not> sint count < 0 \<and> as_size count < cap then Some (as_size count) else None)"

fun writes :: "'a st_phase \<Rightarrow> bool" where
  "writes (Pushing count x) = True"
| "writes _ = False"

text \<open>Two threads are about to access one slot, and one of them to write it: undefined in C++.\<close>

definition st_race :: "'a st_world \<Rightarrow> bool" where
  "st_race w = (\<exists>t < length (sw_threads w). \<exists>u < length (sw_threads w). t \<noteq> u \<and> writes (sw_threads w ! t)
     \<and> slot (capacity (sw_stack w)) (sw_threads w ! t) \<noteq> None
     \<and> slot (capacity (sw_stack w)) (sw_threads w ! t) = slot (capacity (sw_stack w)) (sw_threads w ! u))"

section \<open>Pushes alone\<close>

fun is_pull :: "'a st_move \<Rightarrow> bool" where
  "is_pull (Pull_call t) = True"
| "is_pull _ = False"

fun pushes :: "'a st_move list \<Rightarrow> 'a list" where
  "pushes [] = []"
| "pushes (Push_call t x # ms) = x # pushes ms"
| "pushes (_ # ms) = pushes ms"

fun over :: "nat \<Rightarrow> 'a st_phase \<Rightarrow> bool" where
  "over cap (Pushing count x) = (as_size count \<ge> cap)"
| "over cap _ = False"

definition overs :: "'a st_world \<Rightarrow> nat" where
  "overs w = length (filter (over (capacity (sw_stack w))) (sw_threads w))"

definition pusher_fits :: "nat \<Rightarrow> 'a list \<Rightarrow> 'a st_phase \<Rightarrow> bool" where
  "pusher_fits cap got p = (case p of
     Resting \<Rightarrow> True
   | Pushing count x \<Rightarrow> as_size count < cap \<longrightarrow> as_size count < length got \<and> got ! as_size count = x
   | Pulling count \<Rightarrow> False)"

definition st_inv :: "'a st_world \<Rightarrow> bool" where
  "st_inv w = (capacity (sw_stack w) + length (sw_threads w) < 2 ^ 31
     \<and> length (sw_got w) \<le> capacity (sw_stack w)
     \<and> stk_count (sw_stack w) = word_of_nat (length (sw_got w) + overs w)
     \<and> (0 < overs w + sw_refused w \<longrightarrow> length (sw_got w) = capacity (sw_stack w))
     \<and> list_all (pusher_fits (capacity (sw_stack w)) (sw_got w)) (sw_threads w)
     \<and> \<not> st_race w
     \<and> (\<forall>i < length (sw_got w). stk_data (sw_stack w) ! i = sw_got w ! i
          \<or> Some i \<in> slot (capacity (sw_stack w)) ` set (sw_threads w)))"

lemma image_update:
  "t < length ts \<Longrightarrow> f (ts ! t) \<noteq> Some i \<Longrightarrow> Some i \<in> f ` set ts \<Longrightarrow> Some i \<in> f ` set (ts[t := p])"
  by (force simp: in_set_conv_nth image_iff nth_list_update)

lemma race_update:
  assumes "\<not> st_race w" and "t < length (sw_threads w)" and "capacity s = capacity (sw_stack w)"
    and new: "slot (capacity s) p = None \<or>
      (\<forall>u < length (sw_threads w). u \<noteq> t \<longrightarrow> slot (capacity s) (sw_threads w ! u) \<noteq> slot (capacity s) p)"
  shows "\<not> st_race (w\<lparr>sw_stack := s, sw_threads := (sw_threads w)[t := p], sw_got := g, sw_refused := r\<rparr>)"
  using assms unfolding st_race_def by (auto simp: nth_list_update split: if_splits)

lemma overs_update:
  assumes "t < length (sw_threads w)" and "sw_threads w' = (sw_threads w)[t := p]"
    and "capacity (sw_stack w') = capacity (sw_stack w)"
  shows "overs w' + of_bool (over (capacity (sw_stack w)) (sw_threads w ! t))
    = overs w + of_bool (over (capacity (sw_stack w)) p)"
  using filter_update [OF assms(1), of "over (capacity (sw_stack w))" p] assms(2,3) by (simp add: overs_def)

lemma overs_le: "overs w \<le> length (sw_threads w)"
  by (simp add: overs_def)

lemma fits_append: "pusher_fits cap got p \<Longrightarrow> pusher_fits cap (got @ xs) p"
  by (auto simp: pusher_fits_def nth_append split: st_phase.splits)

lemma fits_slot: "pusher_fits cap got p \<Longrightarrow> slot cap p = Some i \<Longrightarrow> i < length got"
  by (cases p) (auto simp: pusher_fits_def split: if_splits)

lemma inv_count: "st_inv w \<Longrightarrow> as_size (stk_count (sw_stack w)) = length (sw_got w) + overs w"
  using overs_le [of w] as_size_of_nat [of "length (sw_got w) + overs w"] by (simp add: st_inv_def)

lemma capacity_add [simp]: "capacity (add_count d s) = capacity s"
  by (simp add: add_count_def capacity_def)

lemma count_add [simp]: "stk_count (add_count d s) = stk_count s + d" "stk_data (add_count d s) = stk_data s"
  by (simp_all add: add_count_def)

lemma push_granted_inv:
  assumes inv: "st_inv w" and t: "t < length (sw_threads w)" and rest: "sw_threads w ! t = Resting"
    and room: "as_size (stk_count (sw_stack w)) < capacity (sw_stack w)"
  shows "st_inv (push_begin t x w)"
proof -
  let ?c = "stk_count (sw_stack w)" and ?S = "capacity (sw_stack w)" and ?p = "Pushing (stk_count (sw_stack w)) x"
  have none: "overs w = 0" and refused: "sw_refused w = 0" and c: "as_size ?c = length (sw_got w)"
    using inv inv_count [OF inv] room by (auto simp: st_inv_def)
  have w': "push_begin t x w = w\<lparr>sw_stack := add_count 1 (sw_stack w), sw_threads := (sw_threads w)[t := ?p],
      sw_got := sw_got w @ [x], sw_refused := sw_refused w\<rparr>"
    using room by (simp add: push_begin_def)
  have ov: "overs (push_begin t x w) = 0"
    using overs_update [OF t, of "push_begin t x w" ?p] room none rest unfolding w' by simp
  have fits: "list_all (pusher_fits ?S (sw_got w)) (sw_threads w)" using inv by (simp add: st_inv_def)
  then have below: "slot ?S (sw_threads w ! u) \<noteq> Some (length (sw_got w))" if "u < length (sw_threads w)" for u
    using that fits_slot by (fastforce simp: list_all_length)
  have "\<not> st_race (push_begin t x w)"
    unfolding w' by (rule race_update) (use inv t below room c in \<open>auto simp: st_inv_def\<close>)
  moreover have "list_all (pusher_fits ?S (sw_got w @ [x])) ((sw_threads w)[t := ?p])"
  proof (rule list_all_update)
    show "list_all (pusher_fits ?S (sw_got w @ [x])) (sw_threads w)"
      using fits by (simp add: list_all_iff fits_append)
    show "pusher_fits ?S (sw_got w @ [x]) ?p" using c by (simp add: pusher_fits_def)
  qed
  moreover have "stk_data (sw_stack w) ! i = (sw_got w @ [x]) ! i \<or> Some i \<in> slot ?S ` set ((sw_threads w)[t := ?p])"
    if "i < Suc (length (sw_got w))" for i
  proof (cases "i = length (sw_got w)")
    case True
    have "?p \<in> set ((sw_threads w)[t := ?p])" using t by (simp add: set_update_memI)
    then show ?thesis using True c room by force
  next
    case False
    then have "stk_data (sw_stack w) ! i = sw_got w ! i \<or> Some i \<in> slot ?S ` set (sw_threads w)"
      using inv that by (simp add: st_inv_def)
    then show ?thesis using False that image_update [OF t, of "slot ?S" i ?p] rest by (auto simp: nth_append)
  qed
  ultimately show ?thesis
    using inv ov none refused room c t by (simp add: st_inv_def w')
qed

lemma push_refused_inv:
  assumes inv: "st_inv w" and t: "t < length (sw_threads w)" and rest: "sw_threads w ! t = Resting"
    and full: "\<not> as_size (stk_count (sw_stack w)) < capacity (sw_stack w)"
  shows "st_inv (push_begin t x w)"
proof -
  let ?c = "stk_count (sw_stack w)" and ?S = "capacity (sw_stack w)" and ?p = "Pushing (stk_count (sw_stack w)) x"
  have g: "length (sw_got w) = ?S"
    using inv inv_count [OF inv] full by (auto simp: st_inv_def)
  have w': "push_begin t x w = w\<lparr>sw_stack := add_count 1 (sw_stack w), sw_threads := (sw_threads w)[t := ?p],
      sw_got := sw_got w, sw_refused := sw_refused w\<rparr>"
    using full by (simp add: push_begin_def)
  have ov: "overs (push_begin t x w) = Suc (overs w)"
    using overs_update [OF t, of "push_begin t x w" ?p] full rest unfolding w' by simp
  have "\<not> st_race (push_begin t x w)"
    unfolding w' by (rule race_update) (use inv t full in \<open>auto simp: st_inv_def\<close>)
  moreover have "list_all (pusher_fits ?S (sw_got w)) ((sw_threads w)[t := ?p])"
    using inv full by (intro list_all_update) (auto simp: st_inv_def pusher_fits_def)
  moreover have "stk_data (sw_stack w) ! i = sw_got w ! i \<or> Some i \<in> slot ?S ` set ((sw_threads w)[t := ?p])"
    if "i < length (sw_got w)" for i
    using inv that image_update [OF t, of "slot ?S" i ?p] rest unfolding st_inv_def by auto
  ultimately show ?thesis
    using inv ov g t by (simp add: st_inv_def w')
qed

lemma push_write_inv:
  assumes inv: "st_inv w" and t: "t < length (sw_threads w)" and p: "sw_threads w ! t = Pushing c x"
    and room: "as_size c < capacity (sw_stack w)"
  shows "st_inv (push_end t c x w)"
proof -
  let ?S = "capacity (sw_stack w)" and ?s = "(sw_stack w)\<lparr>stk_data := (stk_data (sw_stack w))[as_size c := x]\<rparr>"
  have w': "push_end t c x w = w\<lparr>sw_stack := ?s, sw_threads := (sw_threads w)[t := Resting],
      sw_got := sw_got w, sw_refused := sw_refused w\<rparr>"
    using room by (simp add: push_end_def Let_def)
  have cap: "capacity ?s = ?S" by (simp add: capacity_def)
  have ov: "overs (push_end t c x w) = overs w"
    using overs_update [OF t, of "push_end t c x w" Resting] cap room p unfolding w' by simp
  have fits: "list_all (pusher_fits ?S (sw_got w)) (sw_threads w)" using inv by (simp add: st_inv_def)
  then have mine: "sw_got w ! as_size c = x"
    using t p room by (fastforce simp: list_all_length pusher_fits_def)
  have "\<not> st_race (push_end t c x w)"
    unfolding w' by (rule race_update) (use inv t cap in \<open>auto simp: st_inv_def\<close>)
  moreover have "list_all (pusher_fits ?S (sw_got w)) ((sw_threads w)[t := Resting])"
    using fits by (intro list_all_update) (auto simp: pusher_fits_def)
  moreover have "stk_data ?s ! i = sw_got w ! i \<or> Some i \<in> slot ?S ` set ((sw_threads w)[t := Resting])"
    if "i < length (sw_got w)" for i
  proof (cases "i = as_size c")
    case True
    then show ?thesis using mine room by (simp add: capacity_def)
  next
    case False
    then show ?thesis using inv that image_update [OF t, of "slot ?S" i Resting] p room unfolding st_inv_def by auto
  qed
  ultimately show ?thesis
    using inv ov t cap by (simp add: st_inv_def w')
qed

lemma push_back_off_inv:
  assumes inv: "st_inv w" and t: "t < length (sw_threads w)" and p: "sw_threads w ! t = Pushing c x"
    and full: "\<not> as_size c < capacity (sw_stack w)"
  shows "st_inv (push_end t c x w)"
proof -
  let ?S = "capacity (sw_stack w)"
  have w': "push_end t c x w = w\<lparr>sw_stack := add_count (- 1) (sw_stack w), sw_threads := (sw_threads w)[t := Resting],
      sw_got := sw_got w, sw_refused := Suc (sw_refused w)\<rparr>"
    using full by (simp add: push_end_def Let_def)
  have ov: "Suc (overs (push_end t c x w)) = overs w"
    using overs_update [OF t, of "push_end t c x w" Resting] full p unfolding w' by simp
  then have g: "length (sw_got w) = ?S" using inv by (auto simp: st_inv_def)
  have count: "word_of_nat (length (sw_got w) + overs w) - 1 = (word_of_nat (length (sw_got w) + overs (push_end t c x w)) :: u32)"
    unfolding ov [symmetric] by simp
  have "\<not> st_race (push_end t c x w)"
    unfolding w' by (rule race_update) (use inv t in \<open>auto simp: st_inv_def\<close>)
  moreover have "list_all (pusher_fits ?S (sw_got w)) ((sw_threads w)[t := Resting])"
    using inv by (intro list_all_update) (auto simp: st_inv_def pusher_fits_def)
  moreover have "stk_data (sw_stack w) ! i = sw_got w ! i \<or> Some i \<in> slot ?S ` set ((sw_threads w)[t := Resting])"
    if "i < length (sw_got w)" for i
    using inv that image_update [OF t, of "slot ?S" i Resting] p full unfolding st_inv_def by auto
  ultimately show ?thesis
    using inv count g by (simp add: st_inv_def) (simp add: w' capacity_def)
qed

lemma st_do_inv:
  assumes inv: "st_inv w" and "st_do m w = Some w'" and "\<not> is_pull m"
  shows "st_inv w'"
proof (cases m)
  case (Push_call t x)
  then have "t < length (sw_threads w)" "sw_threads w ! t = Resting" "w' = push_begin t x w"
    using assms(2) by (auto split: if_splits)
  then show ?thesis using push_granted_inv [OF inv] push_refused_inv [OF inv] by blast
next
  case (Finish t)
  then have t: "t < length (sw_threads w)" using assms(2) by (auto split: if_splits)
  then have "pusher_fits (capacity (sw_stack w)) (sw_got w) (sw_threads w ! t)"
    using inv by (simp add: st_inv_def list_all_length)
  then obtain c x where p: "sw_threads w ! t = Pushing c x" "w' = push_end t c x w"
    using assms(2) Finish t by (cases "sw_threads w ! t") (auto simp: pusher_fits_def)
  then show ?thesis using push_write_inv [OF inv t p(1)] push_back_off_inv [OF inv t p(1)] by blast
qed (use assms(3) in simp)

text \<open>The items that were given slots are the first ones pushed.\<close>

lemma st_do_got:
  assumes inv: "st_inv w" and "st_do m w = Some w'" and "\<not> is_pull m"
  shows "capacity (sw_stack w') = capacity (sw_stack w) \<and> length (sw_threads w') = length (sw_threads w)
    \<and> sw_got w' = take (capacity (sw_stack w)) (sw_got w @ pushes [m])"
proof (cases m)
  case (Push_call t x)
  then have w': "w' = push_begin t x w" using assms(2) by (auto split: if_splits)
  have "length (sw_got w) = capacity (sw_stack w)" if "\<not> as_size (stk_count (sw_stack w)) < capacity (sw_stack w)"
    using inv inv_count [OF inv] that by (auto simp: st_inv_def)
  moreover have "length (sw_got w) < capacity (sw_stack w)" if "as_size (stk_count (sw_stack w)) < capacity (sw_stack w)"
    using inv_count [OF inv] that by simp
  ultimately show ?thesis unfolding w' Push_call by (auto simp: push_begin_def Let_def)
next
  case (Finish t)
  then show ?thesis
    using assms(2) inv
    by (auto simp: push_end_def pull_end_def capacity_def st_inv_def Let_def split: if_splits st_phase.splits)
qed (use assms(3) in simp)

definition total :: "'a st_world \<Rightarrow> nat" where
  "total w = length (sw_got w) + overs w + sw_refused w"

lemma st_do_total:
  assumes "st_do m w = Some w'" and "\<not> is_pull m" and inv: "st_inv w"
  shows "total w' = total w + length (pushes [m])"
proof (cases m)
  case (Push_call t x)
  then have t: "t < length (sw_threads w)" "sw_threads w ! t = Resting" and w': "w' = push_begin t x w"
    using assms(1) by (auto split: if_splits)
  then show ?thesis
    using overs_update [of t w "push_begin t x w" "Pushing (stk_count (sw_stack w)) x"] Push_call
    by (auto simp: total_def push_begin_def Let_def)
next
  case (Finish t)
  then have t: "t < length (sw_threads w)" using assms(1) by (auto split: if_splits)
  then have "pusher_fits (capacity (sw_stack w)) (sw_got w) (sw_threads w ! t)"
    using inv by (simp add: st_inv_def list_all_length)
  then obtain c x where p: "sw_threads w ! t = Pushing c x" "w' = push_end t c x w"
    using assms(1) Finish t by (cases "sw_threads w ! t") (auto simp: pusher_fits_def)
  have parts: "sw_threads w' = (sw_threads w)[t := Resting]" "capacity (sw_stack w') = capacity (sw_stack w)"
    "sw_got w' = sw_got w" "sw_refused w' = sw_refused w + of_bool (capacity (sw_stack w) \<le> as_size c)"
    unfolding p(2) push_end_def Let_def by (simp_all add: capacity_def)
  then show ?thesis
    using overs_update [OF t parts(1,2)] p(1) Finish by (simp add: total_def)
qed (use assms(2) in simp)

lemma pushes_Cons: "pushes (m # ms) = pushes [m] @ pushes ms"
  by (cases m) simp_all

interpretation pushing: run_effect st_do st_inv is_pull "\<lambda>ms w w'.
    capacity (sw_stack w') = capacity (sw_stack w)
    \<and> sw_got w' = take (capacity (sw_stack w)) (sw_got w @ pushes ms) \<and> total w' = total w + length (pushes ms)"
proof
  fix w :: "'a st_world"
  assume "st_inv w"
  then show "capacity (sw_stack w) = capacity (sw_stack w)
    \<and> sw_got w = take (capacity (sw_stack w)) (sw_got w @ pushes []) \<and> total w = total w + length (pushes ([] :: 'a st_move list))"
    by (simp add: st_inv_def)
next
  fix m :: "'a st_move" and ms and w w1 w2 :: "'a st_world"
  assume "st_inv w" and "st_do m w = Some w1" and "\<not> is_pull m"
    and "capacity (sw_stack w2) = capacity (sw_stack w1)
      \<and> sw_got w2 = take (capacity (sw_stack w1)) (sw_got w1 @ pushes ms) \<and> total w2 = total w1 + length (pushes ms)"
  with st_do_got [of w m w1] st_do_total [of m w w1]
  show "capacity (sw_stack w2) = capacity (sw_stack w)
    \<and> sw_got w2 = take (capacity (sw_stack w)) (sw_got w @ pushes (m # ms)) \<and> total w2 = total w + length (pushes (m # ms))"
    by (simp add: pushes_Cons [of m ms] take_add [symmetric] min_def)
qed (rule st_do_inv)

lemma st_inv_initial: "length data + n < 2 ^ 31 \<Longrightarrow> st_inv (st_initial data n)"
  by (auto simp: st_inv_def st_initial_def stk_new_def capacity_def overs_def pusher_fits_def st_race_def list_all_iff)

text \<open>
  C10: however any number of threads interleave their pushes on a new \<open>stack_t\<close> of \<open>S\<close> slots, the
  first \<open>S\<close> items pushed get slots in their order and all later pushes are refused; no two
  threads ever access one slot; and when all calls have returned the count is the number of
  those items and they are in the slots below it. Slots and threads together are fewer than
  \<open>2 ^ 31\<close>, so that the count, which every thread may have raised once too often, does not overflow.
\<close>

theorem concurrent_pushes_fill_slots:
  assumes "st_run ms (st_initial data n) = Some w" and "\<not> list_ex is_pull ms" and "length data + n < 2 ^ 31"
  shows "\<not> st_race w
    \<and> (list_all ((=) Resting) (sw_threads w) \<longrightarrow>
        holds (sw_stack w) (take (length data) (pushes ms)) \<and> sw_refused w = length (pushes ms) - length data)"
proof (intro conjI impI)
  note run = pushing.run_has_effect [OF st_inv_initial [OF assms(3)] assms(1,2)]
  have start: "capacity (sw_stack (st_initial data n)) = length data" "sw_got (st_initial data n) = []"
    "total (st_initial data n) = 0"
    by (simp_all add: st_initial_def stk_new_def capacity_def total_def overs_def)
  then have inv: "st_inv w" and got: "sw_got w = take (length data) (pushes ms)"
    and cap: "capacity (sw_stack w) = length data" and total: "total w = length (pushes ms)"
    using run by simp_all
  show "\<not> st_race w" using inv by (simp add: st_inv_def)
  assume "list_all ((=) Resting) (sw_threads w)"
  then have rest: "set (sw_threads w) \<subseteq> {Resting}" by (auto simp: list_all_iff)
  then have none: "overs w = 0" by (auto simp: overs_def filter_empty_conv)
  have unused: "Some i \<notin> slot (capacity (sw_stack w)) ` set (sw_threads w)" for i
    using image_mono [OF rest, of "slot (capacity (sw_stack w))"] by auto
  have "stk_data (sw_stack w) ! i = sw_got w ! i" if "i < length (sw_got w)" for i
  proof -
    have "stk_data (sw_stack w) ! i = sw_got w ! i \<or> Some i \<in> slot (capacity (sw_stack w)) ` set (sw_threads w)"
      using inv that by (simp add: st_inv_def)
    then show ?thesis using unused [of i] by blast
  qed
  moreover have "length (sw_got w) \<le> length (stk_data (sw_stack w))" using inv by (simp add: st_inv_def capacity_def)
  ultimately have "take (length (sw_got w)) (stk_data (sw_stack w)) = sw_got w"
    by (intro nth_equalityI) simp_all
  then show "holds (sw_stack w) (take (length data) (pushes ms))"
    using inv none cap unfolding got [symmetric] by (auto simp: holds_def st_inv_def)
  show "sw_refused w = length (pushes ms) - length data"
    using total none got inv by (auto simp: total_def st_inv_def cap)
qed

lemma as_size_small: "as_size 0 = 0" "as_size 1 = 1" "as_size 2 = 2" "as_size 3 = 3"
  using as_size_of_nat [of 0] as_size_of_nat [of 1] as_size_of_nat [of 2] as_size_of_nat [of 3] by simp_all

lemmas st_calc = st_initial_def push_begin_def push_end_def pull_begin_def pull_end_def Let_def add_count_def
  capacity_def stk_new_def as_size_small eval_nat_numeral

lemma concurrent_pushes_fill_slots_witness:
  "\<exists>w. st_run [Push_call 0 ''a'', Push_call 1 ''b'', Finish 1, Push_call 1 ''c'', Push_call 2 ''d'', Finish 2, Finish 0, Finish 1]
      (st_initial [[], [], []] 3) = Some w \<and> holds (sw_stack w) [''a'', ''b'', ''c''] \<and> sw_refused w = 1"
proof -
  let ?ms = "[Push_call 0 ''a'', Push_call 1 ''b'', Finish 1, Push_call 1 ''c'', Push_call 2 ''d'', Finish 2, Finish 0, Finish 1]"
  have "st_run ?ms (st_initial [[], [], []] 3) \<noteq> None"
    by (simp add: st_calc)
  then obtain w where w: "st_run ?ms (st_initial [[], [], []] 3) = Some w" by blast
  then have "sw_threads w = [Resting, Resting, Resting]"
    by (auto simp: st_calc)
  with concurrent_pushes_fill_slots [OF w] w show ?thesis by simp
qed

section \<open>Pushes and pulls\<close>

text \<open>
  A pull races with a push: thread 0 has pushed an item, thread 1 has reserved the next slot
  and not written it, and of two pulls that start then the second is about to read that slot.
\<close>

lemma pull_races_push:
  "case st_run [Push_call 0 ''a'', Finish 0, Push_call 0 ''b'', Pull_call 1, Pull_call 2] (st_initial [[], [], [], []] 3) of
     None \<Rightarrow> False | Some w \<Rightarrow> st_race w"
  by (simp add: st_calc st_race_def)
    (rule exI [of _ 0], simp add: as_size_small, rule exI [of _ "Suc (Suc 0)"], simp add: as_size_small)

end
