(* ===== verification/Ring_Threads.thy ===== *)
theory Ring_Threads
  imports Atomic_Ring Run_Contract
begin

text \<open>
  \<open>push\<close> and \<open>pull\<close> of \<open>buffer_t\<close> (\<open>src/src/atomic.hpp\<close>) by one producer and one consumer, the
  use that its loads and stores are made for, with one step for each access to shared memory.
  \<open>pop\<close> takes the steps of \<open>pull\<close> and differs in what it returns.
\<close>

section \<open>The steps\<close>

text \<open>
  The producer has loaded the tail; has found room and is about to write the slot; has written it
  and is about to store the tail. The consumer has loaded the head; has found an item and is
  about to read the slot; has read it and is about to store the tail that it loaded.
\<close>

datatype 'a push_phase = No_push | Has_tail nat 'a | Writing nat nat 'a | Storing nat nat 'a

datatype 'a pull_phase = No_pull | Has_head nat | Reading nat nat | Restoring nat 'a

record 'a ring_world =
  rw_ring :: "'a ring"
  rw_push :: "'a push_phase"
  rw_pull :: "'a pull_phase"
  rw_pushed :: "'a list"
  rw_out :: "'a option list"

datatype 'a ring_move = Call_push 'a | Call_pull | Push_on | Pull_on

definition rw_initial :: "'a list \<Rightarrow> 'a ring_world" where
  "rw_initial data = \<lparr>rw_ring = rg_new data, rw_push = No_push, rw_pull = No_pull, rw_pushed = [], rw_out = []\<rparr>"

definition ring_push_step :: "'a ring_world \<Rightarrow> 'a ring_world option" where
  "ring_push_step w = (case rw_push w of
     No_push \<Rightarrow> None
   | Has_tail tail item \<Rightarrow>
       (let nxt = rg_next (length (rg_data (rw_ring w))) tail in
        Some (w\<lparr>rw_push := (if nxt = rg_head (rw_ring w) then No_push else Writing tail nxt item)\<rparr>))
   | Writing tail nxt item \<Rightarrow>
       Some (w\<lparr>rw_ring := (rw_ring w)\<lparr>rg_data := (rg_data (rw_ring w))[tail := item]\<rparr>, rw_push := Storing tail nxt item\<rparr>)
   | Storing tail nxt item \<Rightarrow>
       Some (w\<lparr>rw_ring := (rw_ring w)\<lparr>rg_tail := nxt\<rparr>, rw_push := No_push, rw_pushed := rw_pushed w @ [item]\<rparr>))"

definition ring_pull_step :: "'a ring_world \<Rightarrow> 'a ring_world option" where
  "ring_pull_step w = (case rw_pull w of
     No_pull \<Rightarrow> None
   | Has_head head \<Rightarrow>
       (let tail = rg_tail (rw_ring w) in
        Some (if head = tail then w\<lparr>rw_pull := No_pull, rw_out := rw_out w @ [None]\<rparr> else w\<lparr>rw_pull := Reading head tail\<rparr>))
   | Reading head tail \<Rightarrow> Some (w\<lparr>rw_pull := Restoring tail (rg_data (rw_ring w) ! head)\<rparr>)
   | Restoring tail item \<Rightarrow>
       Some (w\<lparr>rw_ring := (rw_ring w)\<lparr>rg_tail := tail\<rparr>, rw_pull := No_pull, rw_out := rw_out w @ [Some item]\<rparr>))"

fun ring_do :: "'a ring_move \<Rightarrow> 'a ring_world \<Rightarrow> 'a ring_world option" where
  "ring_do (Call_push item) w =
     (if rw_push w = No_push then Some (w\<lparr>rw_push := Has_tail (rg_tail (rw_ring w)) item\<rparr>) else None)"
| "ring_do Call_pull w =
     (if rw_pull w = No_pull then Some (w\<lparr>rw_pull := Has_head (rg_head (rw_ring w))\<rparr>) else None)"
| "ring_do Push_on w = ring_push_step w"
| "ring_do Pull_on w = ring_pull_step w"

abbreviation ring_run :: "'a ring_move list \<Rightarrow> 'a ring_world \<Rightarrow> 'a ring_world option" where
  "ring_run \<equiv> run_moves ring_do"

text \<open>Calls that nothing interrupts are those of the sequential ring.\<close>

lemma uninterrupted_ring_push:
  "rw_push w = No_push \<Longrightarrow>
     case ring_run (if fst (rg_push x (rw_ring w)) then [Call_push x, Push_on, Push_on, Push_on] else [Call_push x, Push_on]) w of
       None \<Rightarrow> False
     | Some w' \<Rightarrow> rw_ring w' = snd (rg_push x (rw_ring w)) \<and> rw_push w' = No_push"
  by (simp add: rg_push_def ring_push_step_def Let_def)

lemma uninterrupted_ring_pull:
  "rw_pull w = No_pull \<Longrightarrow>
     case ring_run (if fst (rg_pull (rw_ring w)) = None then [Call_pull, Pull_on] else [Call_pull, Pull_on, Pull_on, Pull_on]) w of
       None \<Rightarrow> False
     | Some w' \<Rightarrow> rw_ring w' = snd (rg_pull (rw_ring w)) \<and> rw_out w' = rw_out w @ [fst (rg_pull (rw_ring w))]"
  by (simp add: rg_pull_def ring_pull_step_def Let_def)

section \<open>What a producer and a consumer see\<close>

text \<open>The producer is about to write the slot that the consumer is about to read.\<close>

definition ring_race :: "'a ring_world \<Rightarrow> bool" where
  "ring_race w = (case (rw_push w, rw_pull w) of (Writing tail nxt item, Reading head t) \<Rightarrow> tail = head | _ \<Rightarrow> False)"

text \<open>
  The head stays 0. The tail is 0 until the first item is stored and never again, and a call that
  loaded it as 0 is that first push.
\<close>

definition producer_fits :: "'a ring \<Rightarrow> 'a push_phase \<Rightarrow> bool" where
  "producer_fits r p = (case p of
     No_push \<Rightarrow> True
   | Has_tail tail item \<Rightarrow> tail < length (rg_data r) \<and> (tail = 0) = (rg_tail r = 0)
   | Writing tail nxt item \<Rightarrow> tail < length (rg_data r) \<and> (tail = 0) = (rg_tail r = 0) \<and> 0 < nxt \<and> nxt < length (rg_data r)
   | Storing tail nxt item \<Rightarrow> (tail = 0) = (rg_tail r = 0) \<and> 0 < nxt \<and> nxt < length (rg_data r)
       \<and> (tail = 0 \<longrightarrow> rg_data r ! 0 = item))"

definition consumer_fits :: "'a ring \<Rightarrow> 'a list \<Rightarrow> 'a pull_phase \<Rightarrow> bool" where
  "consumer_fits r stored p = (case p of
     No_pull \<Rightarrow> True
   | Has_head head \<Rightarrow> head = 0
   | Reading head tail \<Rightarrow> head = 0 \<and> 0 < tail \<and> tail < length (rg_data r) \<and> rg_tail r \<noteq> 0
   | Restoring tail item \<Rightarrow> 0 < tail \<and> tail < length (rg_data r) \<and> rg_tail r \<noteq> 0 \<and> item = hd stored)"

definition ring_inv :: "'a ring_world \<Rightarrow> bool" where
  "ring_inv w = (rg_head (rw_ring w) = 0 \<and> rg_tail (rw_ring w) < length (rg_data (rw_ring w))
     \<and> (rg_tail (rw_ring w) = 0) = (rw_pushed w = [])
     \<and> (rw_pushed w \<noteq> [] \<longrightarrow> rg_data (rw_ring w) ! 0 = hd (rw_pushed w))
     \<and> producer_fits (rw_ring w) (rw_push w) \<and> consumer_fits (rw_ring w) (rw_pushed w) (rw_pull w)
     \<and> list_all (\<lambda>out. out = None \<or> rw_pushed w \<noteq> [] \<and> out = Some (hd (rw_pushed w))) (rw_out w))"

lemmas ring_fits_defs = ring_inv_def producer_fits_def consumer_fits_def

lemma ring_push_inv:
  assumes inv: "ring_inv w" and step: "ring_push_step w = Some w'"
  shows "ring_inv w'"
proof -
  obtain h t d p c ps out where w: "w = \<lparr>rw_ring = \<lparr>rg_head = h, rg_tail = t, rg_data = d\<rparr>, rw_push = p, rw_pull = c,
      rw_pushed = ps, rw_out = out\<rparr>"
    by (metis ring.surjective ring_world.surjective old.unit.exhaust)
  show ?thesis
  proof (cases p)
    case (Has_tail tail item)
    have "rg_next (length d) tail < length d"
      using inv Has_tail w by (intro rg_next_lt) (simp add: ring_fits_defs)
    then show ?thesis
      using inv step Has_tail w
      by (cases c) (auto simp: ring_fits_defs ring_push_step_def Let_def split: if_splits)
  next
    case (Writing tail nxt item)
    then have w': "w' = w\<lparr>rw_ring := \<lparr>rg_head = h, rg_tail = t, rg_data = d[tail := item]\<rparr>, rw_push := Storing tail nxt item\<rparr>"
      using step w by (simp add: ring_push_step_def)
    show ?thesis
      using inv unfolding w' w Writing by (cases c; cases "ps = []"; cases tail) (simp_all add: ring_fits_defs)
  next
    case (Storing tail nxt item)
    then have w': "w' = w\<lparr>rw_ring := \<lparr>rg_head = h, rg_tail = nxt, rg_data = d\<rparr>, rw_push := No_push, rw_pushed := ps @ [item]\<rparr>"
      using step w by (simp add: ring_push_step_def)
    show ?thesis
    proof (cases "ps = []")
      case True
      then show ?thesis using inv Storing unfolding w' by (cases c) (auto simp: w ring_fits_defs list_all_iff)
    next
      case False
      then show ?thesis using inv Storing unfolding w' by (cases c) (simp_all add: w ring_fits_defs)
    qed
  qed (use step w in \<open>simp add: ring_push_step_def\<close>)
qed

lemma ring_pull_inv:
  assumes inv: "ring_inv w" and step: "ring_pull_step w = Some w'"
  shows "ring_inv w'"
proof -
  obtain h t d p c ps out where w: "w = \<lparr>rw_ring = \<lparr>rg_head = h, rg_tail = t, rg_data = d\<rparr>, rw_push = p, rw_pull = c,
      rw_pushed = ps, rw_out = out\<rparr>"
    by (metis ring.surjective ring_world.surjective old.unit.exhaust)
  show ?thesis
  proof (cases c)
    case (Has_head head)
    then show ?thesis
      using inv step w by (cases p) (auto simp: ring_fits_defs ring_pull_step_def Let_def split: if_splits)
  next
    case (Reading head tail)
    then show ?thesis
      using inv step w by (cases p) (auto simp: ring_fits_defs ring_pull_step_def)
  next
    case (Restoring tail item)
    then have w': "w' = w\<lparr>rw_ring := \<lparr>rg_head = h, rg_tail = tail, rg_data = d\<rparr>, rw_pull := No_pull, rw_out := out @ [Some item]\<rparr>"
      using step w by (simp add: ring_pull_step_def)
    show ?thesis
      using inv Restoring unfolding w' by (cases p; cases "ps = []") (simp_all add: w ring_fits_defs)
  qed (use step w in \<open>simp add: ring_pull_step_def\<close>)
qed

lemma ring_do_inv:
  assumes inv: "ring_inv w" and step: "ring_do m w = Some w'"
  shows "ring_inv w'"
proof (cases m)
  case (Call_push item)
  then show ?thesis using inv step by (cases "rw_pull w") (auto simp: ring_fits_defs split: if_splits)
next
  case Call_pull
  then show ?thesis using inv step by (cases "rw_push w") (auto simp: ring_fits_defs split: if_splits)
qed (use inv step in \<open>auto intro: ring_push_inv ring_pull_inv\<close>)

interpretation ring_moves: run_invariant ring_do ring_inv "\<lambda>_. False"
  by unfold_locales (rule ring_do_inv)

text \<open>
  C11: however one producer and one consumer of a \<open>buffer_t\<close> interleave, they never access one
  slot together; but each \<open>pull\<close> that succeeds returns the very first item that was pushed,
  and \<open>pull\<close> fails only before that.
\<close>

theorem ring_pulls_first_item:
  assumes "ring_run ms (rw_initial data) = Some w" and "data \<noteq> []"
  shows "\<not> ring_race w
    \<and> (\<forall>y. Some y \<in> set (rw_out w) \<longrightarrow> rw_pushed w \<noteq> [] \<and> y = hd (rw_pushed w))
    \<and> (rw_pull w = No_pull \<and> rw_pushed w \<noteq> [] \<longrightarrow>
        (case ring_run [Call_pull, Pull_on, Pull_on, Pull_on] w of
           None \<Rightarrow> False
         | Some w' \<Rightarrow> rw_out w' = rw_out w @ [Some (hd (rw_pushed w))] \<and> rw_ring w' = rw_ring w))"
proof -
  have "ring_inv (rw_initial data)"
    using assms(2) by (simp add: ring_inv_def rw_initial_def rg_new_def producer_fits_def consumer_fits_def)
  then have inv: "ring_inv w" using ring_moves.run_inv [OF _ assms(1)] by simp
  then have "\<not> ring_race w"
    by (auto simp: ring_inv_def ring_race_def producer_fits_def consumer_fits_def split: push_phase.splits pull_phase.splits)
  moreover have "rw_pushed w \<noteq> [] \<and> y = hd (rw_pushed w)" if "Some y \<in> set (rw_out w)" for y
    using inv that by (fastforce simp: ring_inv_def list_all_iff)
  moreover have "case ring_run [Call_pull, Pull_on, Pull_on, Pull_on] w of
      None \<Rightarrow> False
    | Some w' \<Rightarrow> rw_out w' = rw_out w @ [Some (hd (rw_pushed w))] \<and> rw_ring w' = rw_ring w"
    if "rw_pull w = No_pull" and "rw_pushed w \<noteq> []"
    using inv that by (simp add: ring_inv_def ring_pull_step_def Let_def)
  ultimately show ?thesis by blast
qed

text \<open>
  A \<open>pull\<close> puts back the tail that it loaded: the item \<open>b\<close> that was pushed meanwhile is out of the
  ring, and the next push writes over it.
\<close>

definition undoing_run :: "string ring_move list" where
  "undoing_run = [Call_push ''a'', Push_on, Push_on, Push_on, Call_pull, Pull_on, Call_push ''b'', Push_on, Push_on, Push_on,
     Pull_on, Pull_on, Call_push ''c'', Push_on, Push_on, Push_on]"

lemma pull_undoes_push:
  "ring_run undoing_run (rw_initial [''0'', ''0'', ''0'', ''0''])
   = Some \<lparr>rw_ring = \<lparr>rg_head = 0, rg_tail = 2, rg_data = [''a'', ''c'', ''0'', ''0'']\<rparr>, rw_push = No_push, rw_pull = No_pull,
       rw_pushed = [''a'', ''b'', ''c''], rw_out = [Some ''a'']\<rparr>"
  by (simp add: undoing_run_def rw_initial_def rg_new_def ring_push_step_def ring_pull_step_def rg_next_def)

lemma ring_pulls_first_item_witness:
  "\<exists>w. ring_run undoing_run (rw_initial [''0'', ''0'', ''0'', ''0'']) = Some w \<and> rw_pushed w = [''a'', ''b'', ''c'']
    \<and> (case ring_run [Call_pull, Pull_on, Pull_on, Pull_on] w of
         None \<Rightarrow> False | Some w' \<Rightarrow> rw_out w' = [Some ''a'', Some ''a''])"
  using ring_pulls_first_item [OF pull_undoes_push] pull_undoes_push by (auto split: option.splits)

end
