(* ===== verification/Dictionary_Readers.thy ===== *)
theory Dictionary_Readers
  imports Dictionary_Threads
begin

text \<open>
  The operations of \<open>dictionary_t\<close> (\<open>src/src/atomic.hpp\<close>) that walk a bucket while other threads
  insert: \<open>find\<close> (\<open>contains\<close> and \<open>at\<close> walk the same way) and \<open>insert_or_assign\<close>, with one step for
  each pointer they follow, over the bucket of \<open>Dictionary_Threads\<close>.
\<close>

section \<open>The steps\<close>

text \<open>
  Where a thread is: in \<open>find\<close> with \<open>current\<close>, or returned from it; in \<open>insert_or_assign\<close> with
  \<open>current\<close>, or past its loop and about to call \<open>insert\<close>. The nodes that were linked when a
  \<open>find\<close> loaded the bucket are recorded.
\<close>

datatype ('k, 'v) dr_phase =
    At_rest
  | Finding 'k "nat option" "nat list"
  | Found 'k "'v option" "nat list"
  | Assigning 'k 'v "nat option"
  | Missing 'k 'v

record ('k, 'v) dr_world =
  dr_base :: "('k, 'v) dt_world"
  dr_readers :: "('k, 'v) dr_phase list"

datatype ('k, 'v) dr_move = Base nat "('k, 'v) dt_move" | Find_call nat 'k | Assign_call nat 'k 'v | Walk nat

definition dr_initial :: "nat \<Rightarrow> ('k, 'v) dr_world" where
  "dr_initial n = \<lparr>dr_base = dt_initial n, dr_readers = replicate n At_rest\<rparr>"

fun at_rest :: "('k, 'v) dr_phase \<Rightarrow> bool" where
  "at_rest At_rest = True"
| "at_rest (Found k r seen) = True"
| "at_rest _ = False"

definition dr_set :: "nat \<Rightarrow> ('k, 'v) dr_phase \<Rightarrow> ('k, 'v) dr_world \<Rightarrow> ('k, 'v) dr_world" where
  "dr_set r p w = w\<lparr>dr_readers := (dr_readers w)[r := p]\<rparr>"

definition free_thread :: "nat \<Rightarrow> ('k, 'v) dr_world \<Rightarrow> bool" where
  "free_thread r w = (r < length (dr_readers w) \<and> at_rest (dr_readers w ! r)
     \<and> r < length (dt_threads (dr_base w)) \<and> dt_threads (dr_base w) ! r = Idle)"

text \<open>Reading a node after it was deleted is undefined, and \<open>None\<close> here.\<close>

definition find_step :: "nat \<Rightarrow> 'k \<Rightarrow> nat option \<Rightarrow> nat list \<Rightarrow> ('k, 'v) dr_world \<Rightarrow> ('k, 'v) dr_world option" where
  "find_step r k current seen w = (case current of
     None \<Rightarrow> Some (dr_set r (Found k None seen) w)
   | Some c \<Rightarrow> (case dt_node (dr_base w) c of
         None \<Rightarrow> None
       | Some (k', v) \<Rightarrow>
           if k' = k then Some (dr_set r (Found k (Some v) seen) w)
           else Some (dr_set r (Finding k (dt_next (dr_base w) c) seen) w)))"

definition assign_step :: "nat \<Rightarrow> 'k \<Rightarrow> 'v \<Rightarrow> nat option \<Rightarrow> ('k, 'v) dr_world \<Rightarrow> ('k, 'v) dr_world option" where
  "assign_step r k value current w = (case current of
     None \<Rightarrow> Some (dr_set r (Missing k value) w)
   | Some c \<Rightarrow> (case dt_node (dr_base w) c of
         None \<Rightarrow> None
       | Some (k', v) \<Rightarrow>
           if k' = k
           then Some (dr_set r At_rest (w\<lparr>dr_base := (dr_base w)\<lparr>dt_node := (dt_node (dr_base w))(c \<mapsto> (k, value))\<rparr>\<rparr>))
           else Some (dr_set r (Assigning k value (dt_next (dr_base w) c)) w)))"

definition base_step :: "nat \<Rightarrow> ('k, 'v) dt_move \<Rightarrow> ('k, 'v) dr_world \<Rightarrow> ('k, 'v) dr_world option" where
  "base_step t m w = map_option (\<lambda>b. w\<lparr>dr_base := b\<rparr>) (dt_do (t, m) (dr_base w))"

fun dr_do :: "('k, 'v) dr_move \<Rightarrow> ('k, 'v) dr_world \<Rightarrow> ('k, 'v) dr_world option" where
  "dr_do (Base t m) w =
     (if t < length (dr_readers w) \<and> at_rest (dr_readers w ! t) then base_step t m w else None)"
| "dr_do (Find_call r k) w =
     (if free_thread r w then Some (dr_set r (Finding k (dt_head (dr_base w)) (dt_linked (dr_base w))) w) else None)"
| "dr_do (Assign_call r k value) w =
     (if free_thread r w then Some (dr_set r (Assigning k value (dt_head (dr_base w))) w) else None)"
| "dr_do (Walk r) w =
     (if r < length (dr_readers w)
      then case dr_readers w ! r of
          Finding k current seen \<Rightarrow> find_step r k current seen w
        | Assigning k value current \<Rightarrow> assign_step r k value current w
        | Missing k value \<Rightarrow> map_option (dr_set r At_rest) (base_step r (Insert k value) w)
        | _ \<Rightarrow> None
      else None)"

abbreviation dr_run :: "('k, 'v) dr_move list \<Rightarrow> ('k, 'v) dr_world \<Rightarrow> ('k, 'v) dr_world option" where
  "dr_run \<equiv> run_moves dr_do"

section \<open>Searches during insertions\<close>

text \<open>The value of the first node with a key.\<close>

fun first_value :: "(nat \<Rightarrow> ('k \<times> 'v) option) \<Rightarrow> 'k \<Rightarrow> nat list \<Rightarrow> 'v option" where
  "first_value nd k [] = None"
| "first_value nd k (n # ns) =
     (case nd n of None \<Rightarrow> first_value nd k ns | Some (k', v) \<Rightarrow> if k' = k then Some v else first_value nd k ns)"

lemma first_value_cong: "(\<And>n. n \<in> set ns \<Longrightarrow> nd n = nd' n) \<Longrightarrow> first_value nd k ns = first_value nd' k ns"
  by (induction ns) (auto split: option.splits)

lemma chain_cong: "(\<And>n. n \<in> set ns \<Longrightarrow> nx n = nx' n) \<Longrightarrow> chain nx p ns = chain nx' p ns"
  by (induction ns arbitrary: p) auto

text \<open>Threads that insert and search only; no removal and no assignment.\<close>

fun disturbs :: "('k, 'v) dr_move \<Rightarrow> bool" where
  "disturbs (Base t m) = is_remove (t, m)"
| "disturbs (Assign_call r k v) = True"
| "disturbs _ = False"

text \<open>What an insertion leaves alone: the linked nodes, their contents and their links.\<close>

definition extends :: "('k, 'v) dt_world \<Rightarrow> ('k, 'v) dt_world \<Rightarrow> bool" where
  "extends b b' = (suffix (dt_linked b) (dt_linked b')
     \<and> (\<forall>n \<in> set (dt_linked b). dt_next b' n = dt_next b n \<and> dt_node b' n = dt_node b n))"

lemma extends_refl [simp]: "extends b b"
  by (simp add: extends_def)

lemma extends_trans: "extends a b \<Longrightarrow> extends b c \<Longrightarrow> extends a c"
  unfolding extends_def by (metis suffix_order.trans set_mono_suffix subsetD)

lemma insert_step_extends:
  assumes inv: "dt_inv b" and step: "dt_do m b = Some b'" and "\<not> is_remove m"
  shows "extends b b'"
proof -
  obtain t c where m: "m = (t, c)" by (cases m)
  have t: "t < length (dt_threads b)" using step m by (cases c) (auto split: if_splits)
  note fits = inv_thread [OF inv t]
  have fresh: "dt_fresh b \<notin> set (dt_linked b)" using inv by (auto simp: dt_inv_def)
  show ?thesis
  proof (cases c)
    case (Insert k v)
    then show ?thesis using step m fresh by (auto simp: extends_def dt_set_def split: if_splits)
  next
    case Go_on
    then show ?thesis using step m t fits
      by (cases "dt_threads b ! t")
        (auto simp: extends_def dt_insert_step_def dt_remove_step_def dt_set_def thread_fits_def suffix_ConsI
          split: if_splits)
  next
    case Fail_spuriously
    then show ?thesis using step m by (auto simp: extends_def dt_set_def split: if_splits dt_phase.splits)
  qed (use assms(3) m in simp)
qed

definition nodes_made :: "('k, 'v) dt_world \<Rightarrow> bool" where
  "nodes_made b = (\<forall>n < dt_fresh b. dt_node b n \<noteq> None)"

lemma insert_step_made:
  assumes "nodes_made b" and "dt_inv b" and step: "dt_do m b = Some b'" and "\<not> is_remove m"
  shows "nodes_made b'"
proof -
  obtain t c where m: "m = (t, c)" by (cases m)
  have t: "t < length (dt_threads b)" using step m by (cases c) (auto split: if_splits)
  note fits = inv_thread [OF assms(2) t]
  show ?thesis
  proof (cases c)
    case Go_on
    then show ?thesis using step m t fits assms(1)
      by (cases "dt_threads b ! t")
        (auto simp: nodes_made_def dt_insert_step_def dt_remove_step_def dt_set_def thread_fits_def split: if_splits)
  qed (use assms m in \<open>auto simp: nodes_made_def dt_set_def less_Suc_eq split: if_splits dt_phase.splits\<close>)
qed

fun reader_fits :: "('k, 'v) dt_world \<Rightarrow> ('k, 'v) dr_phase \<Rightarrow> bool" where
  "reader_fits b At_rest = True"
| "reader_fits b (Finding k current seen) = (suffix seen (dt_linked b)
     \<and> (\<exists>rest. suffix rest seen \<and> chain (dt_next b) current rest
          \<and> first_value (dt_node b) k seen = first_value (dt_node b) k rest))"
| "reader_fits b (Found k r seen) = (suffix seen (dt_linked b) \<and> r = first_value (dt_node b) k seen)"
| "reader_fits b _ = False"

definition dr_inv :: "('k, 'v) dr_world \<Rightarrow> bool" where
  "dr_inv w = (dt_inv (dr_base w) \<and> nodes_made (dr_base w) \<and> list_all (reader_fits (dr_base w)) (dr_readers w))"

lemma extends_first_value:
  "extends b b' \<Longrightarrow> suffix ns (dt_linked b) \<Longrightarrow> first_value (dt_node b') k ns = first_value (dt_node b) k ns"
  by (rule first_value_cong) (auto simp: extends_def dest: set_mono_suffix)

lemma extends_chain:
  "extends b b' \<Longrightarrow> suffix ns (dt_linked b) \<Longrightarrow> chain (dt_next b') p ns = chain (dt_next b) p ns"
  by (rule chain_cong) (auto simp: extends_def dest: set_mono_suffix)

lemma extends_fits: "extends b b' \<Longrightarrow> reader_fits b p \<Longrightarrow> reader_fits b' p"
proof (cases p)
  case (Finding k current seen)
  assume ext: "extends b b'" and "reader_fits b p"
  then obtain rest where seen: "suffix seen (dt_linked b)" and rest: "suffix rest seen"
      "chain (dt_next b) current rest" "first_value (dt_node b) k seen = first_value (dt_node b) k rest"
    using Finding by auto
  have "suffix rest (dt_linked b)" using rest(1) seen by (rule suffix_order.trans)
  then have "chain (dt_next b') current rest" "first_value (dt_node b') k seen = first_value (dt_node b') k rest"
    using extends_chain [OF ext] extends_first_value [OF ext] rest seen by simp_all
  moreover have "suffix seen (dt_linked b')" using ext seen by (auto simp: extends_def dest: suffix_order.trans)
  ultimately show ?thesis using rest(1) Finding by auto
next
  case (Found k r seen)
  assume ext: "extends b b'" and "reader_fits b p"
  then show ?thesis
    using Found extends_first_value [OF ext] by (auto simp: extends_def intro: suffix_order.trans)
qed simp_all

lemma find_step_inv:
  assumes inv: "dr_inv w" and r: "r < length (dr_readers w)" "dr_readers w ! r = Finding k current seen"
  shows "\<exists>p. find_step r k current seen w = Some (dr_set r p w) \<and> dr_inv (dr_set r p w)
    \<and> ((\<exists>c. p = Finding k c seen) \<or> (\<exists>v. p = Found k v seen))"
proof -
  let ?b = "dr_base w"
  have fits: "list_all (reader_fits ?b) (dr_readers w)" using inv by (simp add: dr_inv_def)
  then have "reader_fits ?b (Finding k current seen)" using r by (metis list_all_length)
  then obtain rest where seen: "suffix seen (dt_linked ?b)" and rest: "suffix rest seen" "chain (dt_next ?b) current rest"
      "first_value (dt_node ?b) k seen = first_value (dt_node ?b) k rest"
    by auto
  have keep: "dr_inv (dr_set r p w)" if "reader_fits ?b p" for p
    using inv that list_all_update [OF fits] by (simp add: dr_inv_def dr_set_def)
  show ?thesis
  proof (cases rest)
    case Nil
    then show ?thesis using keep [of "Found k None seen"] rest seen
      by (intro exI [of _ "Found k None seen"]) (simp add: find_step_def)
  next
    case (Cons c ns)
    then have c: "current = Some c" "chain (dt_next ?b) (dt_next ?b c) ns" using rest(2) by simp_all
    have "c \<in> set (dt_linked ?b)" using rest(1) seen Cons by (metis list.set_intros(1) set_mono_suffix subsetD)
    then obtain k' v where node: "dt_node ?b c = Some (k', v)"
      using inv by (fastforce simp: dr_inv_def dt_inv_def nodes_made_def)
    have ns: "suffix ns seen" using rest(1) Cons by (metis suffix_ConsD)
    show ?thesis
    proof (cases "k' = k")
      case True
      then show ?thesis using keep [of "Found k (Some v) seen"] rest(3) seen Cons c node
        by (intro exI [of _ "Found k (Some v) seen"]) (simp add: find_step_def)
    next
      case False
      then have "first_value (dt_node ?b) k seen = first_value (dt_node ?b) k ns"
        using rest(3) Cons node by simp
      then have "reader_fits ?b (Finding k (dt_next ?b c) seen)" using seen ns c(2) by auto
      then show ?thesis using keep [of "Finding k (dt_next ?b c) seen"] False c(1) node
        by (intro exI [of _ "Finding k (dt_next ?b c) seen"]) (simp add: find_step_def)
    qed
  qed
qed

lemma base_inv:
  assumes "dr_inv w" and "dt_do m (dr_base w) = Some b" and "\<not> is_remove m"
  shows "dr_inv (w\<lparr>dr_base := b\<rparr>) \<and> extends (dr_base w) b"
proof -
  have inv: "dt_inv (dr_base w)" "nodes_made (dr_base w)" using assms(1) by (simp_all add: dr_inv_def)
  have "extends (dr_base w) b" by (rule insert_step_extends [OF inv(1) assms(2,3)])
  then show ?thesis
    using assms(1) dt_do_inv [OF inv(1) assms(2,3)] insert_step_made [OF inv(2,1) assms(2,3)]
    by (auto simp: dr_inv_def list_all_iff intro: extends_fits)
qed

lemma dr_do_inv:
  assumes inv: "dr_inv w" and step: "dr_do m w = Some w'" and "\<not> disturbs m"
  shows "dr_inv w' \<and> extends (dr_base w) (dr_base w')"
proof (cases m)
  case (Base t c)
  then obtain b where "dt_do (t, c) (dr_base w) = Some b" "w' = w\<lparr>dr_base := b\<rparr>"
    using step by (auto simp: base_step_def split: if_splits)
  then show ?thesis using base_inv [OF inv] assms(3) Base by simp
next
  case (Find_call r k)
  have "reader_fits (dr_base w) (Finding k (dt_head (dr_base w)) (dt_linked (dr_base w)))"
    using inv by (auto simp: dr_inv_def dt_inv_def)
  then show ?thesis
    using inv step Find_call list_all_update [of "reader_fits (dr_base w)" "dr_readers w"]
    by (auto simp: dr_inv_def dr_set_def simp del: reader_fits.simps split: if_splits)
next
  case (Walk r)
  then have r: "r < length (dr_readers w)" using step by (auto split: if_splits)
  then have "reader_fits (dr_base w) (dr_readers w ! r)" using inv by (simp add: dr_inv_def list_all_length)
  then obtain k current seen where p: "dr_readers w ! r = Finding k current seen"
    using step Walk r by (cases "dr_readers w ! r") auto
  from find_step_inv [OF inv r p] show ?thesis using step Walk r p by (auto simp: dr_set_def)
qed (use assms(3) in simp)

interpretation searches: run_effect dr_do dr_inv disturbs "\<lambda>_ w w'. extends (dr_base w) (dr_base w')"
  by unfold_locales (auto dest: dr_do_inv intro: extends_trans)

lemma dr_inv_initial: "dr_inv (dr_initial n)"
  using dt_inv_initial [of n]
  by (simp add: dr_inv_def dr_initial_def list_all_iff) (simp add: nodes_made_def dt_initial_def)

text \<open>A search is on the nodes that were linked when it began.\<close>

fun search_of :: "'k \<Rightarrow> nat list \<Rightarrow> ('k, 'v) dr_phase \<Rightarrow> bool" where
  "search_of k seen (Finding k' c s) = (k' = k \<and> s = seen)"
| "search_of k seen (Found k' v s) = (k' = k \<and> s = seen)"
| "search_of k seen _ = False"

fun begins_search :: "nat \<Rightarrow> ('k, 'v) dr_move \<Rightarrow> bool" where
  "begins_search r (Find_call r' k) = (r' = r)"
| "begins_search r _ = False"

lemma search_step:
  assumes inv: "dr_inv w" and step: "dr_do m w = Some w'" and "\<not> disturbs m" and "\<not> begins_search r m"
    and r: "r < length (dr_readers w)" "search_of k seen (dr_readers w ! r)"
  shows "r < length (dr_readers w') \<and> search_of k seen (dr_readers w' ! r)"
proof (cases m)
  case (Walk r')
  then have r': "r' < length (dr_readers w)" using step by (auto split: if_splits)
  then have "reader_fits (dr_base w) (dr_readers w ! r')" using inv by (simp add: dr_inv_def list_all_length)
  then obtain k' current seen' where p: "dr_readers w ! r' = Finding k' current seen'"
    using step Walk r' by (cases "dr_readers w ! r'") auto
  from find_step_inv [OF inv r' p] show ?thesis
    using step Walk r r' p by (cases "r' = r") (auto simp: dr_set_def)
qed (use assms in \<open>auto simp: base_step_def dr_set_def split: if_splits\<close>)

interpretation one_search: run_invariant dr_do
    "\<lambda>w. dr_inv w \<and> r < length (dr_readers w) \<and> search_of k seen (dr_readers w ! r)"
    "\<lambda>m. disturbs m \<or> begins_search r m" for r k seen
proof
  fix w w' :: "('a, 'b) dr_world" and m
  assume "dr_inv w \<and> r < length (dr_readers w) \<and> search_of k seen (dr_readers w ! r)"
    and "dr_do m w = Some w'" and "\<not> (disturbs m \<or> begins_search r m)"
  with dr_do_inv [of w m w'] search_step [of w m w' r k seen]
  show "dr_inv w' \<and> r < length (dr_readers w') \<and> search_of k seen (dr_readers w' ! r)" by simp
qed

text \<open>How many more nodes a search can follow: the walk is never led back into the new nodes.\<close>

fun search_left :: "('k, 'v) dt_world \<Rightarrow> nat \<Rightarrow> ('k, 'v) dr_phase \<Rightarrow> bool" where
  "search_left b n (Finding k current seen) =
     (\<exists>rest. chain (dt_next b) current rest \<and> suffix rest (dt_linked b) \<and> length rest < n)"
| "search_left b n (Found k v seen) = True"
| "search_left b n _ = False"

lemma dr_do_readers: "dr_do m w = Some w' \<Longrightarrow> length (dr_readers w') = length (dr_readers w)"
  by (cases m)
    (auto simp: base_step_def dr_set_def find_step_def assign_step_def split: if_splits dr_phase.splits option.splits)

lemma search_left_extends: "extends b b' \<Longrightarrow> search_left b n p \<Longrightarrow> search_left b' n p"
proof (cases p)
  case (Finding k current seen)
  assume ext: "extends b b'" and "search_left b n p"
  then obtain rest where "chain (dt_next b) current rest" "suffix rest (dt_linked b)" "length rest < n"
    using Finding by auto
  moreover have "suffix (dt_linked b) (dt_linked b')" using ext by (simp add: extends_def)
  ultimately show ?thesis
    using Finding extends_chain [OF ext] by (auto intro: suffix_order.trans)
qed simp_all

lemma search_left_walk:
  assumes "find_step r k current seen w = Some w'" and "search_left (dr_base w) n (Finding k current seen)"
    and r: "r < length (dr_readers w)"
  shows "0 < n \<and> search_left (dr_base w') (n - 1) (dr_readers w' ! r)"
proof -
  obtain rest where rest: "chain (dt_next (dr_base w)) current rest" "suffix rest (dt_linked (dr_base w))" "length rest < n"
    using assms(2) by auto
  show ?thesis
  proof (cases rest)
    case Nil
    then show ?thesis using assms(1) r rest by (auto simp: find_step_def dr_set_def)
  next
    case (Cons c ns)
    then have "chain (dt_next (dr_base w)) (dt_next (dr_base w) c) ns" "suffix ns (dt_linked (dr_base w))"
      "length ns < n - 1" "current = Some c"
      using rest suffix_ConsD by auto
    then show ?thesis
      using assms(1) r rest(3)
      by (auto simp: find_step_def dr_set_def split: option.splits if_splits intro!: exI [of _ ns])
  qed
qed

lemma search_left_step:
  assumes inv: "dr_inv w" and step: "dr_do m w = Some w'" and m: "\<not> disturbs m" "\<not> begins_search r m"
    and r: "r < length (dr_readers w)" and left: "search_left (dr_base w) n (dr_readers w ! r)"
  shows "of_bool (m = Walk r) \<le> n \<and> search_left (dr_base w') (n - of_bool (m = Walk r)) (dr_readers w' ! r)"
proof (cases "m = Walk r")
  case True
  then obtain k current seen where p: "dr_readers w ! r = Finding k current seen"
    using step left r by (cases "dr_readers w ! r") auto
  then have "find_step r k current seen w = Some w'" using step True r by simp
  from search_left_walk [OF this _ r] show ?thesis using left p True by (simp add: Suc_le_eq)
next
  case False
  have "dr_readers w' ! r = dr_readers w ! r"
    using step m False
    by (cases m) (auto simp: base_step_def dr_set_def find_step_def assign_step_def split: if_splits dr_phase.splits option.splits)
  then show ?thesis
    using False search_left_extends [OF _ left] dr_do_inv [OF inv step m(1)] by simp
qed

interpretation search_steps: run_effect dr_do "\<lambda>w. dr_inv w \<and> r < length (dr_readers w)"
    "\<lambda>m. disturbs m \<or> begins_search r m"
    "\<lambda>ms w w'. \<forall>n. search_left (dr_base w) n (dr_readers w ! r) \<longrightarrow> count_list ms (Walk r) \<le> n"
  for r
proof
  fix w w' :: "('a, 'b) dr_world" and m
  assume w: "dr_inv w \<and> r < length (dr_readers w)" and step: "dr_do m w = Some w'" and "\<not> (disturbs m \<or> begins_search r m)"
  then show "dr_inv w' \<and> r < length (dr_readers w')"
    using dr_do_inv [of w m w'] dr_do_readers [OF step] by simp
next
  fix w w1 w2 :: "('a, 'b) dr_world" and m and ms :: "('a, 'b) dr_move list"
  assume w: "dr_inv w \<and> r < length (dr_readers w)" and step: "dr_do m w = Some w1" and m: "\<not> (disturbs m \<or> begins_search r m)"
    and rest: "\<forall>n. search_left (dr_base w1) n (dr_readers w1 ! r) \<longrightarrow> count_list ms (Walk r) \<le> n"
  show "\<forall>n. search_left (dr_base w) n (dr_readers w ! r) \<longrightarrow> count_list (m # ms) (Walk r) \<le> n"
  proof (intro allI impI)
    fix n assume "search_left (dr_base w) n (dr_readers w ! r)"
    with search_left_step [of w m w1 r n] w step m rest show "count_list (m # ms) (Walk r) \<le> n"
      by (cases "m = Walk r") fastforce+
  qed
qed simp

text \<open>
  C8: a \<open>find\<close> during any interleaved insertions takes effect at once when it loads the bucket:
  however long it walks and whatever is inserted meanwhile, its result is the value of the
  latest insertion of its key among those that were linked at that moment, or nothing when
  there was none; no step of it meets a missing node.
\<close>

theorem concurrent_find_is_atomic:
  assumes "dr_run ms1 (dr_initial n) = Some w1" and "\<not> list_ex disturbs ms1"
    and "dr_run (Find_call r k # ms2) w1 = Some w2" and "\<not> list_ex disturbs ms2" and "\<not> list_ex (begins_search r) ms2"
  shows "(\<forall>v seen. dr_readers w2 ! r = Found k v seen \<longrightarrow>
        v = first_value (dt_node (dr_base w1)) k (dt_linked (dr_base w1)))
    \<and> (\<forall>c seen. dr_readers w2 ! r = Finding k c seen \<longrightarrow> dr_do (Walk r) w2 \<noteq> None)
    \<and> count_list ms2 (Walk r) \<le> length (dt_linked (dr_base w1)) + 1"
proof -
  let ?b = "dr_base w1"
  have inv1: "dr_inv w1" using searches.run_inv [OF dr_inv_initial assms(1,2)] .
  obtain w where w: "dr_do (Find_call r k) w1 = Some w" "dr_run ms2 w = Some w2"
    using assms(3) by (auto split: option.splits)
  have r: "r < length (dr_readers w)" "search_of k (dt_linked ?b) (dr_readers w ! r)" and base: "dr_base w = ?b"
    using w(1) by (auto simp: free_thread_def dr_set_def split: if_splits)
  have inv: "dr_inv w" using dr_do_inv [OF inv1 w(1)] by simp
  have run: "dr_inv w2" "extends ?b (dr_base w2)" using searches.run_has_effect [OF inv w(2) assms(4)] base by simp_all
  have barred: "\<not> list_ex (\<lambda>m. disturbs m \<or> begins_search r m) ms2" using assms(4,5) by (auto simp: list_ex_iff)
  then have found: "r < length (dr_readers w2)" "search_of k (dt_linked ?b) (dr_readers w2 ! r)"
    using one_search.run_inv [of w r k "dt_linked ?b", OF _ w(2)] inv r by auto
  have "search_left (dr_base w) (length (dt_linked ?b) + 1) (dr_readers w ! r)"
    using w(1) r(1) inv1 by (auto simp: free_thread_def dr_set_def dr_inv_def dt_inv_def split: if_splits)
  then have steps: "count_list ms2 (Walk r) \<le> length (dt_linked ?b) + 1"
    using search_steps.run_has_effect [of w r ms2, OF _ w(2)] inv r(1) barred by blast
  have fits: "reader_fits (dr_base w2) (dr_readers w2 ! r)" using run(1) found by (simp add: dr_inv_def list_all_length)
  show ?thesis
  proof (intro conjI allI impI steps)
    fix v seen assume p: "dr_readers w2 ! r = Found k v seen"
    then have "seen = dt_linked ?b" using found by simp
    then show "v = first_value (dt_node ?b) k (dt_linked ?b)"
      using fits p extends_first_value [OF run(2)] by simp
  next
    fix c seen assume p: "dr_readers w2 ! r = Finding k c seen"
    from find_step_inv [OF run(1) _ p] show "dr_do (Walk r) w2 \<noteq> None" using found p by auto
  qed
qed


lemma concurrent_find_is_atomic_witness:
  "\<exists>w1 w2. dr_run [Base 0 (Insert (5::nat) ''a''), Base 0 Go_on, Base 0 Go_on, Base 0 Go_on, Base 0 (Insert 6 ''b''), Base 0 Go_on]
      (dr_initial 2) = Some w1
    \<and> dr_run [Find_call 1 5, Base 0 Go_on, Walk 1] w1 = Some w2 \<and> dr_readers w2 ! 1 = Found 5 (Some ''a'') [0]
    \<and> first_value (dt_node (dr_base w1)) 5 (dt_linked (dr_base w1)) = Some ''a''"
proof -
  let ?ms = "[Base 0 (Insert 5 ''a''), Base 0 Go_on, Base 0 Go_on, Base 0 Go_on, Base 0 (Insert 6 ''b''), Base 0 Go_on]
    :: (nat, string) dr_move list"
  note calc = dr_initial_def dt_initial_def base_step_def dt_set_def dt_insert_step_def free_thread_def dr_set_def
    find_step_def eval_nat_numeral
  have "dr_run ?ms (dr_initial 2) \<noteq> None" by (simp add: calc)
  then obtain w1 where w1: "dr_run ?ms (dr_initial 2) = Some w1" by blast
  then have "dr_run [Find_call 1 5, Base 0 Go_on, Walk 1] w1 \<noteq> None" by (auto simp: calc)
  then obtain w2 where w2: "dr_run [Find_call 1 5, Base 0 Go_on, Walk 1] w1 = Some w2" by blast
  from w1 w2 have p: "dr_readers w2 ! 1 = Found 5 (Some ''a'') [0]" by (auto simp: calc)
  from concurrent_find_is_atomic [OF w1 _ w2] p have "first_value (dt_node (dr_base w1)) 5 (dt_linked (dr_base w1)) = Some ''a''"
    by simp
  with w1 w2 p show ?thesis by blast
qed

section \<open>Removals during a search\<close>

text \<open>
  A removal deletes its node at once, so that a search that has loaded a pointer to it reads freed
  memory in its next step: thread 1 searches for key 7 and is at the node of key 5 when
  thread 0 removes that.
\<close>

lemma find_reads_freed_node:
  "case dr_run [Base 0 (Insert 5 ''a''), Base 0 Go_on, Base 0 Go_on, Base 0 Go_on, Find_call 1 7,
      Base 0 (Remove 5), Base 0 Go_on, Base 0 Go_on, Base 0 Go_on] (dr_initial 2 :: (nat, string) dr_world) of
     None \<Rightarrow> False
   | Some w \<Rightarrow> dr_readers w ! 1 = Finding 7 (Some 0) [0] \<and> dt_node (dr_base w) 0 = None \<and> dr_do (Walk 1) w = None"
  by (simp add: dr_initial_def dt_initial_def base_step_def dt_set_def dt_insert_step_def dt_remove_step_def free_thread_def
      dr_set_def find_step_def eval_nat_numeral)

section \<open>Assignments\<close>

text \<open>
  Two threads that call \<open>insert_or_assign\<close> with one key both find it missing and both insert it:
  the bucket then holds the key twice, the count is 2, and a \<open>remove\<close> of the key leaves the
  other entry to be found.
\<close>

lemma assignments_duplicate_keys:
  "case dr_run [Assign_call 0 5 ''a'', Assign_call 1 5 ''b'', Walk 0, Walk 1, Walk 0, Base 0 Go_on, Base 0 Go_on, Base 0 Go_on,
      Walk 1, Base 1 Go_on, Base 1 Go_on, Base 1 Go_on, Base 0 (Remove 5), Base 0 Go_on, Base 0 Go_on, Base 0 Go_on, Base 0 Go_on,
      Find_call 1 5, Walk 1] (dr_initial 2 :: (nat, string) dr_world) of
     None \<Rightarrow> False
   | Some w \<Rightarrow> dt_linked (dr_base w) = [1, 0] \<and> dt_threads (dr_base w) = [Idle, Idle] \<and> dt_count (dr_base w) = 1
       \<and> (\<exists>seen. dr_readers w = [At_rest, Found 5 (Some ''a'') seen])"
  by (simp add: dr_initial_def dt_initial_def base_step_def dt_set_def dt_insert_step_def dt_remove_step_def free_thread_def
      dr_set_def find_step_def assign_step_def eval_nat_numeral)

end
