(* ===== verification/Timer_Tasks.thy ===== *)
theory Timer_Tasks
  imports Timer Run_Contract
begin

text \<open>
  \<open>once\<close> and \<open>periodic\<close> of \<open>src/src/timer.hpp\<close>: the timers as tasks that run beside each other and
  beside the code that cancels their tokens, with one step for each load of a token, each
  sleep and each callback, and together with the guards of \<open>Timer\<close>. \<open>hpx::async\<close> starts a
  task; that it does so at once is not assumed, as a task's first step may come any time later.
\<close>

section \<open>The steps\<close>

text \<open>
  Where a task is: a single timer in its sleep; a periodic one about to test its token at the
  head of the loop, in its sleep, about to test the token again, or about to call back.
\<close>

datatype task_phase = Delaying | Testing | Sleeping | Retesting | Calling | Ended

record task =
  tk_token :: "nat option"
  tk_phase :: task_phase

record timers =
  ts_flags :: flags
  ts_fresh :: nat
  ts_tasks :: "task list"
  ts_calls :: "nat list"

definition timers_new :: timers where
  "timers_new = \<lparr>ts_flags = {}, ts_fresh = 0, ts_tasks = [], ts_calls = []\<rparr>"

definition spawn :: "nat option \<Rightarrow> task_phase \<Rightarrow> timers \<Rightarrow> timers" where
  "spawn token p w = w\<lparr>ts_tasks := ts_tasks w @ [\<lparr>tk_token = token, tk_phase = p\<rparr>]\<rparr>"

definition timer_once :: "timers \<Rightarrow> timers" where
  "timer_once w = spawn None Delaying w"

text \<open>The second \<open>periodic\<close> shares the token that it is given; a worker on a null token would dereference it.\<close>

definition periodic_shared :: "nat \<Rightarrow> timers \<Rightarrow> timers" where
  "periodic_shared cancel w = spawn (Some cancel) Testing w"

definition periodic :: "timers \<Rightarrow> nat option \<times> timers" where
  "periodic w =
     (case make_token (ts_fresh w) (ts_flags w) of
        (token, flags) \<Rightarrow> (token, spawn token Testing (w\<lparr>ts_flags := flags, ts_fresh := ts_fresh w + 1\<rparr>)))"

definition cancelled :: "timers \<Rightarrow> task \<Rightarrow> bool" where
  "cancelled w k = (case tk_token k of None \<Rightarrow> False | Some t \<Rightarrow> t \<in> ts_flags w)"

text \<open>The next step of a task: its phase after it, and whether it calls back.\<close>

definition task_step :: "bool \<Rightarrow> task_phase \<Rightarrow> (task_phase \<times> bool) option" where
  "task_step seen p = (case p of
     Delaying \<Rightarrow> Some (Ended, True)
   | Testing \<Rightarrow> Some (if seen then Ended else Sleeping, False)
   | Sleeping \<Rightarrow> Some (Retesting, False)
   | Retesting \<Rightarrow> Some (if seen then Ended else Calling, False)
   | Calling \<Rightarrow> Some (Testing, True)
   | Ended \<Rightarrow> None)"

text \<open>
  The steps of a task against the worker of \<open>Timer\<close>: given what its token holds at each of its four
  steps of a turn, a periodic task calls back as often as the worker, and ends with it.
\<close>

fun task_run :: "bool list \<Rightarrow> task_phase \<Rightarrow> task_phase \<times> nat" where
  "task_run [] p = (p, 0)"
| "task_run (seen # ss) p = (case task_step seen p of
     None \<Rightarrow> (p, 0)
   | Some (q, calls) \<Rightarrow> (case task_run ss q of (e, n) \<Rightarrow> (e, of_bool calls + n)))"

definition turn_loads :: "turn \<Rightarrow> bool list" where
  "turn_loads t = [seen_before t, seen_before t, seen_after t, seen_after t]"

lemma task_run_ended: "task_run ss Ended = (Ended, 0)"
  by (cases ss) (simp_all add: task_step_def)

lemma worker_takes_steps:
  "task_run (concat (map turn_loads ts)) Testing
   = (if snd (interval_loop v now due ts) then Ended else Testing, length (fst (interval_loop v now due ts)))"
proof (induction ts arbitrary: now due)
  case (Cons t ts)
  show ?case
    using Cons.IH [of "max now due + lateness t" "due + v"]
    by (cases "interval_loop v (max now due + lateness t) (due + v) ts")
      (simp add: turn_loads_def task_step_def task_run_ended Let_def)
qed simp

datatype timer_move = Once | Periodic | Periodic_on nat | Cancel nat | Run nat

fun ts_do :: "timer_move \<Rightarrow> timers \<Rightarrow> timers option" where
  "ts_do Once w = Some (timer_once w)"
| "ts_do Periodic w = Some (snd (periodic w))"
| "ts_do (Periodic_on t) w = (if t < ts_fresh w then Some (periodic_shared t w) else None)"
| "ts_do (Cancel t) w =
     (if t < ts_fresh w then Some (w\<lparr>ts_flags := snd (release_token (Some t) (ts_flags w))\<rparr>) else None)"
| "ts_do (Run i) w =
     (if i < length (ts_tasks w)
      then case task_step (cancelled w (ts_tasks w ! i)) (tk_phase (ts_tasks w ! i)) of
          None \<Rightarrow> None
        | Some (p, calls) \<Rightarrow> Some (w\<lparr>ts_tasks := (ts_tasks w)[i := (ts_tasks w ! i)\<lparr>tk_phase := p\<rparr>],
            ts_calls := (if calls then i # ts_calls w else ts_calls w)\<rparr>)
      else None)"

abbreviation ts_run :: "timer_move list \<Rightarrow> timers \<Rightarrow> timers option" where
  "ts_run \<equiv> run_moves ts_do"

section \<open>Cancelling\<close>

text \<open>Only tokens that were made are ever set, and single timers have none.\<close>

definition ts_wf :: "timers \<Rightarrow> bool" where
  "ts_wf w = ((\<forall>t \<in> ts_flags w. t < ts_fresh w)
     \<and> list_all (\<lambda>k. tk_phase k = Delaying \<longrightarrow> tk_token k = None) (ts_tasks w))"

text \<open>How many more steps a task takes, and how often it calls back, once its token is set.\<close>

fun steps_left :: "task_phase \<Rightarrow> nat" where
  "steps_left Delaying = 1"
| "steps_left Testing = 1"
| "steps_left Sleeping = 2"
| "steps_left Retesting = 1"
| "steps_left Calling = 2"
| "steps_left Ended = 0"

fun calls_left :: "task_phase \<Rightarrow> nat" where
  "calls_left Calling = 1"
| "calls_left Delaying = 1"
| "calls_left _ = 0"

text \<open>A periodic task on a token that is set.\<close>

definition doomed :: "nat \<Rightarrow> timers \<Rightarrow> bool" where
  "doomed i w = (ts_wf w \<and> i < length (ts_tasks w) \<and> cancelled w (ts_tasks w ! i))"

lemma task_step_delay: "task_step seen p = Some (q, c) \<Longrightarrow> q \<noteq> Delaying"
  by (auto simp: task_step_def split: task_phase.splits if_splits)

lemma ts_do_wf:
  assumes wf: "ts_wf w" and step: "ts_do m w = Some w'"
  shows "ts_wf w'"
proof (cases m)
  case (Run i)
  let ?P = "\<lambda>k. tk_phase k = Delaying \<longrightarrow> tk_token k = None"
  have "list_all ?P ((ts_tasks w)[i := (ts_tasks w ! i)\<lparr>tk_phase := p\<rparr>])" if "p \<noteq> Delaying" for p
    using wf that by (intro list_all_update) (auto simp: ts_wf_def)
  then show ?thesis
    using wf step Run by (auto simp: ts_wf_def dest: task_step_delay split: if_splits option.splits)
qed (use assms in \<open>auto simp: ts_wf_def timer_once_def periodic_shared_def periodic_def make_token_def spawn_def
    release_token_def less_SucI split: if_splits option.splits\<close>)

interpretation tasks: run_invariant ts_do ts_wf "\<lambda>_. False"
  by unfold_locales (rule ts_do_wf)

lemma ts_wf_new: "ts_wf timers_new"
  by (simp add: ts_wf_def timers_new_def)

lemma doomed_step:
  assumes "doomed i w" and "ts_do m w = Some w'"
  shows "doomed i w'
    \<and> steps_left (tk_phase (ts_tasks w' ! i)) + of_bool (m = Run i) = steps_left (tk_phase (ts_tasks w ! i))
    \<and> count_list (ts_calls w') i + calls_left (tk_phase (ts_tasks w' ! i))
      = count_list (ts_calls w) i + calls_left (tk_phase (ts_tasks w ! i))"
proof -
  have i: "i < length (ts_tasks w)" "cancelled w (ts_tasks w ! i)" and wf: "ts_wf w" "ts_wf w'"
    using assms ts_do_wf by (auto simp: doomed_def)
  then have fresh: "ts_fresh w \<notin> ts_flags w" by (auto simp: ts_wf_def)
  show ?thesis
  proof (cases m)
    case (Run j)
    then obtain p calls where j: "j < length (ts_tasks w)"
        "task_step (cancelled w (ts_tasks w ! j)) (tk_phase (ts_tasks w ! j)) = Some (p, calls)"
      and w': "w' = w\<lparr>ts_tasks := (ts_tasks w)[j := (ts_tasks w ! j)\<lparr>tk_phase := p\<rparr>],
        ts_calls := (if calls then j # ts_calls w else ts_calls w)\<rparr>"
      using assms(2) by (auto split: if_splits option.splits)
    have same: "cancelled w' (k\<lparr>tk_phase := q\<rparr>) = cancelled w k" "cancelled w' k = cancelled w k" for k q
      unfolding w' cancelled_def by (simp_all split: option.splits)
    show ?thesis
    proof (cases "j = i")
      case True
      then have "doomed i w'" using i wf(2) same(1) by (simp add: doomed_def w')
      moreover have "ts_tasks w' ! i = (ts_tasks w ! i)\<lparr>tk_phase := p\<rparr>"
        "ts_calls w' = (if calls then i # ts_calls w else ts_calls w)"
        using True i by (simp_all add: w')
      ultimately show ?thesis
        using j(2) i(2) True Run by (cases "tk_phase (ts_tasks w ! i)") (auto simp: task_step_def)
    next
      case False
      then have "doomed i w'" using i wf(2) same(2) by (simp add: doomed_def w')
      then show ?thesis using False Run by (simp add: w')
    qed
  qed (use assms(2) i wf fresh in \<open>auto simp: doomed_def cancelled_def timer_once_def periodic_shared_def periodic_def
    make_token_def spawn_def release_token_def nth_append split: if_splits option.splits\<close>)
qed

interpretation doomed_task: run_effect ts_do "doomed i" "\<lambda>_. False" "\<lambda>ms w w'.
     steps_left (tk_phase (ts_tasks w' ! i)) + count_list ms (Run i) = steps_left (tk_phase (ts_tasks w ! i))
     \<and> count_list (ts_calls w') i + calls_left (tk_phase (ts_tasks w' ! i))
       = count_list (ts_calls w) i + calls_left (tk_phase (ts_tasks w ! i))" for i
  by unfold_locales (auto dest: doomed_step split: if_splits)

lemma steps_left_le: "steps_left p \<le> 2" and calls_left_le: "calls_left p \<le> 1"
  by (cases p; simp)+

lemma cancel_run:
  assumes "ts_run (map Cancel ds) w = Some w'"
  shows "ts_flags w' = ts_flags w \<union> set ds \<and> ts_tasks w' = ts_tasks w \<and> ts_calls w' = ts_calls w"
  using assms
proof (induction ds arbitrary: w)
  case (Cons d ds)
  then have "ts_run (map Cancel ds) (w\<lparr>ts_flags := insert d (ts_flags w)\<rparr>) = Some w'"
    by (auto simp: release_token_def split: if_splits)
  from Cons.IH [OF this] show ?case by auto
qed simp

text \<open>
  C20: timers and guards together. A program hands the tokens of its periodic timers to
  \<open>cancel_guard\<close> objects and lets them go out of scope (without assigning one over another);
  the destructors cancel the tokens. From then on a timer on one of these tokens takes at most
  two more steps, whatever else runs, and ends; it calls back at most once more, and
  only when it was already past its last test.
\<close>

theorem guards_stop_timers:
  assumes "ts_run ms timers_new = Some w"
    and "scope_run cg_ops cs (replicate n None) = (replicate n None, tk, ds)" and "\<not> list_ex is_move_assign cs"
    and "ts_run (map Cancel ds @ ms') w = Some w'"
    and "i < length (ts_tasks w)" and "tk_token (ts_tasks w ! i) = Some t" and "t \<in> set tk"
  shows "count_list ms' (Run i) \<le> 2
    \<and> (count_list ms' (Run i) = 2 \<longrightarrow> tk_phase (ts_tasks w' ! i) = Ended)
    \<and> count_list (ts_calls w') i \<le> count_list (ts_calls w) i + of_bool (tk_phase (ts_tasks w ! i) = Calling)"
proof -
  have "mset ds = mset tk"
    using cg.run_discharges_all [of cs n tk ds] cg_run_eq [OF assms(3)] assms(2) by simp
  then have "set ds = set tk" by (rule mset_eq_setD)
  then have t: "t \<in> set ds" using assms(7) by simp
  obtain w1 where w1: "ts_run (map Cancel ds) w = Some w1" "ts_run ms' w1 = Some w'"
    using assms(4) by (auto simp: run_moves_append split: option.splits)
  note same = cancel_run [OF w1(1)]
  have wf: "ts_wf w1" using tasks.run_inv [OF tasks.run_inv [OF ts_wf_new assms(1)] w1(1)] by simp
  then have "doomed i w1" using same t assms(5,6) by (simp add: doomed_def cancelled_def)
  from doomed_task.run_has_effect [OF this w1(2)]
  have run: "steps_left (tk_phase (ts_tasks w' ! i)) + count_list ms' (Run i) = steps_left (tk_phase (ts_tasks w ! i))"
    "count_list (ts_calls w') i + calls_left (tk_phase (ts_tasks w' ! i))
      = count_list (ts_calls w) i + calls_left (tk_phase (ts_tasks w ! i))"
    using same by simp_all
  moreover have "tk_phase (ts_tasks w ! i) \<noteq> Delaying"
    using tasks.run_inv [OF ts_wf_new assms(1)] assms(5,6) by (auto simp: ts_wf_def list_all_length)
  ultimately show ?thesis
    by (cases "tk_phase (ts_tasks w ! i)"; cases "tk_phase (ts_tasks w' ! i)") auto
qed

lemma guards_stop_timers_witness:
  "\<exists>w w'. ts_run [Periodic, Run 0, Run 0, Run 0] timers_new = Some w
    \<and> ts_run (map Cancel [0] @ [Once, Run 0, Run 0]) w = Some w'
    \<and> tk_phase (ts_tasks w' ! 0) = Ended \<and> count_list (ts_calls w') 0 \<le> 1"
proof -
  note calc = timers_new_def periodic_def make_token_def spawn_def task_step_def cancelled_def timer_once_def
    release_token_def eval_nat_numeral
  have guards: "scope_run cg_ops [Construct 0 (Some 0), Move_construct 1 0, Destroy 0, Destroy 1] (replicate 2 None)
      = (replicate 2 None, [0], [0])"
    by (simp add: cg_defs eval_nat_numeral)
  have "ts_run [Periodic, Run 0, Run 0, Run 0] timers_new \<noteq> None" by (simp add: calc)
  then obtain w where w: "ts_run [Periodic, Run 0, Run 0, Run 0] timers_new = Some w" by blast
  then have "ts_run (map Cancel [0] @ [Once, Run 0, Run 0]) w \<noteq> None" by (auto simp: calc)
  then obtain w' where w': "ts_run (map Cancel [0] @ [Once, Run 0, Run 0]) w = Some w'" by blast
  have task: "0 < length (ts_tasks w)" "tk_token (ts_tasks w ! 0) = Some 0" "count_list (ts_calls w) 0 = 0"
    using w by (auto simp: calc)
  from guards_stop_timers [OF w guards _ w' task(1,2)] task(3)
  have "tk_phase (ts_tasks w' ! 0) = Ended" "count_list (ts_calls w') 0 \<le> 1"
    by (auto simp: of_bool_def split: if_splits)
  with w w' show ?thesis by blast
qed

end
