(* ===== verification/Async_Resolver.thy ===== *)
theory Async_Resolver
  imports Resolver
begin

text \<open>
  \<open>async_resolver\<close> and \<open>defer_resolver\<close> of \<open>src/src/resolver.hpp\<close>: the lookups of \<open>Resolver\<close> behind
  a future. What a lambda captures decides what the lookup sees when it runs: a name is
  copied, but of an \<open>addr_t\<close> only the pointer and the length are.
\<close>

section \<open>Futures\<close>

text \<open>
  The socket addresses that callers have in memory, by pointer. The work of a future reads
  the memory at the time it runs: a task of \<open>launch::async\<close> on some thread after the call, a
  deferred one in the first \<open>get\<close>. \<open>get\<close> takes the value out of the future.
\<close>

type_synonym memory = "nat \<Rightarrow> sockaddr option"

datatype launch = Async | Deferred

record 'a future =
  fu_launch :: launch
  fu_work :: "memory \<Rightarrow> 'a res"
  fu_value :: "'a res option"

definition hpx_async :: "launch \<Rightarrow> (memory \<Rightarrow> 'a res) \<Rightarrow> 'a future" where
  "hpx_async l work = \<lparr>fu_launch = l, fu_work = work, fu_value = None\<rparr>"

datatype fu_event = Task_turn | Store nat sockaddr | Free_address nat

fun remember :: "fu_event \<Rightarrow> memory \<Rightarrow> memory" where
  "remember Task_turn mem = mem"
| "remember (Store p a) mem = mem(p \<mapsto> a)"
| "remember (Free_address p) mem = mem(p := None)"

fun fu_step :: "fu_event \<Rightarrow> memory \<Rightarrow> 'a future \<Rightarrow> 'a future" where
  "fu_step Task_turn mem f =
     (if fu_launch f = Async \<and> fu_value f = None then f\<lparr>fu_value := Some (fu_work f mem)\<rparr> else f)"
| "fu_step _ mem f = f"

text \<open>What \<open>get\<close> returns after some events; \<open>None\<close> when it waits for the task.\<close>

fun fu_get :: "fu_event list \<Rightarrow> memory \<Rightarrow> 'a future \<Rightarrow> 'a res option" where
  "fu_get [] mem f =
     (case fu_value f of Some v \<Rightarrow> Some v | None \<Rightarrow> if fu_launch f = Deferred then Some (fu_work f mem) else None)"
| "fu_get (e # es) mem f = fu_get es (remember e mem) (fu_step e mem f)"

section \<open>The resolvers\<close>

text \<open>The lookup of an \<open>addr_t\<close>, whose pointer is followed now.\<close>

definition lookup_pointer ::
  "(sockaddr \<Rightarrow> nat \<Rightarrow> int \<Rightarrow> (string \<times> string) option) \<Rightarrow> nat option \<times> nat \<Rightarrow> int \<Rightarrow> memory \<Rightarrow> (string \<times> string) res" where
  "lookup_pointer getnameinfo info flags mem =
     (case fst info of
        None \<Rightarrow> Inr (lookup_addr getnameinfo (None, snd info) flags)
      | Some p \<Rightarrow> (case mem p of
          None \<Rightarrow> Inl Undefined
        | Some a \<Rightarrow> Inr (lookup_addr getnameinfo (Some a, snd info) flags)))"

definition async_resolver_name ::
  "(string option \<times> string option \<times> hints \<Rightarrow> int \<times> addrinfo list) \<Rightarrow> string \<times> string \<Rightarrow> nat \<Rightarrow> int \<Rightarrow> int
    \<Rightarrow> (addrinfo list \<times> bool) future" where
  "async_resolver_name getaddrinfo name fam typ protocol =
     hpx_async Async (\<lambda>mem. Inr (lookup_name getaddrinfo name fam typ protocol))"

definition async_resolver_addr ::
  "(sockaddr \<Rightarrow> nat \<Rightarrow> int \<Rightarrow> (string \<times> string) option) \<Rightarrow> nat option \<times> nat \<Rightarrow> int \<Rightarrow> (string \<times> string) future" where
  "async_resolver_addr getnameinfo info flags = hpx_async Async (lookup_pointer getnameinfo info flags)"

definition defer_resolver_name ::
  "(string option \<times> string option \<times> hints \<Rightarrow> int \<times> addrinfo list) \<Rightarrow> string \<times> string \<Rightarrow> nat \<Rightarrow> int \<Rightarrow> int
    \<Rightarrow> (addrinfo list \<times> bool) future" where
  "defer_resolver_name getaddrinfo name fam typ protocol =
     hpx_async Deferred (\<lambda>mem. Inr (lookup_name getaddrinfo name fam typ protocol))"

definition defer_resolver_addr ::
  "(sockaddr \<Rightarrow> nat \<Rightarrow> int \<Rightarrow> (string \<times> string) option) \<Rightarrow> nat option \<times> nat \<Rightarrow> int \<Rightarrow> (string \<times> string) future" where
  "defer_resolver_addr getnameinfo info flags = hpx_async Deferred (lookup_pointer getnameinfo info flags)"

lemmas resolver_defs = async_resolver_name_def async_resolver_addr_def defer_resolver_name_def defer_resolver_addr_def
  hpx_async_def

section \<open>What the futures give\<close>

text \<open>A future whose work gives the same value in all the memories that it may meet gives that value.\<close>

fun meets :: "fu_event list \<Rightarrow> memory \<Rightarrow> memory list" where
  "meets [] mem = [mem]"
| "meets (e # es) mem = mem # meets es (remember e mem)"

lemma fu_get_value: "fu_value f = Some v \<Longrightarrow> fu_get es mem f = Some v"
proof (induction es arbitrary: mem f)
  case (Cons e es)
  then have "fu_value (fu_step e mem f) = Some v" by (cases e) simp_all
  then show ?case using Cons.IH by simp
qed simp

lemma fu_get_constant:
  "list_all (\<lambda>m. work m = v) (meets es mem) \<Longrightarrow>
     fu_get es mem (hpx_async l work) = (if l = Deferred \<or> Task_turn \<in> set es then Some v else None)"
proof (induction es arbitrary: mem)
  case (Cons e es)
  then have now: "work mem = v" and later: "list_all (\<lambda>m. work m = v) (meets es (remember e mem))" by simp_all
  show ?case
  proof (cases "e = Task_turn \<and> l = Async")
    case True
    then show ?thesis using now by (simp add: hpx_async_def fu_get_value)
  next
    case False
    then have "fu_step e mem (hpx_async l work) = hpx_async l work"
      by (cases e) (auto simp: hpx_async_def)
    then show ?thesis using Cons.IH [OF later] False by (cases l) auto
  qed
qed (simp add: hpx_async_def)

fun touches :: "nat \<Rightarrow> fu_event \<Rightarrow> bool" where
  "touches p Task_turn = False"
| "touches p (Store q a) = (q = p)"
| "touches p (Free_address q) = (q = p)"

lemma meets_untouched: "\<not> list_ex (touches p) es \<Longrightarrow> m \<in> set (meets es mem) \<Longrightarrow> m p = mem p"
proof (induction es arbitrary: mem)
  case (Cons e es)
  then have "remember e mem p = mem p" by (cases e) auto
  with Cons show ?case by auto
qed simp

lemma lookup_pointer_live:
  "mem p = Some a \<Longrightarrow> lookup_pointer gni (Some p, len) flags mem = Inr (lookup_addr gni (Some a, len) flags)"
  by (simp add: lookup_pointer_def)

text \<open>
  C21: a resolver of a name, asynchronous or deferred, gives what the lookup gives, whatever the
  caller does to its memory meanwhile. A resolver of an address gives that only while the
  caller leaves the address alone until the result is there: it keeps the pointer, and after the
  address is gone the lookup reads freed memory.
\<close>

theorem resolvers_capture:
  assumes "mem p = Some a" and "\<not> list_ex (touches p) es"
  shows "fu_get es' mem (defer_resolver_name gai name fam typ proto) = Some (Inr (lookup_name gai name fam typ proto))
    \<and> fu_get es' mem (async_resolver_name gai name fam typ proto)
      = (if Task_turn \<in> set es' then Some (Inr (lookup_name gai name fam typ proto)) else None)
    \<and> fu_get es mem (defer_resolver_addr gni (Some p, len) flags) = Some (Inr (lookup_addr gni (Some a, len) flags))
    \<and> fu_get es mem (async_resolver_addr gni (Some p, len) flags)
      = (if Task_turn \<in> set es then Some (Inr (lookup_addr gni (Some a, len) flags)) else None)
    \<and> fu_get [Free_address p] mem (defer_resolver_addr gni (Some p, len) flags) = Some (Inl Undefined)
    \<and> fu_get [Free_address p, Task_turn] mem (async_resolver_addr gni (Some p, len) flags) = Some (Inl Undefined)"
proof -
  have addr: "list_all (\<lambda>m. lookup_pointer gni (Some p, len) flags m = Inr (lookup_addr gni (Some a, len) flags)) (meets es mem)"
    unfolding list_all_iff
  proof
    fix m assume "m \<in> set (meets es mem)"
    then have "m p = Some a" using meets_untouched [OF assms(2)] assms(1) by metis
    then show "lookup_pointer gni (Some p, len) flags m = Inr (lookup_addr gni (Some a, len) flags)"
      by (rule lookup_pointer_live)
  qed
  have name: "list_all (\<lambda>m. Inr (lookup_name gai name fam typ proto) = (Inr (lookup_name gai name fam typ proto) :: _ res)) (meets es' mem)"
    by (simp add: list_all_iff)
  have freed: "fu_get [Free_address p] mem (hpx_async Deferred (lookup_pointer gni (Some p, len) flags)) = Some (Inl Undefined)"
    "fu_get [Free_address p, Task_turn] mem (hpx_async Async (lookup_pointer gni (Some p, len) flags)) = Some (Inl Undefined)"
    by (simp_all add: hpx_async_def lookup_pointer_def)
  show ?thesis
    using freed fu_get_constant [OF addr, of Async] fu_get_constant [OF addr, of Deferred]
      fu_get_constant [OF name, of Async] fu_get_constant [OF name, of Deferred]
    unfolding async_resolver_name_def async_resolver_addr_def defer_resolver_name_def defer_resolver_addr_def
    by simp
qed

lemma resolvers_capture_witness:
  "fu_get [Free_address 8, Task_turn] ((\<lambda>_. None)(7 \<mapsto> [2, 0]))
      (async_resolver_addr (\<lambda>a len flags. Some (''localhost'', ''80'')) (Some 7, 2) 0) = Some (Inr (''localhost'', ''80''))"
  using resolvers_capture [of "(\<lambda>_. None)(7 \<mapsto> [2, 0])" 7 "[2, 0]" "[Free_address 8, Task_turn]" _ _ _ _ _ _
      "\<lambda>a len flags. Some (''localhost'', ''80'')" 2 0]
  by (simp add: lookup_addr_def)

end
