(* ===== verification/Barrier_Phases.thy ===== *)
theory Barrier_Phases
  imports Sync_Scopes
begin

text \<open>
  The scopes of \<open>barrier_scope\<close> (\<open>src/src/sync.hpp\<close>) together with their barrier. The barrier is
  that of the standard library: it expects a number of arrivals for each phase; the last one
  starts the next phase and wakes the threads that wait for it; dropping arrives and
  lowers the number expected from the next phase on. An arrival that is not expected is outside
  its contract.
\<close>

record barrier =
  br_expected :: nat
  br_pending :: nat
  br_phase :: nat

definition br_new :: "nat \<Rightarrow> barrier" where
  "br_new n = \<lparr>br_expected = n, br_pending = n, br_phase = 0\<rparr>"

definition br_arrive :: "barrier \<Rightarrow> barrier res" where
  "br_arrive b =
     (if br_pending b = 0 then Inl Undefined
      else if br_pending b = 1 then Inr (b\<lparr>br_pending := br_expected b, br_phase := br_phase b + 1\<rparr>)
      else Inr (b\<lparr>br_pending := br_pending b - 1\<rparr>))"

fun br_event :: "barrier_event \<Rightarrow> barrier \<Rightarrow> barrier res" where
  "br_event (Arrive_and_wait p) b = br_arrive b"
| "br_event (Arrive_and_drop p) b = br_arrive (b\<lparr>br_expected := br_expected b - 1\<rparr>)"

fun br_run :: "barrier_event list \<Rightarrow> barrier \<Rightarrow> barrier res" where
  "br_run [] b = Inr b"
| "br_run (e # es) b = (case br_event e b of Inl f \<Rightarrow> Inl f | Inr b' \<Rightarrow> br_run es b')"

text \<open>An arrival of phase \<open>p\<close> waits while the barrier is in that phase.\<close>

definition br_waits :: "nat \<Rightarrow> barrier \<Rightarrow> bool" where
  "br_waits p b = (br_phase b = p)"

lemma br_run_pending:
  "length es < br_pending b \<Longrightarrow>
     \<exists>b'. br_run es b = Inr b' \<and> br_pending b' = br_pending b - length es \<and> br_phase b' = br_phase b"
proof (induction es arbitrary: b)
  case (Cons e es)
  define b1 where "b1 = (case e of Arrive_and_wait p \<Rightarrow> b\<lparr>br_pending := br_pending b - 1\<rparr>
    | Arrive_and_drop p \<Rightarrow> b\<lparr>br_expected := br_expected b - 1, br_pending := br_pending b - 1\<rparr>)"
  have step: "br_event e b = Inr b1" using Cons.prems by (cases e) (auto simp: br_arrive_def b1_def)
  have b1: "br_pending b1 = br_pending b - 1" "br_phase b1 = br_phase b" by (cases e; simp add: b1_def)+
  then have "length es < br_pending b1" using Cons.prems by simp
  from Cons.IH [OF this] show ?case using step b1 by auto
qed simp

lemma br_run_append: "br_run (xs @ ys) b = (case br_run xs b of Inl f \<Rightarrow> Inl f | Inr b' \<Rightarrow> br_run ys b')"
  by (induction xs arbitrary: b) (auto split: sum.splits)

lemma br_run_completes:
  assumes "length es = br_pending b" and "es \<noteq> []"
  shows "\<exists>b'. br_run es b = Inr b' \<and> br_phase b' = br_phase b + 1"
proof -
  obtain xs e where es: "es = xs @ [e]" using assms(2) by (cases es rule: rev_exhaust) auto
  then have "length xs < br_pending b" using assms(1) by simp
  from br_run_pending [OF this] obtain b1 where b1: "br_run xs b = Inr b1" "br_pending b1 = 1" "br_phase b1 = br_phase b"
    using assms(1) es by auto
  then have "\<exists>b'. br_event e b1 = Inr b' \<and> br_phase b' = br_phase b + 1" by (cases e) (simp_all add: br_arrive_def)
  then show ?thesis using es b1(1) by (auto simp: br_run_append)
qed

text \<open>The arrivals at one barrier, among those of a program.\<close>

definition at_barrier :: "nat \<Rightarrow> barrier_event list \<Rightarrow> barrier_event list" where
  "at_barrier b es = filter (\<lambda>e. event_barrier e = Some b) es"

lemma length_at_barrier: "length (at_barrier b es) = count_list (map event_barrier es) (Some b)"
  by (induction es) (simp_all add: at_barrier_def)

text \<open>
  C19: a barrier for as many arrivals as a program makes scopes on it, and scopes that are moved,
  assigned, waited on, dropped and destroyed in any way until none is left: exactly when the last of
  them arrives the barrier's phase ends, so that every scope that waits there is woken, and
  no scope waits past it or arrives once too often.
\<close>

theorem barrier_scopes_end_the_phase:
  assumes "early_run bs_ops bs_early cs (replicate n None) = (replicate n None, tk, map event_barrier es)"
    and "count_list tk (Some b) = k" and "0 < k"
  shows "(\<exists>br. br_run (at_barrier b es) (br_new k) = Inr br \<and> \<not> br_waits 0 br)
    \<and> (\<forall>j < k. \<exists>br. br_run (take j (at_barrier b es)) (br_new k) = Inr br \<and> br_waits 0 br)"
proof -
  have "mset (map event_barrier es) = mset tk" by (rule bs.early_run_discharges_all [OF assms(1)])
  then have len: "length (at_barrier b es) = k"
    using assms(2) unfolding length_at_barrier by (metis count_mset)
  have "at_barrier b es \<noteq> []" using len assms(3) by auto
  from br_run_completes [OF _ this, of "br_new k"] have "\<exists>br. br_run (at_barrier b es) (br_new k) = Inr br \<and> \<not> br_waits 0 br"
    using len by (auto simp: br_new_def br_waits_def)
  moreover have "\<exists>br. br_run (take j (at_barrier b es)) (br_new k) = Inr br \<and> br_waits 0 br" if "j < k" for j
    using br_run_pending [of "take j (at_barrier b es)" "br_new k"] that len
    by (auto simp: br_new_def br_waits_def)
  ultimately show ?thesis by blast
qed

lemma barrier_scopes_end_the_phase_witness:
  "\<exists>br. br_run (at_barrier 1 [Arrive_and_wait (Some 1), Arrive_and_drop (Some 2), Arrive_and_wait (Some 1)]) (br_new 2) = Inr br
    \<and> br_phase br = 1"
proof -
  have "early_run bs_ops bs_early [Call (Construct 0 1), Call (Construct 1 1), Early 0 Wait_member, Call (Construct 2 2),
      Early 0 Drop_member, Call (Move_assign 2 1), Call (Destroy 0), Call (Destroy 1), Call (Destroy 2)]
      (replicate 3 None) = (replicate 3 None, [Some 1, Some 1, Some 2],
      map event_barrier [Arrive_and_wait (Some 1), Arrive_and_drop (Some 2), Arrive_and_wait (Some 1)])"
    by (simp add: bs_defs eval_nat_numeral)
  from barrier_scopes_end_the_phase [OF this, of 1 2] show ?thesis
    by (auto simp: br_waits_def at_barrier_def br_new_def br_arrive_def)
qed

end
