(* ===== verification/Event_Copies.thy ===== *)
theory Event_Copies
  imports Sync_Scopes
begin

text \<open>
  The objects of class \<open>event\<close> (\<open>src/src/sync.hpp\<close>). Their copies share a semaphore through a
  \<open>shared_ptr\<close>. The class declares \<open>event(event&)\<close>, a second copy constructor, and no
  moving one, so that constructing an event from another always copies it; its move assignment
  leaves the source without a semaphore. The calls of \<open>Sync_Scopes\<close> on a semaphore are
  made through the pointer here.
\<close>

type_synonym event = "nat option"

text \<open>
  The events that are alive, the semaphores by number, and for each semaphore the signals and the
  waits that passed. \<open>ew_undefined\<close> once a call had undefined behaviour.
\<close>

record event_world =
  ew_events :: "event option list"
  ew_bins :: "bool list"
  ew_signals :: "nat list"
  ew_passed :: "nat list"
  ew_undefined :: bool

definition ew_initial :: "nat \<Rightarrow> event_world" where
  "ew_initial n = \<lparr>ew_events = replicate n None, ew_bins = [], ew_signals = [], ew_passed = [], ew_undefined = False\<rparr>"

definition set_event :: "nat \<Rightarrow> event option \<Rightarrow> event_world \<Rightarrow> event_world" where
  "set_event i e w = w\<lparr>ew_events := (ew_events w)[i := e]\<rparr>"

definition ev_construct :: "nat \<Rightarrow> event_world \<Rightarrow> event_world" where
  "ev_construct i w = set_event i (Some (Some (length (ew_bins w)))) (w\<lparr>ew_bins := ew_bins w @ [ev_new]\<rparr>)"

definition ev_copy :: "event \<Rightarrow> event" where
  "ev_copy from = from"

definition ev_move_assign :: "event \<Rightarrow> event \<times> event" where
  "ev_move_assign from = (from, None)"

definition through_signal :: "event \<Rightarrow> event_world \<Rightarrow> event_world" where
  "through_signal e w = (case e of
     None \<Rightarrow> w\<lparr>ew_undefined := True\<rparr>
   | Some b \<Rightarrow> (case ev_signal (ew_bins w ! b) of
       Inl f \<Rightarrow> w\<lparr>ew_undefined := True\<rparr>
     | Inr bin \<Rightarrow> w\<lparr>ew_bins := (ew_bins w)[b := bin], ew_signals := b # ew_signals w\<rparr>))"

text \<open>A \<open>wait\<close> that has to wait is a move that cannot be made yet.\<close>

definition through_wait :: "event \<Rightarrow> event_world \<Rightarrow> event_world option" where
  "through_wait e w = (case e of
     None \<Rightarrow> Some (w\<lparr>ew_undefined := True\<rparr>)
   | Some b \<Rightarrow> map_option (\<lambda>bin. w\<lparr>ew_bins := (ew_bins w)[b := bin], ew_passed := b # ew_passed w\<rparr>) (ev_wait (ew_bins w ! b)))"

definition through_try_wait :: "event \<Rightarrow> event_world \<Rightarrow> event_world" where
  "through_try_wait e w = (case e of
     None \<Rightarrow> w\<lparr>ew_undefined := True\<rparr>
   | Some b \<Rightarrow> (case ev_try_wait (ew_bins w ! b) of (bin, passed) \<Rightarrow>
       w\<lparr>ew_bins := (ew_bins w)[b := bin], ew_passed := (if passed then b # ew_passed w else ew_passed w)\<rparr>))"

datatype event_call =
    Make nat | Copy nat nat | Copy_assign nat nat | Move_assign_event nat nat | End nat
  | Signal nat | Wait nat | Try_wait nat

definition event_at :: "nat \<Rightarrow> event_world \<Rightarrow> event option" where
  "event_at i w = (if i < length (ew_events w) \<and> \<not> ew_undefined w then ew_events w ! i else None)"

definition vacant :: "nat \<Rightarrow> event_world \<Rightarrow> bool" where
  "vacant i w = (i < length (ew_events w) \<and> \<not> ew_undefined w \<and> ew_events w ! i = None)"

fun ev_do :: "event_call \<Rightarrow> event_world \<Rightarrow> event_world option" where
  "ev_do (Make i) w = (if vacant i w then Some (ev_construct i w) else None)"
| "ev_do (Copy i j) w =
     (if vacant i w then map_option (\<lambda>e. set_event i (Some (ev_copy e)) w) (event_at j w) else None)"
| "ev_do (Copy_assign i j) w =
     (if event_at i w = None then None else map_option (\<lambda>e. set_event i (Some (ev_copy e)) w) (event_at j w))"
| "ev_do (Move_assign_event i j) w =
     (if event_at i w = None then None else if i = j then Some w
      else map_option (\<lambda>e. case ev_move_assign e of (e1, e2) \<Rightarrow> set_event j (Some e2) (set_event i (Some e1) w)) (event_at j w))"
| "ev_do (End i) w = (if event_at i w = None then None else Some (set_event i None w))"
| "ev_do (Signal i) w = map_option (\<lambda>e. through_signal e w) (event_at i w)"
| "ev_do (Wait i) w = (case event_at i w of None \<Rightarrow> None | Some e \<Rightarrow> through_wait e w)"
| "ev_do (Try_wait i) w = map_option (\<lambda>e. through_try_wait e w) (event_at i w)"

abbreviation ev_run :: "event_call list \<Rightarrow> event_world \<Rightarrow> event_world option" where
  "ev_run \<equiv> run_moves ev_do"

section \<open>Signals and waits balance\<close>

text \<open>Every pointer is to a semaphore that was made, and every semaphore is balanced.\<close>

definition ew_inv :: "event_world \<Rightarrow> bool" where
  "ew_inv w = ((\<forall>b. Some (Some b) \<in> set (ew_events w) \<longrightarrow> b < length (ew_bins w))
     \<and> (\<forall>b < length (ew_bins w). count_list (ew_signals w) b = count_list (ew_passed w) b + of_bool (ew_bins w ! b))
     \<and> set (ew_signals w) \<subseteq> {..<length (ew_bins w)} \<and> set (ew_passed w) \<subseteq> {..<length (ew_bins w)})"

lemma event_at_bin: "ew_inv w \<Longrightarrow> event_at i w = Some (Some b) \<Longrightarrow> b < length (ew_bins w)"
  by (auto simp: event_at_def ew_inv_def split: if_splits) (metis nth_mem)

lemma set_event_inv:
  assumes "ew_inv w" and "\<And>b. e = Some (Some b) \<Longrightarrow> b < length (ew_bins w)"
  shows "ew_inv (set_event i e w)"
proof -
  have "Some (Some b) \<in> set (ew_events w) \<or> e = Some (Some b)" if "Some (Some b) \<in> set ((ew_events w)[i := e])" for b
    using that set_update_subset_insert [of "ew_events w" i e] by auto
  then show ?thesis using assms by (auto simp: ew_inv_def set_event_def)
qed

lemma ev_construct_inv: "ew_inv w \<Longrightarrow> ew_inv (ev_construct i w)"
proof -
  assume inv: "ew_inv w"
  have "length (ew_bins w) \<notin> set (ew_signals w)" "length (ew_bins w) \<notin> set (ew_passed w)" using inv by (auto simp: ew_inv_def)
  then have "ew_inv (w\<lparr>ew_bins := ew_bins w @ [ev_new]\<rparr>)"
    using inv by (auto simp: ew_inv_def ev_new_def nth_append less_Suc_eq count_list_0_iff)
  then show ?thesis unfolding ev_construct_def by (rule set_event_inv) simp
qed

lemma through_inv:
  assumes inv: "ew_inv w" and "\<And>b. e = Some b \<Longrightarrow> b < length (ew_bins w)"
  shows "ew_inv (through_signal e w)" and "through_wait e w = Some w' \<Longrightarrow> ew_inv w'" and "ew_inv (through_try_wait e w)"
  using assms
  by (auto simp: ew_inv_def through_signal_def through_wait_def through_try_wait_def ev_signal_def ev_wait_def ev_try_wait_def
      nth_list_update split: option.splits if_splits)

lemma copied_inv: "ew_inv w \<Longrightarrow> event_at j w = Some e \<Longrightarrow> ew_inv (set_event i (Some e) w)"
  by (rule set_event_inv) (auto dest: event_at_bin)

lemma ev_do_inv:
  assumes inv: "ew_inv w" and step: "ev_do c w = Some w'"
  shows "ew_inv w'"
proof -
  have through: "ew_inv (through_signal e w)" "through_wait e w = Some w' \<Longrightarrow> ew_inv w'" "ew_inv (through_try_wait e w)"
    if "event_at i w = Some e" for i e
    using through_inv [OF inv, of e] event_at_bin [OF inv, of i] that by auto
  show ?thesis
  proof (cases c)
    case (Make i)
    then show ?thesis using step ev_construct_inv [OF inv] by (auto split: if_splits)
  next
    case (Copy i j)
    then show ?thesis using step copied_inv [OF inv] by (auto simp: ev_copy_def split: if_splits)
  next
    case (Copy_assign i j)
    then show ?thesis using step copied_inv [OF inv] by (auto simp: ev_copy_def split: if_splits)
  next
    case (Move_assign_event i j)
    show ?thesis
    proof (cases "i = j")
      case True
      then show ?thesis using step Move_assign_event inv by (simp split: if_splits)
    next
      case False
      then obtain e where e: "event_at j w = Some e" "set_event j (Some None) (set_event i (Some e) w) = w'"
        using step Move_assign_event by (cases "event_at i w"; cases "event_at j w") (simp_all add: ev_move_assign_def)
      from set_event_inv [where e = "Some None" and i = j, OF copied_inv [where i = i, OF inv e(1)]]
      show ?thesis unfolding e(2) [symmetric] by simp
    qed
  next
    case (End i)
    then show ?thesis using step set_event_inv [OF inv, of None] by (auto split: if_splits)
  next
    case (Signal i)
    then show ?thesis using step through(1) [of i] by auto
  next
    case (Wait i)
    then show ?thesis using step through(2) [of i] by (simp split: option.splits)
  next
    case (Try_wait i)
    then show ?thesis using step through(3) [of i] by auto
  qed
qed

interpretation event_calls: run_invariant ev_do ew_inv "\<lambda>_. False"
  by unfold_locales (rule ev_do_inv)

fun moves_event :: "event_call \<Rightarrow> bool" where
  "moves_event (Move_assign_event i j) = True"
| "moves_event _ = False"

definition no_nulls :: "event_world \<Rightarrow> bool" where
  "no_nulls w = (Some None \<notin> set (ew_events w))"

lemma no_nulls_at: "no_nulls w \<Longrightarrow> event_at i w \<noteq> Some None"
  by (auto simp: event_at_def no_nulls_def split: if_splits) (metis nth_mem)

lemma set_event_no_nulls: "no_nulls w \<Longrightarrow> e \<noteq> Some None \<Longrightarrow> no_nulls (set_event i e w)"
  using set_update_subset_insert [of "ew_events w" i e] by (auto simp: no_nulls_def set_event_def)

lemma through_no_nulls:
  assumes "no_nulls w"
  shows "no_nulls (through_signal e w)" and "through_wait e w = Some w' \<Longrightarrow> no_nulls w'" and "no_nulls (through_try_wait e w)"
  using assms
  by (auto simp: no_nulls_def through_signal_def through_wait_def through_try_wait_def ev_signal_def ev_wait_def ev_try_wait_def
      split: option.splits if_splits)

lemma ev_do_no_nulls:
  assumes w: "no_nulls w" and step: "ev_do c w = Some w'" and c: "\<not> moves_event c"
  shows "no_nulls w'"
proof -
  note at = no_nulls_at [OF w]
  have new: "no_nulls (ev_construct i w)" for i
    using set_event_no_nulls [of "w\<lparr>ew_bins := ew_bins w @ [ev_new]\<rparr>" "Some (Some (length (ew_bins w)))" i] w
    by (simp add: ev_construct_def no_nulls_def)
  have copied: "no_nulls (set_event i (Some e) w)" if "event_at j w = Some e" for i j e
    using set_event_no_nulls [OF w, of "Some e"] at [of j] that by auto
  show ?thesis
  proof (cases c)
    case (End i)
    then show ?thesis using step set_event_no_nulls [OF w, of None] by (auto split: if_splits)
  next
    case (Wait i)
    then show ?thesis using step through_no_nulls(2) [OF w] by (auto split: option.splits)
  qed (use step c new copied through_no_nulls(1,3) [OF w] in \<open>auto simp: ev_copy_def split: if_splits\<close>)
qed

interpretation unmoved_events: run_invariant ev_do no_nulls moves_event
  by unfold_locales (rule ev_do_no_nulls)

text \<open>
  However events are made, copied, assigned and destroyed, and whichever copies the signals
  and waits go through, the waits that passed at a semaphore are as many as its signals, less one
  that is still to be taken; and while no event is assigned by moving, none is without a
  semaphore, so that only a second signal before a wait is undefined.
\<close>

theorem event_copies_balance:
  assumes "ev_run cs (ew_initial n) = Some w"
  shows "b < length (ew_bins w) \<Longrightarrow> count_list (ew_signals w) b = count_list (ew_passed w) b + of_bool (ew_bins w ! b)"
    and "\<not> list_ex moves_event cs \<Longrightarrow> event_at i w = Some e \<Longrightarrow>
      \<exists>b. e = Some b \<and> (ew_undefined (through_signal e w) \<longleftrightarrow> ew_bins w ! b) \<and> \<not> ew_undefined (through_try_wait e w)"
proof -
  have "ew_inv (ew_initial n)" "no_nulls (ew_initial n)" by (auto simp: ew_inv_def no_nulls_def ew_initial_def)
  then have inv: "ew_inv w" and nn: "\<not> list_ex moves_event cs \<Longrightarrow> no_nulls w"
    using event_calls.run_inv [OF _ assms] unmoved_events.run_inv [OF _ assms] by simp_all
  from inv show "b < length (ew_bins w) \<Longrightarrow> count_list (ew_signals w) b = count_list (ew_passed w) b + of_bool (ew_bins w ! b)"
    by (simp add: ew_inv_def)
  assume "\<not> list_ex moves_event cs" and at: "event_at i w = Some e"
  then obtain b where "e = Some b" using no_nulls_at [OF nn, of i] by (cases e) auto
  then show "\<exists>b. e = Some b \<and> (ew_undefined (through_signal e w) \<longleftrightarrow> ew_bins w ! b) \<and> \<not> ew_undefined (through_try_wait e w)"
    using at by (auto simp: event_at_def through_signal_def through_try_wait_def ev_signal_def ev_try_wait_def split: if_splits)
qed

text \<open>A signal through one copy lets a wait through another pass; a moved event has lost its semaphore.\<close>

lemma event_copies_run:
  "case ev_run [Make 0, Copy 1 0, Signal 0, Wait 1, Make 2, Move_assign_event 2 1, Signal 0, Try_wait 2, Wait 1] (ew_initial 3) of
     None \<Rightarrow> False
   | Some w \<Rightarrow> ew_undefined w \<and> ew_passed w = [0, 0] \<and> ew_events w = [Some (Some 0), Some None, Some (Some 0)]"
  by (simp add: ew_initial_def vacant_def event_at_def set_event_def ev_construct_def ev_copy_def ev_move_assign_def
      through_signal_def through_wait_def through_try_wait_def ev_new_def ev_signal_def ev_wait_def ev_try_wait_def eval_nat_numeral)

end
