(* ===== verification/Dictionary_Walks.thy ===== *)
theory Dictionary_Walks
  imports Dictionary_Readers
begin

text \<open>
  \<open>keys\<close> and \<open>each\<close> of \<open>dictionary_t\<close> (\<open>src/src/atomic.hpp\<close>), which walk all the buckets of the table
  while other threads insert: one step for each load of a bucket and each node, over a
  table of the buckets of \<open>Dictionary_Threads\<close>.
\<close>

section \<open>The steps\<close>

text \<open>
  A walk is about to load a bucket, or in a bucket with \<open>current\<close>, or has returned. It carries
  the entries it met, in order (\<open>keys\<close> keeps their keys; \<open>each\<close> calls its function with them, here
  one that does not change the values), and the nodes that were linked in each bucket when it loaded that.
\<close>

datatype ('k, 'v) walk_phase =
    No_walk
  | Entering nat "('k \<times> 'v) list" "nat list list"
  | Listing nat "nat option" "('k \<times> 'v) list" "nat list list"
  | Listed "('k \<times> 'v) list" "nat list list"

record ('k, 'v) dw_world =
  dw_table :: "('k, 'v) dt_world list"
  dw_walks :: "('k, 'v) walk_phase list"

datatype ('k, 'v) dw_move = In_bucket nat "nat \<times> ('k, 'v) dt_move" | Walk_call nat | Walk_on nat

definition dw_initial :: "nat \<Rightarrow> nat \<Rightarrow> nat \<Rightarrow> ('k, 'v) dw_world" where
  "dw_initial S n m = \<lparr>dw_table = replicate S (dt_initial n), dw_walks = replicate m No_walk\<rparr>"

definition set_walk :: "nat \<Rightarrow> ('k, 'v) walk_phase \<Rightarrow> ('k, 'v) dw_world \<Rightarrow> ('k, 'v) dw_world" where
  "set_walk r p w = w\<lparr>dw_walks := (dw_walks w)[r := p]\<rparr>"

text \<open>Reading a deleted node is undefined, and \<open>None\<close> here.\<close>

definition walk_step :: "('k, 'v) dt_world list \<Rightarrow> ('k, 'v) walk_phase \<Rightarrow> ('k, 'v) walk_phase option" where
  "walk_step table p = (case p of
     Entering b out seen \<Rightarrow>
       Some (if b < length table then Listing b (dt_head (table ! b)) out (seen @ [dt_linked (table ! b)]) else Listed out seen)
   | Listing b None out seen \<Rightarrow> Some (Entering (b + 1) out seen)
   | Listing b (Some c) out seen \<Rightarrow>
       (case dt_node (table ! b) c of
          None \<Rightarrow> None
        | Some entry \<Rightarrow> Some (Listing b (dt_next (table ! b) c) (out @ [entry]) seen))
   | _ \<Rightarrow> None)"

text \<open>The bucket of a key is given by \<open>key_index\<close>.\<close>

fun in_own_bucket :: "('k \<Rightarrow> nat) \<Rightarrow> nat \<Rightarrow> ('k, 'v) dt_move \<Rightarrow> bool" where
  "in_own_bucket index b (Insert k v) = (index k = b)"
| "in_own_bucket index b (Remove k) = (index k = b)"
| "in_own_bucket index b _ = True"

fun dw_do :: "('k \<Rightarrow> nat) \<Rightarrow> ('k, 'v) dw_move \<Rightarrow> ('k, 'v) dw_world \<Rightarrow> ('k, 'v) dw_world option" where
  "dw_do index (In_bucket b m) w =
     (if b < length (dw_table w) \<and> in_own_bucket index b (snd m)
      then map_option (\<lambda>t. w\<lparr>dw_table := (dw_table w)[b := t]\<rparr>) (dt_do m (dw_table w ! b)) else None)"
| "dw_do index (Walk_call r) w =
     (if r < length (dw_walks w) then Some (set_walk r (Entering 0 [] []) w) else None)"
| "dw_do index (Walk_on r) w =
     (if r < length (dw_walks w)
      then map_option (\<lambda>p. set_walk r p w) (walk_step (dw_table w) (dw_walks w ! r)) else None)"

abbreviation dw_run :: "('k \<Rightarrow> nat) \<Rightarrow> ('k, 'v) dw_move list \<Rightarrow> ('k, 'v) dw_world \<Rightarrow> ('k, 'v) dw_world option" where
  "dw_run index \<equiv> run_moves (dw_do index)"

fun walked :: "('k, 'v) walk_phase \<Rightarrow> nat list list" where
  "walked No_walk = []"
| "walked (Entering b out seen) = seen"
| "walked (Listing b c out seen) = seen"
| "walked (Listed out seen) = seen"

section \<open>Walks during insertions\<close>

fun dw_removes :: "('k, 'v) dw_move \<Rightarrow> bool" where
  "dw_removes (In_bucket b m) = is_remove m"
| "dw_removes _ = False"

definition node_entries :: "('k, 'v) dt_world \<Rightarrow> nat list \<Rightarrow> ('k \<times> 'v) list" where
  "node_entries t ns = map (\<lambda>n. the (dt_node t n)) ns"

definition entries :: "('k, 'v) dt_world list \<Rightarrow> nat list list \<Rightarrow> ('k \<times> 'v) list" where
  "entries table seen = concat (map2 node_entries table seen)"

text \<open>The nodes that a walk saw are still the last ones of their buckets.\<close>

definition still_linked :: "('k, 'v) dt_world list \<Rightarrow> nat list list \<Rightarrow> bool" where
  "still_linked table seen = (length seen \<le> length table
     \<and> (\<forall>b < length seen. suffix (seen ! b) (dt_linked (table ! b))))"

fun walk_fits :: "('k, 'v) dt_world list \<Rightarrow> ('k, 'v) walk_phase \<Rightarrow> bool" where
  "walk_fits table No_walk = True"
| "walk_fits table (Entering b out seen) = (still_linked table seen \<and> length seen = b \<and> out = entries table seen)"
| "walk_fits table (Listing b current out seen) = (\<exists>before passed rest. seen = before @ [passed @ rest] \<and> length before = b
     \<and> still_linked table seen \<and> chain (dt_next (table ! b)) current rest
     \<and> out = entries table before @ node_entries (table ! b) passed)"
| "walk_fits table (Listed out seen) = (still_linked table seen \<and> length seen = length table \<and> out = entries table seen)"

definition bucket_ok :: "('k, 'v) dt_world \<Rightarrow> bool" where
  "bucket_ok t = (dt_inv t \<and> nodes_made t)"

definition dw_inv :: "('k, 'v) dw_world \<Rightarrow> bool" where
  "dw_inv w = (list_all bucket_ok (dw_table w) \<and> list_all (walk_fits (dw_table w)) (dw_walks w))"

definition table_extends :: "('k, 'v) dt_world list \<Rightarrow> ('k, 'v) dt_world list \<Rightarrow> bool" where
  "table_extends ts ts' = list_all2 extends ts ts'"

lemma table_extends_refl [simp]: "table_extends ts ts"
  by (simp add: table_extends_def list_all2_same)

lemma table_extends_trans: "table_extends a b \<Longrightarrow> table_extends b c \<Longrightarrow> table_extends a c"
  unfolding table_extends_def by (rule list_all2_trans [OF extends_trans])

lemma table_extends_update: "b < length ts \<Longrightarrow> extends (ts ! b) t \<Longrightarrow> table_extends ts (ts[b := t])"
  by (auto simp: table_extends_def list_all2_conv_all_nth nth_list_update)

lemma table_extends_nth: "table_extends ts ts' \<Longrightarrow> b < length ts \<Longrightarrow> extends (ts ! b) (ts' ! b)"
  by (simp add: table_extends_def list_all2_conv_all_nth)

lemma table_extends_length: "table_extends ts ts' \<Longrightarrow> length ts' = length ts"
  by (simp add: table_extends_def list_all2_lengthD)

lemma extends_entries:
  "extends t t' \<Longrightarrow> suffix ns (dt_linked t) \<Longrightarrow> set ms \<subseteq> set ns \<Longrightarrow> node_entries t' ms = node_entries t ms"
  by (auto simp: node_entries_def extends_def dest!: set_mono_suffix)

lemma still_linked_extends: "table_extends ts ts' \<Longrightarrow> still_linked ts seen \<Longrightarrow> still_linked ts' seen"
proof -
  assume ext: "table_extends ts ts'" and still: "still_linked ts seen"
  have "suffix (seen ! b) (dt_linked (ts' ! b))" if "b < length seen" for b
  proof -
    have "suffix (seen ! b) (dt_linked (ts ! b))" "b < length ts" using still that by (auto simp: still_linked_def)
    then show ?thesis using table_extends_nth [OF ext] by (auto simp: extends_def intro: suffix_order.trans)
  qed
  then show ?thesis using still table_extends_length [OF ext] by (simp add: still_linked_def)
qed

lemma entries_extends:
  assumes ext: "table_extends ts ts'" and still: "still_linked ts seen"
  shows "entries ts' seen = entries ts seen"
proof -
  have "map2 node_entries ts' seen = map2 node_entries ts seen"
  proof (rule nth_equalityI)
    fix b assume "b < length (map2 node_entries ts' seen)"
    then have b: "b < length seen" "b < length ts" "b < length ts'" using table_extends_length [OF ext] by simp_all
    then have "suffix (seen ! b) (dt_linked (ts ! b))" using still by (simp add: still_linked_def)
    from extends_entries [OF table_extends_nth [OF ext b(2)] this] b
    show "map2 node_entries ts' seen ! b = map2 node_entries ts seen ! b" by simp
  qed (use table_extends_length [OF ext] in simp)
  then show ?thesis by (simp add: entries_def)
qed

lemma still_linked_butlast: "still_linked ts (seen @ xs) \<Longrightarrow> still_linked ts seen"
  by (auto simp: still_linked_def nth_append split: if_splits)

lemma still_linked_last: "still_linked ts (seen @ [ns]) \<Longrightarrow> length seen < length ts \<and> suffix ns (dt_linked (ts ! length seen))"
  by (auto simp: still_linked_def)

lemma walk_fits_extends:
  assumes ext: "table_extends ts ts'" and "walk_fits ts p"
  shows "walk_fits ts' p"
proof (cases p)
  case (Listing b current out seen)
  then obtain before passed rest where p: "seen = before @ [passed @ rest]" "length before = b" "still_linked ts seen"
      "chain (dt_next (ts ! b)) current rest" "out = entries ts before @ node_entries (ts ! b) passed"
    using assms(2) by auto
  then have b: "b < length ts" "suffix (passed @ rest) (dt_linked (ts ! b))" using still_linked_last [of ts before] by auto
  note ext1 = table_extends_nth [OF ext b(1)]
  have "suffix rest (dt_linked (ts ! b))" using b(2) by (rule suffix_appendD)
  then have "chain (dt_next (ts' ! b)) current rest" using extends_chain [OF ext1] p(4) by simp
  moreover have "entries ts' before = entries ts before"
    using entries_extends [OF ext] still_linked_butlast p(1,3) by blast
  moreover have "node_entries (ts' ! b) passed = node_entries (ts ! b) passed"
    by (rule extends_entries [OF ext1 b(2)]) simp
  ultimately show ?thesis
    using p still_linked_extends [OF ext p(3)] unfolding Listing walk_fits.simps
    by (intro exI [of _ before] exI [of _ passed] exI [of _ rest]) simp
qed (use assms entries_extends [OF ext] still_linked_extends [OF ext] table_extends_length [OF ext] in auto)

lemma entries_append:
  "length seen < length ts \<Longrightarrow> entries ts (seen @ [ns]) = entries ts seen @ node_entries (ts ! length seen) ns"
proof -
  assume len: "length seen < length ts"
  then have "zip ts (seen @ [ns]) = zip (take (length seen) ts) seen @ [(ts ! length seen, ns)]"
    by (simp add: zip_append2 hd_drop_conv_nth zip_Cons1 Cons_nth_drop_Suc [symmetric])
  moreover have "zip (take (length seen) ts) seen = zip ts seen"
    using zip_append2 [of ts seen "[]"] by simp
  ultimately show ?thesis by (simp add: entries_def)
qed

lemma still_linked_append:
  "still_linked ts seen \<Longrightarrow> length seen < length ts \<Longrightarrow> still_linked ts (seen @ [dt_linked (ts ! length seen)])"
  by (auto simp: still_linked_def nth_append less_Suc_eq)

lemma walk_step_fits:
  assumes ok: "list_all bucket_ok ts" and fits: "walk_fits ts p"
  shows "(case walk_step ts p of None \<Rightarrow> p = No_walk \<or> (\<exists>out seen. p = Listed out seen) | Some q \<Rightarrow> walk_fits ts q)"
proof (cases p)
  case (Entering b out seen)
  then have e: "still_linked ts seen" "length seen = b" "out = entries ts seen" using fits by simp_all
  show ?thesis
  proof (cases "b < length ts")
    case True
    then have "chain (dt_next (ts ! b)) (dt_head (ts ! b)) (dt_linked (ts ! b))"
      using ok by (simp add: list_all_length bucket_ok_def dt_inv_def)
    moreover have "still_linked ts (seen @ [dt_linked (ts ! b)])" using still_linked_append [OF e(1)] True e(2) by simp
    ultimately have "walk_fits ts (Listing b (dt_head (ts ! b)) out (seen @ [dt_linked (ts ! b)]))"
      using e unfolding walk_fits.simps
      by (intro exI [of _ seen] exI [of _ "[]"] exI [of _ "dt_linked (ts ! b)"]) (simp add: node_entries_def)
    then show ?thesis using Entering True by (simp add: walk_step_def)
  next
    case False
    then have "length seen = length ts" using e(1,2) by (simp add: still_linked_def)
    then show ?thesis using Entering False e by (simp add: walk_step_def)
  qed
next
  case (Listing b current out seen)
  then obtain before passed rest where l: "seen = before @ [passed @ rest]" "length before = b" "still_linked ts seen"
      "chain (dt_next (ts ! b)) current rest" "out = entries ts before @ node_entries (ts ! b) passed"
    using fits by auto
  have b: "b < length ts" "suffix (passed @ rest) (dt_linked (ts ! b))"
    using still_linked_last [of ts before] l(1-3) by auto
  show ?thesis
  proof (cases rest)
    case Nil
    then show ?thesis using l b(1) Listing by (simp add: walk_step_def entries_append)
  next
    case (Cons c ns)
    have "c \<in> set (dt_linked (ts ! b))" using b(2) Cons set_mono_suffix by fastforce
    moreover have "bucket_ok (ts ! b)" using ok b(1) by (simp add: list_all_length)
    ultimately obtain entry where entry: "dt_node (ts ! b) c = Some entry"
      by (fastforce simp: bucket_ok_def dt_inv_def nodes_made_def)
    have "walk_fits ts (Listing b (dt_next (ts ! b) c) (out @ [entry]) seen)"
      using l Cons entry unfolding walk_fits.simps
      by (intro exI [of _ before] exI [of _ "passed @ [c]"] exI [of _ ns]) (simp add: node_entries_def)
    then show ?thesis using l(4) Cons entry Listing by (simp add: walk_step_def)
  qed
qed (simp_all add: walk_step_def)

lemma bucket_step:
  assumes "list_all bucket_ok ts" and "b < length ts" and "dt_do m (ts ! b) = Some t" and "\<not> is_remove m"
  shows "list_all bucket_ok (ts[b := t]) \<and> table_extends ts (ts[b := t])"
proof -
  have ok: "dt_inv (ts ! b)" "nodes_made (ts ! b)" using assms(1,2) by (simp_all add: list_all_length bucket_ok_def)
  then have "bucket_ok t"
    using dt_do_inv [OF _ assms(3,4)] insert_step_made [OF _ _ assms(3,4)] by (simp add: bucket_ok_def)
  then show ?thesis
    using table_extends_update [OF assms(2) insert_step_extends [OF ok(1) assms(3,4)]] list_all_update [OF assms(1)] by simp
qed

lemma dw_do_inv:
  assumes inv: "dw_inv w" and step: "dw_do index m w = Some w'" and m: "\<not> dw_removes m"
  shows "dw_inv w' \<and> table_extends (dw_table w) (dw_table w')"
proof (cases m)
  case (In_bucket b c)
  then obtain t where t: "b < length (dw_table w)" "dt_do c (dw_table w ! b) = Some t" "w' = w\<lparr>dw_table := (dw_table w)[b := t]\<rparr>"
    using step by (auto split: if_splits)
  have "list_all bucket_ok ((dw_table w)[b := t]) \<and> table_extends (dw_table w) ((dw_table w)[b := t])"
    by (rule bucket_step [OF _ t(1,2)]) (use inv m In_bucket in \<open>simp_all add: dw_inv_def\<close>)
  then show ?thesis
    using inv t(3) by (auto simp: dw_inv_def list_all_iff intro: walk_fits_extends)
next
  case (Walk_call r)
  have "walk_fits (dw_table w) (Entering 0 [] [])" by (simp add: still_linked_def entries_def)
  then show ?thesis
    using inv step Walk_call list_all_update [of "walk_fits (dw_table w)" "dw_walks w"]
    by (auto simp: dw_inv_def set_walk_def simp del: walk_fits.simps split: if_splits)
next
  case (Walk_on r)
  then obtain p where p: "r < length (dw_walks w)" "walk_step (dw_table w) (dw_walks w ! r) = Some p" "w' = set_walk r p w"
    using step by (auto split: if_splits)
  have "walk_fits (dw_table w) p"
    using walk_step_fits [of "dw_table w" "dw_walks w ! r"] inv p by (simp add: dw_inv_def list_all_length)
  then show ?thesis
    using inv p(3) list_all_update [of "walk_fits (dw_table w)" "dw_walks w"] by (simp add: dw_inv_def set_walk_def)
qed

interpretation walks: run_effect "dw_do index" dw_inv dw_removes "\<lambda>_ w w'. table_extends (dw_table w) (dw_table w')" for index
  by unfold_locales (auto dest: dw_do_inv intro: table_extends_trans)

lemma dw_inv_initial: "dw_inv (dw_initial S n m :: ('k, 'v) dw_world)"
proof -
  have "bucket_ok (dt_initial n :: ('k, 'v) dt_world)"
    using dt_inv_initial [of n] by (simp add: bucket_ok_def) (simp add: nodes_made_def dt_initial_def)
  then show ?thesis by (simp add: dw_inv_def dw_initial_def list_all_iff)
qed

text \<open>What a walk saw of a bucket includes all that was linked there when the walk began.\<close>

definition walks_from :: "('k, 'v) dt_world list \<Rightarrow> ('k, 'v) walk_phase \<Rightarrow> bool" where
  "walks_from ts p = (p \<noteq> No_walk \<and> (\<forall>b < length (walked p). suffix (dt_linked (ts ! b)) (walked p ! b)))"

fun walk_calls :: "nat \<Rightarrow> ('k, 'v) dw_move \<Rightarrow> bool" where
  "walk_calls r (Walk_call r') = (r' = r)"
| "walk_calls r _ = False"

lemma walk_step_from:
  assumes "walks_from ts0 p" and ext: "table_extends ts0 ts" and "walk_fits ts p" and step: "walk_step ts p = Some q"
  shows "walks_from ts0 q"
proof (cases p)
  case (Entering b out seen)
  have new: "suffix (dt_linked (ts0 ! b)) (dt_linked (ts ! b))" if "b < length ts"
    using table_extends_nth [OF ext, of b] table_extends_length [OF ext] that by (simp add: extends_def)
  have "length seen = b" using Entering assms(3) by simp
  then show ?thesis
    using assms(1) step Entering new by (auto simp: walks_from_def walk_step_def nth_append less_Suc_eq split: if_splits)
next
  case (Listing b current out seen)
  then show ?thesis
    using assms(1) step by (auto simp: walks_from_def walk_step_def split: option.splits)
qed (use step in \<open>simp_all add: walk_step_def\<close>)

definition walking :: "nat \<Rightarrow> ('k, 'v) dt_world list \<Rightarrow> ('k, 'v) dw_world \<Rightarrow> bool" where
  "walking r ts w = (dw_inv w \<and> r < length (dw_walks w) \<and> table_extends ts (dw_table w) \<and> walks_from ts (dw_walks w ! r))"

lemma walking_step:
  assumes inv: "walking r ts w" and step: "dw_do index m w = Some w'" and m: "\<not> (dw_removes m \<or> walk_calls r m)"
  shows "walking r ts w'"
proof -
  have w': "dw_inv w'" "table_extends ts (dw_table w')"
    using dw_do_inv [OF _ step] inv m by (auto simp: walking_def intro: table_extends_trans)
  have "r < length (dw_walks w') \<and> walks_from ts (dw_walks w' ! r)"
  proof (cases m)
    case (Walk_on r')
    then obtain p where p: "r' < length (dw_walks w)" "walk_step (dw_table w) (dw_walks w ! r') = Some p" "w' = set_walk r' p w"
      using step by (auto split: if_splits)
    show ?thesis
    proof (cases "r' = r")
      case True
      have "walk_fits (dw_table w) (dw_walks w ! r)" using inv by (simp add: walking_def dw_inv_def list_all_length)
      then have "walks_from ts p" using walk_step_from [of ts "dw_walks w ! r" "dw_table w" p] inv p(2) True by (simp add: walking_def)
      then show ?thesis using p True by (simp add: set_walk_def)
    next
      case False
      then show ?thesis using p(3) inv by (simp add: walking_def set_walk_def)
    qed
  qed (use step m inv in \<open>auto simp: walking_def set_walk_def split: if_splits\<close>)
  with w' show ?thesis by (simp add: walking_def)
qed

interpretation one_walk: run_invariant "dw_do index" "walking r ts" "\<lambda>m. dw_removes m \<or> walk_calls r m" for index r ts
  by unfold_locales (rule walking_step)

text \<open>
  C9: \<open>keys\<close> and \<open>each\<close> during any interleaved insertions never meet a missing node, and when they
  are through the table they have met, bucket by bucket, a part of each chain that has every
  entry linked before the walk began, only entries linked by its end, and none twice.
\<close>

theorem concurrent_walk_is_between:
  assumes "dw_run index ms1 (dw_initial S n m) = Some w1" and "\<not> list_ex dw_removes ms1"
    and "dw_run index (Walk_call r # ms2) w1 = Some w2" and "\<not> list_ex dw_removes ms2" and "\<not> list_ex (walk_calls r) ms2"
  shows "case dw_walks w2 ! r of
      Listed out seen \<Rightarrow> length seen = S \<and> out = concat (map (\<lambda>b. node_entries (dw_table w2 ! b) (seen ! b)) [0..<S])
        \<and> (\<forall>b < S. suffix (dt_linked (dw_table w1 ! b)) (seen ! b) \<and> suffix (seen ! b) (dt_linked (dw_table w2 ! b))
             \<and> distinct (seen ! b))
    | _ \<Rightarrow> dw_do index (Walk_on r) w2 \<noteq> None"
proof -
  have inv1: "dw_inv w1" and ext1: "table_extends (dw_table (dw_initial S n m)) (dw_table w1)"
    using walks.run_has_effect [OF dw_inv_initial assms(1,2)] by simp_all
  then have S: "length (dw_table w1) = S" using table_extends_length by (fastforce simp: dw_initial_def)
  obtain w where w: "dw_do index (Walk_call r) w1 = Some w" "dw_run index ms2 w = Some w2"
    using assms(3) by (auto split: option.splits)
  have "dw_inv w" using dw_do_inv [OF inv1 w(1)] by simp
  moreover have "r < length (dw_walks w)" "dw_table w = dw_table w1" "dw_walks w ! r = Entering 0 [] []"
    using w(1) by (auto simp: set_walk_def split: if_splits)
  ultimately have "walking r (dw_table w1) w" by (simp add: walking_def walks_from_def)
  moreover have "\<not> list_ex (\<lambda>m. dw_removes m \<or> walk_calls r m) ms2" using assms(4,5) by (auto simp: list_ex_iff)
  ultimately have walk: "walking r (dw_table w1) w2" by (rule one_walk.run_inv [OF _ w(2)])
  then have r: "r < length (dw_walks w2)" and ok: "list_all bucket_ok (dw_table w2)" and fits: "walk_fits (dw_table w2) (dw_walks w2 ! r)"
    and from_w1: "walks_from (dw_table w1) (dw_walks w2 ! r)" and len: "length (dw_table w2) = S"
    using S table_extends_length by (auto simp: walking_def dw_inv_def list_all_length)
  show ?thesis
  proof (cases "dw_walks w2 ! r")
    case (Listed out seen)
    then have l: "still_linked (dw_table w2) seen" "length seen = S" "out = entries (dw_table w2) seen"
      using fits len by simp_all
    have "map2 node_entries (dw_table w2) seen = map (\<lambda>b. node_entries (dw_table w2 ! b) (seen ! b)) [0..<S]"
      by (rule nth_equalityI) (use l(2) len in simp_all)
    moreover have "distinct (seen ! b)" if "b < S" for b
    proof -
      have "bucket_ok (dw_table w2 ! b)" using ok len that by (simp add: list_all_length)
      moreover have "suffix (seen ! b) (dt_linked (dw_table w2 ! b))" using l that by (simp add: still_linked_def)
      ultimately show ?thesis by (auto simp: bucket_ok_def dt_inv_def suffix_def)
    qed
    ultimately show ?thesis
      using l from_w1 Listed by (simp add: entries_def still_linked_def walks_from_def)
  qed (use walk_step_fits [OF ok fits] from_w1 r in \<open>auto simp: walks_from_def split: option.splits\<close>)
qed

lemma concurrent_walk_is_between_witness:
  "\<exists>w1 w2. dw_run (\<lambda>k. nat (k mod 2)) [In_bucket 0 (0, Insert (4::int) ''a''), In_bucket 0 (0, Go_on), In_bucket 0 (0, Go_on)]
      (dw_initial 2 2 1) = Some w1
    \<and> dw_run (\<lambda>k. nat (k mod 2)) [Walk_call 0, Walk_on 0, In_bucket 0 (1, Insert 6 ''b''), In_bucket 0 (1, Go_on), In_bucket 0 (1, Go_on),
        In_bucket 1 (0, Insert 5 ''c''), In_bucket 1 (0, Go_on), In_bucket 1 (0, Go_on),
        Walk_on 0, Walk_on 0, Walk_on 0, Walk_on 0, Walk_on 0, Walk_on 0] w1 = Some w2
    \<and> dw_walks w2 ! 0 = Listed [(4, ''a''), (5, ''c'')] [[0], [0]] \<and> suffix [0] (dt_linked (dw_table w2 ! 0))"
proof -
  let ?ms1 = "[In_bucket 0 (0, Insert 4 ''a''), In_bucket 0 (0, Go_on), In_bucket 0 (0, Go_on)] :: (int, string) dw_move list"
  let ?ms2 = "[Walk_on 0, In_bucket 0 (1, Insert 6 ''b''), In_bucket 0 (1, Go_on), In_bucket 0 (1, Go_on),
        In_bucket 1 (0, Insert 5 ''c''), In_bucket 1 (0, Go_on), In_bucket 1 (0, Go_on),
        Walk_on 0, Walk_on 0, Walk_on 0, Walk_on 0, Walk_on 0, Walk_on 0] :: (int, string) dw_move list"
  note calc = dw_initial_def dt_initial_def dt_set_def dt_insert_step_def set_walk_def walk_step_def eval_nat_numeral
  have "dw_run (\<lambda>k. nat (k mod 2)) ?ms1 (dw_initial 2 2 1) \<noteq> None" by (simp add: calc)
  then obtain w1 where w1: "dw_run (\<lambda>k. nat (k mod 2)) ?ms1 (dw_initial 2 2 1) = Some w1" by blast
  then have "dw_run (\<lambda>k. nat (k mod 2)) (Walk_call 0 # ?ms2) w1 \<noteq> None" by (auto simp: calc)
  then obtain w2 where w2: "dw_run (\<lambda>k. nat (k mod 2)) (Walk_call 0 # ?ms2) w1 = Some w2" by blast
  from w1 w2 have p: "dw_walks w2 ! 0 = Listed [(4, ''a''), (5, ''c'')] [[0], [0]]" by (auto simp: calc)
  from concurrent_walk_is_between [OF w1 _ w2] p have "\<forall>b < 2. suffix ([[0], [0]] ! b) (dt_linked (dw_table w2 ! b))" by simp
  from this [rule_format, of 0] have "suffix [0] (dt_linked (dw_table w2 ! 0))" by simp
  with w1 w2 p show ?thesis by blast
qed

end
