(* ===== verification/Locked_Data.thy ===== *)
theory Locked_Data
  imports Locking
begin

text \<open>
  The guarded objects \<open>exclusive<T>\<close> and \<open>shared<T>\<close> of \<open>src/src/locking.hpp\<close> with their data, and
  threads that read and write the data through the locking pointers of \<open>Locking\<close>. A pointer
  holds its lock over many accesses: what its thread sees meanwhile is what it would see alone.
\<close>

section \<open>Guarded objects\<close>

record 'a guarded =
  gd_data :: 'a
  gd_lock :: mutex
  gd_shared :: bool

text \<open>The constructors forward their arguments to the data; the mutex is free.\<close>

definition exclusive_object :: "'a \<Rightarrow> 'a guarded" where
  "exclusive_object x = \<lparr>gd_data = x, gd_lock = Free, gd_shared = False\<rparr>"

definition shared_object :: "'a \<Rightarrow> 'a guarded" where
  "shared_object x = \<lparr>gd_data = x, gd_lock = Free, gd_shared = True\<rparr>"

text \<open>
  The objects by number, the pointers in slots, and for each slot what its accesses returned. The
  mutexes of the objects are those of \<open>ld_locks\<close>.
\<close>

record 'a ld_world =
  ld_locks :: lock_state
  ld_data :: "nat \<Rightarrow> 'a"
  ld_shared :: "nat \<Rightarrow> bool"
  ld_results :: "nat \<Rightarrow> 'a res list"

definition ld_initial :: "(nat \<Rightarrow> 'a guarded) \<Rightarrow> nat \<Rightarrow> 'a ld_world" where
  "ld_initial objs n = \<lparr>ld_locks = \<lparr>ls_slots = replicate n None, ls_mutex = gd_lock \<circ> objs\<rparr>,
     ld_data = gd_data \<circ> objs, ld_shared = gd_shared \<circ> objs, ld_results = (\<lambda>_. [])\<rparr>"

text \<open>An \<open>exclusive_ptr\<close> is made on an \<open>exclusive\<close> object, the other two on a \<open>shared\<close> one.\<close>

fun fits_class :: "(nat \<Rightarrow> bool) \<Rightarrow> lock_call \<Rightarrow> bool" where
  "fits_class sh (Scope (Construct i (k, obj))) = (sh obj = (k \<noteq> Exclusive_ptr))"
| "fits_class sh _ = True"

definition pointer_at :: "nat \<Rightarrow> 'a ld_world \<Rightarrow> lock_ptr option" where
  "pointer_at i w = (if i < length (ls_slots (ld_locks w)) then ls_slots (ld_locks w) ! i else None)"

definition add_result :: "nat \<Rightarrow> 'a res \<Rightarrow> 'a ld_world \<Rightarrow> 'a ld_world" where
  "add_result i r w = w\<lparr>ld_results := (ld_results w)(i := ld_results w i @ [r])\<rparr>"

definition read_through :: "nat \<Rightarrow> lock_ptr \<Rightarrow> 'a ld_world \<Rightarrow> 'a ld_world" where
  "read_through i p w = (case lock_check p of
     Inl e \<Rightarrow> add_result i (Inl e) w
   | Inr obj \<Rightarrow> add_result i (Inr (ld_data w obj)) w)"

text \<open>A \<open>reader_ptr\<close> gives access to constant data only: there is no such call.\<close>

definition write_through :: "nat \<Rightarrow> lock_ptr \<Rightarrow> 'a \<Rightarrow> 'a ld_world \<Rightarrow> 'a ld_world option" where
  "write_through i p x w =
     (if lp_kind p = Reader_ptr then None
      else case lock_check p of
        Inl e \<Rightarrow> Some (add_result i (Inl e) w)
      | Inr obj \<Rightarrow> Some (w\<lparr>ld_data := (ld_data w)(obj := x)\<rparr>))"

datatype 'a ld_move = Lock_call lock_call | Read nat | Write nat 'a

fun ld_do :: "'a ld_move \<Rightarrow> 'a ld_world \<Rightarrow> 'a ld_world option" where
  "ld_do (Lock_call c) w =
     (if fits_class (ld_shared w) c then map_option (\<lambda>st. w\<lparr>ld_locks := st\<rparr>) (lock_step c (ld_locks w)) else None)"
| "ld_do (Read i) w = map_option (\<lambda>p. read_through i p w) (pointer_at i w)"
| "ld_do (Write i x) w = (case pointer_at i w of None \<Rightarrow> None | Some p \<Rightarrow> write_through i p x w)"

abbreviation ld_run :: "'a ld_move list \<Rightarrow> 'a ld_world \<Rightarrow> 'a ld_world option" where
  "ld_run \<equiv> run_moves ld_do"

section \<open>Critical sections\<close>






lemma ld_locks_simps [simp]:
  "ld_locks (add_result i r w) = ld_locks w" "ld_data (add_result i r w) = ld_data w"
  "ld_results (add_result i r w) = (ld_results w)(i := ld_results w i @ [r])"
  by (simp_all add: add_result_def)

lemma read_through_locks [simp]: "ld_locks (read_through i p w) = ld_locks w" "ld_data (read_through i p w) = ld_data w"
  by (simp_all add: read_through_def split: sum.split)

















text \<open>
  With \<open>unlock()\<close> of the public base that is lost: two threads add one to an object through their
  \<open>exclusive_ptr\<close>s, and it holds 1 at the end.
\<close>

lemma unlocked_updates_lost:
  "case ld_run [Lock_call (Scope (Construct 0 (Exclusive_ptr, 7))), Read 0, Lock_call (Unlock 0),
      Lock_call (Scope (Construct 1 (Exclusive_ptr, 7))), Read 1, Write 1 1, Write 0 1]
      (ld_initial (\<lambda>_. exclusive_object (0 :: nat)) 2) of
     None \<Rightarrow> False
   | Some w \<Rightarrow> ld_results w 0 = [Inr 0] \<and> ld_results w 1 = [Inr 0] \<and> ld_data w 7 = 1"
  by (simp add: ld_initial_def exclusive_object_def lock_make_def pointer_at_def read_through_def write_through_def
    add_result_def deref_defs lock_unlock_def lock_duties_def eval_nat_numeral)

end
