(* ===== verification/Spec2Isabelle.thy ===== *)
theory Spec2Isabelle
  imports
    Common Expected Byte_Array Atomic_Cells Atomic_Stack Atomic_Ring Dictionary Dictionary_Threads
    Tokens Scan Pipeline_Threads Locking Sync_Scopes Timer Finalize Buffer Print Handles System
    Networks Resolver Fsys
    Stack_Threads Ring_Threads Dictionary_Readers Timer_Tasks Async_Resolver Barrier_Phases Event_Copies
    Dictionary_Walks Locked_Data
begin

text \<open>
  Hitycho is a C++ header library of system components over HPX: \<^verbatim>\<open>src/src/*.hpp\<close>. This
  development models its components as executable functions and proves what makes each of
  them correct, or shows where it is not.

  \<^bold>\<open>Parts.\<close> \<open>Prelude\<close> holds the failures (\<^verbatim>\<open>error\<close>, \<^verbatim>\<open>range\<close>, \<^verbatim>\<open>invalid\<close>,
  \<^verbatim>\<open>overflow\<close> of \<^verbatim>\<open>common.hpp\<close>, and \<open>Undefined\<close> for executions that the C++ standard leaves
  undefined), the machine types and the lemmas on lists, words and cyclic indices that
  the components share; \<open>Ascii\<close> the character functions of the C locale; \<open>String_View\<close> the
  searches of \<^verbatim>\<open>std::string_view\<close>.

    \<^item> \<open>Common\<close>, \<open>Expected\<close>: \<^verbatim>\<open>common.hpp\<close> and \<^verbatim>\<open>expected.hpp\<close>.
    \<^item> \<open>Binary_Codec\<close>, \<open>Base64\<close>, \<open>Byte_Array\<close>: \<^verbatim>\<open>binary.hpp\<close>. The locale \<open>codec\<close> says what an
      encoder and its decoder promise; both codecs interpret it, and \<open>Byte_Array\<close> builds on it.
    \<^item> \<open>Atomic_Cells\<close>, \<open>Atomic_Stack\<close>, \<open>Atomic_Ring\<close>, \<open>Dictionary\<close>, \<open>Dictionary_Threads\<close>:
      \<^verbatim>\<open>atomic.hpp\<close>. The locale \<open>map_contract\<close> of \<open>Map_Contract\<close> is interpreted on the
      dictionary; \<open>Dictionary_Threads\<close> splits its insertion and removal into their atomic
      steps, over a store of nodes that several threads share, and \<open>Dictionary_Readers\<close> adds the
      threads that search and assign meanwhile, \<open>Dictionary_Walks\<close> those that list the whole
      table. \<open>Stack_Threads\<close> and \<open>Ring_Threads\<close> do the same for the stack and the ring.
    \<^item> \<open>Strings\<close>, \<open>Tokens\<close>: \<^verbatim>\<open>strings.hpp\<close>; \<open>Scan\<close>: \<^verbatim>\<open>scan.hpp\<close>.
    \<^item> \<open>Pipeline\<close>, \<open>Pipeline_Threads\<close>: \<^verbatim>\<open>pipeline.hpp\<close>. The locale \<open>fifo\<close> of \<open>Fifo_Contract\<close>
      follows the values through any run; the pipeline and the ring interpret it.
    \<^item> \<open>Scope_Contract\<close>: what the library's owning objects share. Each is made on a resource,
      can be moved and assigned, and gives the resource back at the end of its life. The locale
      \<open>scope\<close> states the laws of those operations and follows a program over any number of
      such objects: every resource that was taken is given back exactly once. \<open>early_scope\<close>
      adds objects that can give up their resource before their end, \<open>acting_scope\<close> those that can
      also hand it to the caller or take on another one, as a handle does; \<open>owner\<close>, which
      \<open>scope\<close> implies, is the weaker contract of the lists of \<open>Networks\<close> and \<open>Resolver\<close>.
    \<^item> \<open>Locked_Data\<close>: the guarded objects of \<^verbatim>\<open>locking.hpp\<close> with their data, read and written through
      the pointers of \<open>Locking\<close>.
    \<^item> \<open>Run_Contract\<close>: runs of the machines whose moves are the steps of several threads or objects.
      Its locales \<open>run_invariant\<close> and \<open>run_effect\<close> lift an invariant, and what the moves amount
      to, from steps to runs; the machines given by a step function interpret them, while
      \<open>Wait_Group\<close> is a step relation with its own induction.
    \<^item> \<open>Locking\<close> (\<^verbatim>\<open>locking.hpp\<close>), \<open>Sync_Scopes\<close> (the scopes of \<^verbatim>\<open>sync.hpp\<close>), \<open>Handles\<close>
      (\<^verbatim>\<open>handle_t\<close> of \<^verbatim>\<open>system.hpp\<close>), \<open>Timer\<close> (\<^verbatim>\<open>timer.hpp\<close>) and \<open>Fsys\<close> (\<^verbatim>\<open>fsys.hpp\<close>) interpret
      \<open>scope\<close>, with the operations of the code's classes.
    \<^item> \<open>Wait_Group\<close>: \<^verbatim>\<open>wait_group\<close> of \<^verbatim>\<open>sync.hpp\<close> in threads that sleep and wake.
    \<^item> \<open>Event_Copies\<close>: the objects of \<^verbatim>\<open>event\<close>, whose copies share a semaphore.
    \<^item> \<open>Barrier_Phases\<close> runs the barrier scopes of \<open>Sync_Scopes\<close> with a barrier of the standard
      library; \<open>Timer_Tasks\<close> starts the workers of \<open>Timer\<close> as tasks and cancels them with its
      guards; \<open>Async_Resolver\<close> puts the lookups of \<open>Resolver\<close> behind futures.
    \<^item> \<open>Buffer\<close>: \<^verbatim>\<open>buffer.hpp\<close>; \<open>Print\<close>: \<^verbatim>\<open>print.hpp\<close>, on the times and the order of \<open>Calendar\<close>;
      \<open>Finalize\<close>: \<^verbatim>\<open>finalize.hpp\<close>; \<open>System\<close>: the rest of \<^verbatim>\<open>system.hpp\<close>.
    \<^item> \<open>Sockets\<close>, \<open>Networks\<close>, \<open>Resolver\<close>: \<^verbatim>\<open>sockets.hpp\<close>, \<^verbatim>\<open>networks.hpp\<close>, \<^verbatim>\<open>resolver.hpp\<close>.
      \<open>Networks\<close> builds addresses with the operations of \<open>Sockets\<close>, whose socket class owns its
      descriptor as the handles of \<open>Handles\<close> do.

  \<^bold>\<open>How the model corresponds to the code.\<close> A class is a record of its members or, where it
  has one member, that member; a member function is a function from the state and its
  arguments to its result and the new state, named after it with a prefix for the class
  (\<open>pp_push\<close>, \<open>dict_remove\<close>, \<open>ba_slice\<close>). A \<^verbatim>\<open>throw\<close> is an \<open>Inl\<close>. Words stand for integers
  where wrapping matters (\<^verbatim>\<open>pow\<close>, the codecs, the scanners, the atomics, counts and timeouts),
  naturals for sizes and positions, with \<open>sz_add\<close> and \<open>sz_sub\<close> where their arithmetic can
  wrap. The head, tail and count of a pipeline (\<^verbatim>\<open>unsigned\<close>) and the count of a dictionary are
  naturals too: they stay below the capacity and the number of entries, so the model differs from
  the code only at \<open>2 ^ 32\<close> slots or when a dictionary's count would wrap. Atomic members are single steps, so a sequence of calls is any interleaving of
  threads. The pipeline's calls are single steps under its mutex in \<open>Pipeline\<close>;
  \<open>Pipeline_Threads\<close> runs them in threads that sleep and wake, and separates what \<^verbatim>\<open>close\<close>
  does without the mutex. A socket address is the 128 bytes of \<^verbatim>\<open>sockaddr_storage\<close> in the
  layout of Linux on a little-endian machine, read and written through the offsets of its
  fields. Linked lists that the operating system returns (interfaces, resolved addresses)
  are lists of records, with \<open>None\<close> for null members.

  \<^bold>\<open>Parameters.\<close> What the operating system answers is an argument of the definitions that
  ask: the bytes that \<^verbatim>\<open>inet_pton\<close> reads from a text and the text \<^verbatim>\<open>inet_ntop\<close> gives, the lists of
  \<^verbatim>\<open>getifaddrs\<close> and \<^verbatim>\<open>getaddrinfo\<close>, the results of \<^verbatim>\<open>read\<close>, \<^verbatim>\<open>write\<close> and \<^verbatim>\<open>poll\<close>, the entries of a
  directory, the time of the clock, \<^verbatim>\<open>std::hash\<close>. Where a property relies on
  documented behaviour of one of them (an IPv4 address has four bytes, printing an
  address and reading it back gives it again) that is a named hypothesis, with a concrete
  function in the witness.

  \<^bold>\<open>What the lemmas show.\<close> Round trips for the codecs, the splitting functions and the text
  forms; for each parser its result on every input; a refinement of the dictionary to finite
  maps and of the pipeline to bounded queues; conservation of the pipeline's items and
  single ownership of its objects; that a sole consumer or producer sleeps with reason, that a
  burst of pushes or pulls wakes one of several sleepers, and that \<^verbatim>\<open>close\<close> misses at most the thread
  that holds the mutex and is about to sleep; that
  insertions of any interleaved threads all stay linked and that a search meanwhile takes effect
  at one moment and ends within one step more than there were nodes; that a listing has all that
  was there before it and only what was there by its end; that interleaved pushes fill the
  slots of a stack; mutual exclusion through the lock pointers, and that a thread with one sees its
  object as if it were alone; that a wait group's last release leaves no sleeper; that every handle
  that is not released to the caller, directory, permit, group and barrier arrival is given back once, that the scopes of a barrier end
  its phase and the guards of timers end the timers; what a future lookup reads; the lines a
  stream buffer gives are the parts of its text; that timestamps sort as their
  times do; what a name, family and port bind to, branch by branch.
  Where the code does not do what its name says the property states what it does: the stack's
  \<^verbatim>\<open>pop\<close>, the ring's \<^verbatim>\<open>pull\<close>, wake-ups with several consumers, \<^verbatim>\<open>tokenize\<close> of texts that
  start or end with delimiters, removal from a shared dictionary,
  two assignments of one key, pulls during pushes, removals during searches, 64-bit
  \<^verbatim>\<open>parse_hex\<close>, units of \<^verbatim>\<open>parse_size\<close>, \<^verbatim>\<open>subview\<close> with its default count, timeouts far
  in the future, addresses of different lengths that are neither equal nor unequal.

  \<^bold>\<open>Loops.\<close> Every loop is a recursion that is proved to end (the searches over memory by the
  distance to its end, those over lists by the list), except \<^verbatim>\<open>pow\<close> at \<^verbatim>\<open>int\<close> and the
  loop of \<^verbatim>\<open>push\<close>, which are partial functions into an option: \<open>pow_int\<close> returns under the
  stated bound, and \<open>pp_push\<close> always does on a well-formed pipeline. The interval worker is a
  loop over what its token and its clock give, a list that ends where it is cancelled; the
  timed waits are loops over what each of their wake-ups finds. Loops that other threads can
  interrupt are steps of a thread. No fuel is used.

  \<^bold>\<open>Not modelled.\<close> Memory orders; allocation failure; the HPX runtime, of which the mutex,
  condition variables, semaphores, barriers, futures and yielding are used;
  the formatting library behind \<^verbatim>\<open>print\<close>; the moving operations of \<^verbatim>\<open>dictionary_t\<close>, which do
  not compile when they are used; floating-point rounding: the operations of \<^verbatim>\<open>double\<close> are
  parameters, which the property of \<^verbatim>\<open>parse_decimal\<close> takes to be those of the reals.
\<close>

section \<open>Components together\<close>


lemma parse_unsigned_never_undefined: "parse_unsigned s mn mx \<noteq> Inl Undefined"
  by (simp add: parse_unsigned_def Let_def split: prod.split)



end
